(* ===== verification/Metering_Store.thy ===== *)
theory Metering_Store
  imports Fw_Prelude
begin

text \<open>
  The storage half of \<open>fwllm-gateway/src/metering.rs\<close>: the requests and errors of the
  trait \<open>MeteringStore\<close>, the trait itself as a record of operations on a store state
  (a trait object), and the backend \<open>InMemoryStore\<close>.  Every operation returns the store as
  well.  The contract that \<open>Metering\<close> relies on is the locale \<open>metering_backend\<close>;
  \<open>InMemoryStore\<close> is shown to satisfy it.
\<close>

section \<open>Requests and errors\<close>

datatype reserve_denied = ClientTokens | ClientRequests | ProviderTokens

datatype reserve_error = Denied reserve_denied | Backend string

record admit_op =
  c_tokens_key :: string
  c_tokens_limit :: int
  c_req_key :: string
  c_req_limit :: int
  p_tokens_key :: string
  p_tokens_limit :: int
  p_req_key :: string
  m_tokens_key :: string
  op_reserve :: int
  op_reservation_key :: string
  reservation_ttl_secs :: nat
  op_bucket_ttl_secs :: nat

record settle_req =
  sr_reservation_key :: string
  sr_token_keys :: "string list"
  sr_delta :: int
  sr_bucket_ttl_secs :: nat

record 's store_ops =
  st_incr :: "string \<Rightarrow> int \<Rightarrow> 's \<Rightarrow> (string + int) \<times> 's"
  st_get :: "string \<Rightarrow> 's \<Rightarrow> (string + int) \<times> 's"
  st_ping :: "'s \<Rightarrow> (string + unit) \<times> 's"
  st_reserve :: "admit_op \<Rightarrow> 's \<Rightarrow> (reserve_error + unit) \<times> 's"
  st_settle :: "settle_req \<Rightarrow> 's \<Rightarrow> (string + bool) \<times> 's"

section \<open>InMemoryStore\<close>

record mem_store =
  counters :: "(string, int) hmap"
  settled :: "string set"

definition mem_empty :: mem_store where
  "mem_empty = \<lparr>counters = [], settled = {}\<rparr>"

text \<open>\<open>map.get(key).copied().unwrap_or(0)\<close>, and \<open>*map.entry(key).or_default() += amount\<close>.\<close>

definition count :: "(string, int) hmap \<Rightarrow> string \<Rightarrow> int" where
  "count m k = (case hget m k of Some v \<Rightarrow> v | None \<Rightarrow> 0)"

definition bump :: "string \<Rightarrow> int \<Rightarrow> (string, int) hmap \<Rightarrow> (string, int) hmap" where
  "bump k amount m = hput k (i64_add (count m k) amount) m"

definition mem_incr :: "string \<Rightarrow> int \<Rightarrow> mem_store \<Rightarrow> (string + int) \<times> mem_store" where
  "mem_incr k amount s =
     (let m = bump k amount (counters s) in (Inr (count m k), s\<lparr>counters := m\<rparr>))"

definition mem_get :: "string \<Rightarrow> mem_store \<Rightarrow> (string + int) \<times> mem_store" where
  "mem_get k s = (Inr (count (counters s) k), s)"

definition mem_ping :: "mem_store \<Rightarrow> (string + unit) \<times> mem_store" where
  "mem_ping s = (Inr (), s)"

definition mem_reserve :: "admit_op \<Rightarrow> mem_store \<Rightarrow> (reserve_error + unit) \<times> mem_store" where
  "mem_reserve req s =
     (let m = counters s in
      if c_req_limit req \<ge> 0 \<and> i64_add (count m (c_req_key req)) 1 > c_req_limit req
      then (Inl (Denied ClientRequests), s)
      else if c_tokens_limit req \<ge> 0
              \<and> i64_add (count m (c_tokens_key req)) (op_reserve req) > c_tokens_limit req
      then (Inl (Denied ClientTokens), s)
      else if p_tokens_limit req \<ge> 0
              \<and> i64_add (count m (p_tokens_key req)) (op_reserve req) > p_tokens_limit req
      then (Inl (Denied ProviderTokens), s)
      else
        (let m = bump (c_tokens_key req) (op_reserve req) m;
             m = bump (c_req_key req) 1 m;
             m = bump (p_tokens_key req) (op_reserve req) m;
             m = bump (p_req_key req) 1 m;
             m = bump (m_tokens_key req) (op_reserve req) m
         in (Inr (), s\<lparr>counters := m\<rparr>)))"

fun settle_keys :: "int \<Rightarrow> string list \<Rightarrow> (string, int) hmap \<Rightarrow> (string, int) hmap" where
  "settle_keys delta [] m = m"
| "settle_keys delta (k # ks) m =
     settle_keys delta ks (hput k (max 0 (i64_add (count m k) delta)) m)"

definition mem_settle :: "settle_req \<Rightarrow> mem_store \<Rightarrow> (string + bool) \<times> mem_store" where
  "mem_settle req s =
     (if sr_reservation_key req \<in> settled s then (Inr False, s)
      else (Inr True,
            s\<lparr>settled := insert (sr_reservation_key req) (settled s),
              counters := settle_keys (sr_delta req) (sr_token_keys req) (counters s)\<rparr>))"

definition in_memory :: "mem_store store_ops" where
  "in_memory = \<lparr>st_incr = mem_incr, st_get = mem_get, st_ping = mem_ping,
     st_reserve = mem_reserve, st_settle = mem_settle\<rparr>"

lemmas in_memory_simps = in_memory_def mem_incr_def mem_get_def mem_ping_def

lemma count_hput [simp]: "count (hput k v m) k' = (if k' = k then v else count m k')"
  by (simp add: count_def)

lemma count_bump [simp]:
  "count (bump k a m) k' = (if k' = k then i64_add (count m k) a else count m k')"
  by (simp add: bump_def)

lemma count_settle_keys:
  "distinct ks \<Longrightarrow>
   count (settle_keys d ks m) k = (if k \<in> set ks then max 0 (i64_add (count m k) d) else count m k)"
  by (induction d ks m rule: settle_keys.induct) auto

section \<open>The contract\<close>

text \<open>
  An admission names five different buckets, and no sum leaves the \<open>i64\<close> range.
\<close>

definition op_keys :: "admit_op \<Rightarrow> string list" where
  "op_keys req = [c_tokens_key req, c_req_key req, p_tokens_key req, p_req_key req, m_tokens_key req]"

definition op_amount :: "admit_op \<Rightarrow> string \<Rightarrow> int" where
  "op_amount req k =
     (if k = c_tokens_key req \<or> k = p_tokens_key req \<or> k = m_tokens_key req then op_reserve req
      else if k = c_req_key req \<or> k = p_req_key req then 1 else 0)"

definition op_fits :: "(string \<Rightarrow> int) \<Rightarrow> admit_op \<Rightarrow> bool" where
  "op_fits used req \<longleftrightarrow>
     distinct (op_keys req) \<and> (\<forall>k \<in> set (op_keys req). in_i64 (used k + op_amount req k))"

lemma op_amount_req: "distinct (op_keys req) \<Longrightarrow> op_amount req (c_req_key req) = 1"
  by (auto simp: op_keys_def op_amount_def)

lemma op_amount_tokens:
  "op_amount req (c_tokens_key req) = op_reserve req"
  "op_amount req (p_tokens_key req) = op_reserve req"
  "op_amount req (m_tokens_key req) = op_reserve req"
  by (simp_all add: op_amount_def)

text \<open>Admission: below the request limit, and the reserve fits both limited token buckets.\<close>

definition over_limit :: "int \<Rightarrow> int \<Rightarrow> bool" where
  "over_limit limit v \<longleftrightarrow> 0 \<le> limit \<and> limit < v"

definition admits :: "(string \<Rightarrow> int) \<Rightarrow> admit_op \<Rightarrow> bool" where
  "admits used req \<longleftrightarrow>
     \<not> over_limit (c_req_limit req) (used (c_req_key req) + 1) \<and>
     \<not> over_limit (c_tokens_limit req) (used (c_tokens_key req) + op_reserve req) \<and>
     \<not> over_limit (p_tokens_limit req) (used (p_tokens_key req) + op_reserve req)"

text \<open>The bucket a denial names is over its limit.\<close>

fun denial_justified :: "(string \<Rightarrow> int) \<Rightarrow> admit_op \<Rightarrow> reserve_denied \<Rightarrow> bool" where
  "denial_justified used req ClientRequests =
     over_limit (c_req_limit req) (used (c_req_key req) + 1)"
| "denial_justified used req ClientTokens =
     over_limit (c_tokens_limit req) (used (c_tokens_key req) + op_reserve req)"
| "denial_justified used req ProviderTokens =
     over_limit (p_tokens_limit req) (used (p_tokens_key req) + op_reserve req)"

definition charged :: "(string \<Rightarrow> int) \<Rightarrow> admit_op \<Rightarrow> string \<Rightarrow> int" where
  "charged used req k = used k + op_amount req k"

text \<open>
  A backend keeps a counter per key and remembers the settled reservations.  A denial and
  every failure of a read change nothing; a failure of \<open>reserve\<close> may hide an admission
  that went through (the reply was lost), and a failure of \<open>settle\<close> may hide a settlement.
\<close>

locale metering_backend =
  fixes ops :: "'s store_ops"
    and used :: "'s \<Rightarrow> string \<Rightarrow> int"
    and closed :: "'s \<Rightarrow> string set"
  assumes get_value: "st_get ops k s = (Inr v, s') \<Longrightarrow> v = used s k"
    and get_frame: "st_get ops k s = (g, s') \<Longrightarrow> used s' = used s \<and> closed s' = closed s"
    and ping_frame: "st_ping ops s = (p, s') \<Longrightarrow> used s' = used s \<and> closed s' = closed s"
    and reserve_ok: "op_fits (used s) req \<Longrightarrow> st_reserve ops req s = (Inr u, s') \<Longrightarrow>
      admits (used s) req \<and> used s' = charged (used s) req \<and> closed s' = closed s"
    and reserve_denied: "op_fits (used s) req \<Longrightarrow> st_reserve ops req s = (Inl (Denied d), s') \<Longrightarrow>
      denial_justified (used s) req d \<and> used s' = used s \<and> closed s' = closed s"
    and reserve_failed: "op_fits (used s) req \<Longrightarrow> st_reserve ops req s = (Inl (Backend e), s') \<Longrightarrow>
      (used s' = used s \<or> admits (used s) req \<and> used s' = charged (used s) req) \<and> closed s' = closed s"
    and settle_applied: "distinct (sr_token_keys q) \<Longrightarrow>
      \<forall>k \<in> set (sr_token_keys q). in_i64 (used s k + sr_delta q) \<Longrightarrow>
      st_settle ops q s = (Inr True, s') \<Longrightarrow>
      sr_reservation_key q \<notin> closed s \<and> closed s' = insert (sr_reservation_key q) (closed s) \<and>
      used s' = (\<lambda>k. if k \<in> set (sr_token_keys q) then max 0 (used s k + sr_delta q) else used s k)"
    and settle_repeated: "st_settle ops q s = (Inr False, s') \<Longrightarrow> used s' = used s \<and> closed s' = closed s"
    and settle_closed: "sr_reservation_key q \<in> closed s \<Longrightarrow> st_settle ops q s = (b, s') \<Longrightarrow>
      b \<noteq> Inr True \<and> used s' = used s"
begin

lemma reserve_cases:
  assumes "op_fits (used s) req" and "st_reserve ops req s = (r, s')"
  shows "(used s' = used s \<or> admits (used s) req \<and> used s' = charged (used s) req) \<and>
    (r = Inr () \<longrightarrow> admits (used s) req \<and> used s' = charged (used s) req)"
proof (cases r)
  case (Inl e)
  show ?thesis
  proof (cases e)
    case (Denied d)
    from reserve_denied [OF assms(1) assms(2) [unfolded Inl Denied]] Inl show ?thesis by simp
  next
    case (Backend m)
    from reserve_failed [OF assms(1) assms(2) [unfolded Inl Backend]] Inl show ?thesis by simp
  qed
next
  case (Inr u)
  from reserve_ok [OF assms(1) assms(2) [unfolded Inr]] show ?thesis by simp
qed

lemma reserve_closed:
  assumes "op_fits (used s) req" and "st_reserve ops req s = (r, s')"
  shows "closed s' = closed s"
proof (cases r)
  case (Inl e)
  show ?thesis
  proof (cases e)
    case (Denied d)
    from reserve_denied [OF assms(1) assms(2) [unfolded Inl Denied]] Inl show ?thesis by simp
  next
    case (Backend m)
    from reserve_failed [OF assms(1) assms(2) [unfolded Inl Backend]] Inl show ?thesis by simp
  qed
next
  case (Inr u)
  from reserve_ok [OF assms(1) assms(2) [unfolded Inr]] show ?thesis by simp
qed

text \<open>A limited bucket that is within its limit stays within it.\<close>

lemma reserve_within:
  assumes f: "op_fits (used s) req" and r: "st_reserve ops req s = (r, s')"
    and k: "(k, limit) \<in> {(c_tokens_key req, c_tokens_limit req), (c_req_key req, c_req_limit req),
      (p_tokens_key req, p_tokens_limit req)}"
    and "0 \<le> limit" and "used s k \<le> limit"
  shows "used s' k \<le> limit"
proof -
  from reserve_cases [OF f r]
  consider "used s' = used s" | "admits (used s) req" "used s' = charged (used s) req" by blast
  then show ?thesis
  proof cases
    case 1
    with assms(5) show ?thesis by simp
  next
    case 2
    have d: "distinct (op_keys req)" using f by (simp add: op_fits_def)
    from k consider "k = c_tokens_key req" "limit = c_tokens_limit req"
      | "k = c_req_key req" "limit = c_req_limit req"
      | "k = p_tokens_key req" "limit = p_tokens_limit req" by auto
    then show ?thesis
    proof cases
      case 1
      with 2 d assms(4) show ?thesis by (simp add: charged_def op_amount_def admits_def over_limit_def)
    next
      case r: 2
      have "op_amount req (c_req_key req) = 1" using d by (rule op_amount_req)
      with r 2 assms(4) show ?thesis by (simp add: charged_def admits_def over_limit_def)
    next
      case 3
      with 2 d assms(4) show ?thesis by (simp add: charged_def op_amount_def admits_def over_limit_def)
    qed
  qed
qed

text \<open>Settling the same reservation again changes no counter.\<close>

lemma settle_twice:
  assumes "distinct (sr_token_keys q)" and "\<forall>k \<in> set (sr_token_keys q). in_i64 (used s k + sr_delta q)"
    and "st_settle ops q s = (Inr True, s1)"
    and "sr_reservation_key q' = sr_reservation_key q" and "st_settle ops q' s1 = (r, s2)"
  shows "used s2 = used s1"
proof -
  have "sr_reservation_key q' \<in> closed s1"
    using settle_applied [OF assms(1-3)] assms(4) by simp
  then show ?thesis using settle_closed assms(5) by blast
qed

end

lemma op_fits_sums:
  assumes "op_fits used req"
  shows "i64_add (used (c_req_key req)) 1 = used (c_req_key req) + 1"
    and "i64_add (used (c_tokens_key req)) (op_reserve req) = used (c_tokens_key req) + op_reserve req"
    and "i64_add (used (p_tokens_key req)) (op_reserve req) = used (p_tokens_key req) + op_reserve req"
proof -
  have "op_amount req (c_req_key req) = 1" "op_amount req (c_tokens_key req) = op_reserve req"
    "op_amount req (p_tokens_key req) = op_reserve req"
    using assms by (auto simp: op_fits_def op_keys_def op_amount_def)
  with assms show "i64_add (used (c_req_key req)) 1 = used (c_req_key req) + 1"
    and "i64_add (used (c_tokens_key req)) (op_reserve req) = used (c_tokens_key req) + op_reserve req"
    and "i64_add (used (p_tokens_key req)) (op_reserve req) = used (p_tokens_key req) + op_reserve req"
    by (auto simp: op_fits_def op_keys_def intro!: i64_add_exact)
qed

lemma mem_reserve_denied:
  assumes "op_fits (count (counters s)) req" and "mem_reserve req s = (Inl e, s')"
  shows "s' = s \<and> (\<exists>d. e = Denied d \<and> denial_justified (count (counters s)) req d)"
  using assms op_fits_sums [OF assms(1)]
  by (auto simp: mem_reserve_def Let_def over_limit_def split: if_splits)

lemma mem_reserve_admits:
  assumes "op_fits (count (counters s)) req" and "mem_reserve req s = (Inr u, s')"
  shows "admits (count (counters s)) req"
  using assms op_fits_sums [OF assms(1)]
  by (auto simp: mem_reserve_def Let_def admits_def over_limit_def split: if_splits)

lemma mem_reserve_charges:
  assumes f: "op_fits (count (counters s)) req" and r: "mem_reserve req s = (Inr u, s')"
  shows "count (counters s') = charged (count (counters s)) req \<and> settled s' = settled s"
proof -
  have "s' = s\<lparr>counters := bump (m_tokens_key req) (op_reserve req) (bump (p_req_key req) 1
      (bump (p_tokens_key req) (op_reserve req) (bump (c_req_key req) 1
        (bump (c_tokens_key req) (op_reserve req) (counters s)))))\<rparr>"
    using r by (auto simp: mem_reserve_def Let_def split: if_splits)
  then have "count (counters s') k = charged (count (counters s)) req k" for k
    using f by (auto simp: charged_def op_amount_def op_fits_def op_keys_def i64_add_exact)
  with \<open>s' = _\<close> show ?thesis by (simp add: fun_eq_iff)
qed

interpretation mem: metering_backend in_memory "\<lambda>s. count (counters s)" settled
proof unfold_locales
  fix req and s s' :: mem_store and u
  assume f: "op_fits (count (counters s)) req" and r: "st_reserve in_memory req s = (Inr u, s')"
  then have "mem_reserve req s = (Inr u, s')" by (simp add: in_memory_def)
  with f show "admits (count (counters s)) req \<and>
      count (counters s') = charged (count (counters s)) req \<and> settled s' = settled s"
    using mem_reserve_admits mem_reserve_charges by blast
next
  fix req d and s s' :: mem_store
  assume "op_fits (count (counters s)) req" and "st_reserve in_memory req s = (Inl (Denied d), s')"
  then show "denial_justified (count (counters s)) req d \<and>
      count (counters s') = count (counters s) \<and> settled s' = settled s"
    using mem_reserve_denied [of s req "Denied d" s'] by (auto simp: in_memory_def)
next
  fix req e and s s' :: mem_store
  assume "op_fits (count (counters s)) req" and "st_reserve in_memory req s = (Inl (Backend e), s')"
  then show "(count (counters s') = count (counters s) \<or> admits (count (counters s)) req \<and>
      count (counters s') = charged (count (counters s)) req) \<and> settled s' = settled s"
    using mem_reserve_denied [of s req "Backend e" s'] by (auto simp: in_memory_def)
qed (auto simp: in_memory_simps mem_settle_def count_settle_keys i64_add_exact fun_eq_iff
    split: if_splits)

end
