(* ===== verification/F64.thy ===== *)
theory F64
  imports Fw_Prelude "HOL-Library.Log_Nat"
begin

text \<open>
  IEEE 754 binary64, Rust's \<open>f64\<close>, as far as the gateway computes with it: time stamps,
  thresholds and token totals.  Every finite binary64 value is an integer multiple of
  \<open>2 ^ -1074\<close>, so \<open>Fin n\<close> is the value \<open>n * 2 ^ -1074\<close>; the two zeros coincide, since
  no operation used here tells them apart.  Addition and conversion from integers compute
  the exact result and round it to nearest, ties to even; comparisons with a NaN are false.
\<close>

datatype f64 = NaN | NegInf | PosInf | Fin int

definition f64_scale :: int where
  "f64_scale = 2 ^ 1074"

text \<open>The largest finite value, in units of \<open>2 ^ -1074\<close>.\<close>

definition f64_top :: int where
  "f64_top = (2 ^ 53 - 1) * 2 ^ 2045"

section \<open>Rounding\<close>

text \<open>\<open>round_even n k\<close>: the multiple of \<open>2 ^ k\<close> nearest to \<open>n\<close>, divided by \<open>2 ^ k\<close>.\<close>

definition round_even :: "int \<Rightarrow> nat \<Rightarrow> int" where
  "round_even n k =
     (let q = n div 2 ^ k; r = n mod 2 ^ k in
      if 2 * r < 2 ^ k then q
      else if 2 * r > 2 ^ k then q + 1
      else if even q then q else q + 1)"

definition f64_round :: "int \<Rightarrow> f64" where
  "f64_round n =
     (let k = nat (bitlen \<bar>n\<bar> - 53); m = round_even n k * 2 ^ k in
      if m > f64_top then PosInf else if m < - f64_top then NegInf else Fin m)"

lemma round_even_0 [simp]: "round_even n 0 = n"
  by (simp add: round_even_def)

lemma round_even_exact: "2 ^ k dvd n \<Longrightarrow> round_even n k * 2 ^ k = n"
  by (auto simp: round_even_def Let_def)

lemma bitlen_le_53: "\<bar>n\<bar> < 2 ^ 53 \<Longrightarrow> nat (bitlen \<bar>n\<bar> - 53) = 0"
proof -
  assume "\<bar>n\<bar> < 2 ^ 53"
  then have "bitlen \<bar>n\<bar> \<le> 53"
    using bitlen_le_iff_power [of "\<bar>n\<bar>" 53] by simp
  then show ?thesis by simp
qed

text \<open>A value with at most 53 significant bits is exact.\<close>

lemma bitlen_scaled:
  assumes "\<bar>m\<bar> < 2 ^ 53"
  shows "nat (bitlen \<bar>m * 2 ^ k\<bar> - 53) \<le> k"
proof -
  have "\<bar>m * 2 ^ k\<bar> = \<bar>m\<bar> * 2 ^ k" by (simp add: abs_mult)
  also have "\<dots> < 2 ^ 53 * 2 ^ k"
    using assms by (intro mult_strict_right_mono) auto
  finally have "\<bar>m * 2 ^ k\<bar> < 2 ^ (53 + k)" by (simp add: power_add)
  then have "bitlen \<bar>m * 2 ^ k\<bar> \<le> int (53 + k)"
    using bitlen_le_iff_power [of "\<bar>m * 2 ^ k\<bar>" "int (53 + k)"]
    by (simp add: nat_add_distrib del: of_nat_add)
  then show ?thesis by simp
qed

lemma f64_round_exact:
  assumes "\<bar>m\<bar> < 2 ^ 53" and "\<bar>m * 2 ^ k\<bar> \<le> f64_top"
  shows "f64_round (m * 2 ^ k) = Fin (m * 2 ^ k)"
proof -
  let ?j = "nat (bitlen \<bar>m * 2 ^ k\<bar> - 53)"
  have "?j \<le> k" by (rule bitlen_scaled [OF assms(1)])
  then have "2 ^ ?j dvd m * 2 ^ k"
    by (intro dvd_mult le_imp_power_dvd) auto
  then have "round_even (m * 2 ^ k) ?j * 2 ^ ?j = m * 2 ^ k"
    by (rule round_even_exact)
  with assms(2) show ?thesis
    by (simp add: f64_round_def Let_def abs_le_iff)
qed

section \<open>Conversion and arithmetic\<close>

definition f64_of_int :: "int \<Rightarrow> f64" where
  "f64_of_int k = f64_round (k * f64_scale)"

fun f64_neg :: "f64 \<Rightarrow> f64" where
  "f64_neg NaN = NaN"
| "f64_neg NegInf = PosInf"
| "f64_neg PosInf = NegInf"
| "f64_neg (Fin n) = Fin (- n)"

fun f64_add :: "f64 \<Rightarrow> f64 \<Rightarrow> f64" where
  "f64_add NaN _ = NaN"
| "f64_add _ NaN = NaN"
| "f64_add PosInf NegInf = NaN"
| "f64_add NegInf PosInf = NaN"
| "f64_add PosInf _ = PosInf"
| "f64_add _ PosInf = PosInf"
| "f64_add NegInf _ = NegInf"
| "f64_add _ NegInf = NegInf"
| "f64_add (Fin a) (Fin b) = f64_round (a + b)"

definition f64_sub :: "f64 \<Rightarrow> f64 \<Rightarrow> f64" where
  "f64_sub a b = f64_add a (f64_neg b)"

text \<open>
  The exact product of two finite values counts units of \<open>2 ^ -2148\<close>; it is rounded to 53
  significant bits and to multiples of \<open>2 ^ -1074\<close>.
\<close>

definition f64_round_product :: "int \<Rightarrow> f64" where
  "f64_round_product n =
     (let k = max (nat (bitlen \<bar>n\<bar> - 53)) 1074; m = round_even n k * 2 ^ (k - 1074) in
      if m > f64_top then PosInf else if m < - f64_top then NegInf else Fin m)"

fun f64_mul :: "f64 \<Rightarrow> f64 \<Rightarrow> f64" where
  "f64_mul NaN _ = NaN"
| "f64_mul _ NaN = NaN"
| "f64_mul (Fin a) (Fin b) = f64_round_product (a * b)"
| "f64_mul (Fin a) PosInf = (if a = 0 then NaN else if a > 0 then PosInf else NegInf)"
| "f64_mul (Fin a) NegInf = (if a = 0 then NaN else if a > 0 then NegInf else PosInf)"
| "f64_mul PosInf (Fin a) = (if a = 0 then NaN else if a > 0 then PosInf else NegInf)"
| "f64_mul NegInf (Fin a) = (if a = 0 then NaN else if a > 0 then NegInf else PosInf)"
| "f64_mul PosInf PosInf = PosInf"
| "f64_mul PosInf NegInf = NegInf"
| "f64_mul NegInf PosInf = NegInf"
| "f64_mul NegInf NegInf = PosInf"

text \<open>\<open>x as i64\<close>: truncation towards zero, saturating, NaN to zero.\<close>

definition i64_clamp :: "int \<Rightarrow> int" where
  "i64_clamp z = max i64_min (min i64_max z)"

fun f64_to_i64 :: "f64 \<Rightarrow> int" where
  "f64_to_i64 NaN = 0"
| "f64_to_i64 NegInf = i64_min"
| "f64_to_i64 PosInf = i64_max"
| "f64_to_i64 (Fin n) = i64_clamp (sgn n * (\<bar>n\<bar> div f64_scale))"

section \<open>Comparison\<close>

fun f64_lt :: "f64 \<Rightarrow> f64 \<Rightarrow> bool" where
  "f64_lt NaN _ = False"
| "f64_lt _ NaN = False"
| "f64_lt NegInf b = (b \<noteq> NegInf)"
| "f64_lt PosInf _ = False"
| "f64_lt (Fin a) PosInf = True"
| "f64_lt (Fin a) NegInf = False"
| "f64_lt (Fin a) (Fin b) = (a < b)"

definition f64_le :: "f64 \<Rightarrow> f64 \<Rightarrow> bool" where
  "f64_le a b \<longleftrightarrow> a \<noteq> NaN \<and> b \<noteq> NaN \<and> (f64_lt a b \<or> a = b)"

abbreviation f64_gt :: "f64 \<Rightarrow> f64 \<Rightarrow> bool" where
  "f64_gt a b \<equiv> f64_lt b a"

abbreviation f64_ge :: "f64 \<Rightarrow> f64 \<Rightarrow> bool" where
  "f64_ge a b \<equiv> f64_le b a"

lemma f64_lt_irrefl [simp]: "\<not> f64_lt a a"
  by (cases a) auto

lemma f64_lt_NaN [simp]: "\<not> f64_lt a NaN"
  by (cases a) auto

lemma f64_le_NaN [simp]: "\<not> f64_le a NaN" "\<not> f64_le NaN a"
  by (auto simp: f64_le_def)

lemma f64_lt_trans: "f64_lt a b \<Longrightarrow> f64_lt b c \<Longrightarrow> f64_lt a c"
  by (cases a; cases b; cases c) auto

lemma f64_le_lt_trans: "f64_le a b \<Longrightarrow> f64_lt b c \<Longrightarrow> f64_lt a c"
  by (auto simp: f64_le_def intro: f64_lt_trans)

lemma f64_lt_le_trans: "f64_lt a b \<Longrightarrow> f64_le b c \<Longrightarrow> f64_lt a c"
  by (auto simp: f64_le_def intro: f64_lt_trans)

lemma f64_le_trans: "f64_le a b \<Longrightarrow> f64_le b c \<Longrightarrow> f64_le a c"
  by (auto simp: f64_le_def intro: f64_lt_trans)

lemma f64_le_refl: "a \<noteq> NaN \<Longrightarrow> f64_le a a"
  by (simp add: f64_le_def)

lemma f64_not_lt: "a \<noteq> NaN \<Longrightarrow> b \<noteq> NaN \<Longrightarrow> \<not> f64_lt a b \<longleftrightarrow> f64_le b a"
  by (cases a; cases b) (auto simp: f64_le_def)

section \<open>Integers below \<open>2 ^ 53\<close> are exact\<close>

definition f64_exact :: "int \<Rightarrow> bool" where
  "f64_exact k \<longleftrightarrow> \<bar>k\<bar> < 9007199254740992"

lemma f64_scale_pos [simp]: "0 < f64_scale" "f64_scale \<noteq> 0" "\<bar>f64_scale\<bar> = f64_scale"
  by (simp_all add: f64_scale_def)

lemma f64_top_scale: "\<bar>k\<bar> < 2 ^ 53 \<Longrightarrow> \<bar>k * 2 ^ 1074\<bar> \<le> f64_top"
proof -
  assume k: "\<bar>k\<bar> < 2 ^ 53"
  have "\<bar>k * 2 ^ 1074\<bar> = \<bar>k\<bar> * 2 ^ 1074" by (simp add: abs_mult)
  also have "\<dots> \<le> (2 ^ 53 - 1) * 2 ^ 1074"
    using k by (intro mult_right_mono) auto
  also have "\<dots> \<le> (2 ^ 53 - 1) * 2 ^ 2045"
    by (intro mult_left_mono power_increasing) auto
  finally show ?thesis by (simp add: f64_top_def)
qed

lemma f64_of_int_exact: "f64_exact k \<Longrightarrow> f64_of_int k = Fin (k * f64_scale)"
  using f64_round_exact [of k 1074] f64_top_scale [of k]
  by (simp add: f64_of_int_def f64_exact_def f64_scale_def)

lemma f64_of_int_lt:
  "f64_exact a \<Longrightarrow> f64_exact b \<Longrightarrow> f64_lt (f64_of_int a) (f64_of_int b) \<longleftrightarrow> a < b"
  by (simp add: f64_of_int_exact)

lemma f64_of_int_le:
  "f64_exact a \<Longrightarrow> f64_exact b \<Longrightarrow> f64_le (f64_of_int a) (f64_of_int b) \<longleftrightarrow> a \<le> b"
  by (auto simp: f64_of_int_exact f64_le_def)

lemma f64_of_int_add:
  assumes "f64_exact a" and "f64_exact b" and "f64_exact (a + b)"
  shows "f64_add (f64_of_int a) (f64_of_int b) = f64_of_int (a + b)"
proof -
  have "f64_add (f64_of_int a) (f64_of_int b) = f64_round (a * f64_scale + b * f64_scale)"
    using assms by (simp add: f64_of_int_exact)
  also have "\<dots> = f64_of_int (a + b)"
    by (simp add: f64_of_int_def distrib_right)
  finally show ?thesis .
qed

lemma f64_of_int_neg: "f64_exact a \<Longrightarrow> f64_neg (f64_of_int a) = f64_of_int (- a)"
  by (simp add: f64_of_int_exact f64_exact_def)

lemma f64_of_int_sub:
  assumes "f64_exact a" and "f64_exact b" and "f64_exact (a - b)"
  shows "f64_sub (f64_of_int a) (f64_of_int b) = f64_of_int (a - b)"
  using assms f64_of_int_add [of a "- b"]
  by (simp add: f64_sub_def f64_of_int_neg) (simp add: f64_exact_def)

lemma f64_of_int_to_i64: "f64_exact a \<Longrightarrow> f64_to_i64 (f64_of_int a) = a"
proof -
  assume a: "f64_exact a"
  have "sgn a * (\<bar>a * f64_scale\<bar> div f64_scale) = a"
    by (simp add: abs_mult) (simp add: sgn_mult_abs)
  moreover have "sgn (a * f64_scale) = sgn a" by (simp add: sgn_mult)
  moreover have "i64_clamp a = a"
    using a by (simp add: f64_exact_def i64_clamp_def i64_min_def i64_max_def)
  ultimately show ?thesis using a by (simp add: f64_of_int_exact)
qed

lemma round_even_product:
  assumes "\<bar>c\<bar> < 2 ^ 53" and "k = max (nat (bitlen \<bar>c * 2 ^ (e + e)\<bar> - 53)) e"
  shows "round_even (c * 2 ^ (e + e)) k * 2 ^ (k - e) = c * 2 ^ e"
proof -
  have "k \<le> e + e" using bitlen_scaled [OF assms(1), of "e + e"] assms(2) by simp
  then have "2 ^ k dvd c * 2 ^ (e + e)" by (intro dvd_mult le_imp_power_dvd)
  then have "round_even (c * 2 ^ (e + e)) k * 2 ^ k = c * 2 ^ (e + e)" by (rule round_even_exact)
  moreover have "(2 :: int) ^ k = 2 ^ (k - e) * 2 ^ e" using assms(2) by (simp add: power_add [symmetric])
  ultimately have "round_even (c * 2 ^ (e + e)) k * 2 ^ (k - e) * 2 ^ e = c * 2 ^ e * 2 ^ e"
    by (simp add: power_add mult.assoc)
  then show ?thesis by simp
qed

lemma f64_round_product_exact:
  assumes "\<bar>c\<bar> < 2 ^ 53"
  shows "f64_round_product (c * 2 ^ (1074 + 1074)) = Fin (c * 2 ^ 1074)"
  using f64_top_scale [OF assms] round_even_product [OF assms refl, of 1074]
  unfolding f64_round_product_def Let_def by (simp only: abs_le_iff) (metis linorder_not_le minus_le_iff)

lemma f64_of_int_mul:
  assumes "f64_exact a" and "f64_exact b" and "f64_exact (a * b)"
  shows "f64_mul (f64_of_int a) (f64_of_int b) = f64_of_int (a * b)"
proof -
  have small: "\<bar>a * b\<bar> < 2 ^ 53" using assms(3) by (simp add: f64_exact_def)
  have "a * f64_scale * (b * f64_scale) = a * b * 2 ^ (1074 + 1074)"
    unfolding f64_scale_def power_add by (simp only: mult.assoc mult.left_commute)
  with f64_round_product_exact [OF small] show ?thesis
    using assms by (simp only: f64_of_int_exact f64_mul.simps f64_scale_def)
qed

lemma f64_of_int_not_NaN [simp]: "f64_exact a \<Longrightarrow> f64_of_int a \<noteq> NaN"
  by (simp add: f64_of_int_exact)

lemmas f64_of_int_simps = f64_of_int_lt f64_of_int_le f64_of_int_add f64_of_int_sub
  f64_of_int_to_i64 f64_exact_def

end
