(* ===== verification/Config.thy ===== *)
theory Config
  imports F64
begin

text \<open>
  \<open>fwllm-core/src/config.rs\<close>: the configuration structs with the defaults \<open>serde\<close> fills
  in, the threshold comparison of routing rules, and \<open>load_config_from_str\<close> with its
  environment overrides, ingress check and api-key resolution.

  Parsing YAML text, turning a YAML value into a \<open>Config\<close> and parsing a socket address are
  library code; they are the parameters \<open>from_str\<close>, \<open>from_value\<close> and \<open>addr_ok\<close> of
  \<open>load_config_from_str\<close>, and the environment is the parameter \<open>env\<close>.
\<close>

section \<open>Configuration data\<close>

record server_config =
  srv_host :: string
  srv_port :: nat
  srv_timeout :: f64

record provider_config =
  pv_type :: string
  pv_base_url :: string
  pv_api_key_env :: "string option"
  pv_api_key :: "string option"
  pv_models :: "string list"
  pv_agent_id :: "string option"

record quotas =
  q_client_tokens :: "int option"
  q_client_requests :: "int option"
  q_provider_tokens :: "int option"
  q_fail_closed :: bool
  q_completion_reserve :: int

record threshold =
  th_gt :: "f64 option"
  th_gte :: "f64 option"
  th_lt :: "f64 option"
  th_lte :: "f64 option"

record rule_condition =
  cond_provider :: "string option"
  cond_tokens_today :: "threshold option"

record rule_action =
  act_next_in_chain :: bool
  act_switch_to :: "string option"

record routing_rule =
  rule_name :: string
  rule_when :: rule_condition
  rule_action :: rule_action

record attack_failover_config =
  af_enabled :: bool
  af_count :: nat
  af_window_seconds :: nat
  af_min_severity :: string
  af_switch_to :: "string option"
  af_block_source :: bool
  af_block_ttl_seconds :: nat
  af_cooldown_seconds :: nat

record routing_config =
  rt_default_chain :: "string list"
  rt_model_mapping :: "(string, (string, string) hmap) hmap"
  rt_rules :: "routing_rule list"
  rt_attack_failover :: attack_failover_config
  rt_state_store :: string

record egress_config =
  eg_mode :: string
  eg_proxy_url :: "string option"

record dlp_config =
  dlp_mode :: string
  dlp_restore_policy :: string
  dlp_profile :: string

record ml_model_config =
  ml_enabled :: bool
  ml_model_dir :: string
  ml_threshold :: f64

record injection_config =
  inj_mode :: string
  inj_block_gte :: string
  inj_ml :: ml_model_config

record inspectors_config =
  insp_dlp :: dlp_config
  insp_injection :: injection_config

record ingress_config =
  ingress_enabled :: bool
  ingress_listen :: string
  ingress_sans :: "string list"

record audit_config =
  audit_enabled :: bool
  audit_db_path :: string
  audit_dlp_redact :: bool

record config =
  cfg_server :: server_config
  cfg_redis_url :: string
  cfg_providers :: "(string, provider_config) hmap"
  cfg_clients :: "(string, string) hmap"
  cfg_admin_clients :: "(string, string) hmap"
  cfg_metrics_tokens :: "(string, string) hmap"
  cfg_quotas :: quotas
  cfg_routing :: routing_config
  cfg_egress :: egress_config
  cfg_inspectors :: inspectors_config
  cfg_audit :: audit_config
  cfg_ingress :: ingress_config

section \<open>Defaults\<close>

text \<open>The literal \<open>0.6\<close> is the binary64 value \<open>5404319552844595 * 2 ^ -53\<close>.\<close>

definition default_ml_threshold :: f64 where
  "default_ml_threshold = Fin (5404319552844595 * 2 ^ 1021)"

definition server_default :: server_config where
  "server_default = \<lparr>srv_host = ''127.0.0.1'', srv_port = 8080, srv_timeout = f64_of_int 120\<rparr>"

definition quotas_default :: quotas where
  "quotas_default = \<lparr>q_client_tokens = None, q_client_requests = None,
     q_provider_tokens = None, q_fail_closed = False, q_completion_reserve = 0\<rparr>"

text \<open>The value \<open>serde\<close> gives \<open>completion_reserve_tokens\<close> in a \<open>quotas\<close> section without it.\<close>

definition default_completion_reserve :: int where
  "default_completion_reserve = 1024"

definition attack_failover_default :: attack_failover_config where
  "attack_failover_default = \<lparr>af_enabled = False, af_count = 0, af_window_seconds = 0,
     af_min_severity = [], af_switch_to = None, af_block_source = False,
     af_block_ttl_seconds = 0, af_cooldown_seconds = 0\<rparr>"

definition routing_default :: routing_config where
  "routing_default = \<lparr>rt_default_chain = [], rt_model_mapping = [], rt_rules = [],
     rt_attack_failover = attack_failover_default, rt_state_store = ''memory''\<rparr>"

definition egress_default :: egress_config where
  "egress_default = \<lparr>eg_mode = ''direct'', eg_proxy_url = None\<rparr>"

definition dlp_default :: dlp_config where
  "dlp_default = \<lparr>dlp_mode = ''mask'', dlp_restore_policy = ''mask'', dlp_profile = ''ru_152''\<rparr>"

definition ml_default :: ml_model_config where
  "ml_default = \<lparr>ml_enabled = False, ml_model_dir = [], ml_threshold = default_ml_threshold\<rparr>"

definition injection_default :: injection_config where
  "injection_default = \<lparr>inj_mode = ''block'', inj_block_gte = ''high'', inj_ml = ml_default\<rparr>"

definition inspectors_default :: inspectors_config where
  "inspectors_default = \<lparr>insp_dlp = dlp_default, insp_injection = injection_default\<rparr>"

definition ingress_default :: ingress_config where
  "ingress_default = \<lparr>ingress_enabled = True, ingress_listen = ''0.0.0.0:8443'',
     ingress_sans = [''localhost'', ''fwllm-gateway'']\<rparr>"

definition audit_default :: audit_config where
  "audit_default = \<lparr>audit_enabled = True, audit_db_path = ''audit.db'', audit_dlp_redact = True\<rparr>"

section \<open>Threshold\<close>

text \<open>
  Each bound that is present is tested by a negated comparison, in the source's order, so a
  NaN fails every bound.
\<close>

definition threshold_matches :: "threshold \<Rightarrow> f64 \<Rightarrow> bool" where
  "threshold_matches t value =
     (if (case th_gt t of Some gt \<Rightarrow> \<not> f64_gt value gt | None \<Rightarrow> False) then False
      else if (case th_gte t of Some gte \<Rightarrow> \<not> f64_ge value gte | None \<Rightarrow> False) then False
      else if (case th_lt t of Some lt \<Rightarrow> \<not> f64_lt value lt | None \<Rightarrow> False) then False
      else if (case th_lte t of Some lte \<Rightarrow> \<not> f64_le value lte | None \<Rightarrow> False) then False
      else True)"

definition bound_ok :: "(f64 \<Rightarrow> f64 \<Rightarrow> bool) \<Rightarrow> f64 option \<Rightarrow> f64 \<Rightarrow> bool" where
  "bound_ok cmp b value \<longleftrightarrow> (\<forall>x. b = Some x \<longrightarrow> cmp value x)"

lemma threshold_matches_iff:
  "threshold_matches t value \<longleftrightarrow>
     bound_ok f64_gt (th_gt t) value \<and> bound_ok f64_ge (th_gte t) value \<and>
     bound_ok f64_lt (th_lt t) value \<and> bound_ok f64_le (th_lte t) value"
  by (auto simp: threshold_matches_def bound_ok_def split: option.splits)

lemma threshold_matches_NaN:
  "threshold_matches t NaN \<longleftrightarrow> th_gt t = None \<and> th_gte t = None \<and> th_lt t = None \<and> th_lte t = None"
  by (auto simp: threshold_matches_iff bound_ok_def)

text \<open>
  Upper bounds are antitone and lower bounds monotone in the measured value: a rule with only
  lower bounds that a provider violates stays violated while its counter grows.
\<close>

lemma threshold_matches_mono:
  assumes "threshold_matches t v" and "f64_le v w" and "th_lt t = None" and "th_lte t = None"
  shows "threshold_matches t w"
  using assms
  by (auto simp: threshold_matches_iff bound_ok_def intro: f64_lt_le_trans f64_le_trans)

section \<open>YAML values and environment overrides\<close>

text \<open>The constructors of \<open>serde_yaml::Value\<close>; a mapping keeps insertion order.\<close>

datatype yaml =
    YNull
  | YBool bool
  | YInt int
  | YFloat f64
  | YStr string
  | YSeq "yaml list"
  | YMap "(yaml \<times> yaml) list"
  | YTagged string yaml

text \<open>
  \<open>v.as_mapping_mut()\<close> looks through tags; \<open>update_mapping f v\<close> applies a change to the
  mapping it reaches, and leaves a value without one alone.
\<close>

fun as_mapping :: "yaml \<Rightarrow> (yaml \<times> yaml) list option" where
  "as_mapping (YMap m) = Some m"
| "as_mapping (YTagged t v) = as_mapping v"
| "as_mapping _ = None"

fun update_mapping :: "((yaml \<times> yaml) list \<Rightarrow> (yaml \<times> yaml) list) \<Rightarrow> yaml \<Rightarrow> yaml" where
  "update_mapping f (YMap m) = YMap (f m)"
| "update_mapping f (YTagged t v) = YTagged t (update_mapping f v)"
| "update_mapping f v = v"

definition yget :: "string \<Rightarrow> yaml \<Rightarrow> yaml option" where
  "yget k v = Option.bind (as_mapping v) (\<lambda>m. map_of m (YStr k))"

definition yinsert :: "string \<Rightarrow> yaml \<Rightarrow> yaml \<Rightarrow> yaml" where
  "yinsert k w v = update_mapping (hput (YStr k) w) v"

lemma as_mapping_update: "as_mapping (update_mapping f v) = map_option f (as_mapping v)"
  by (induction f v rule: update_mapping.induct) auto

lemma yget_yinsert:
  "as_mapping v \<noteq> None \<Longrightarrow> yget k' (yinsert k w v) = (if k' = k then Some w else yget k' v)"
  by (auto simp: yget_def yinsert_def as_mapping_update)

text \<open>\<open>str::parse::<u64>\<close>: an optional plus sign, digits, within range.\<close>

definition parse_u64 :: "string \<Rightarrow> nat option" where
  "parse_u64 s =
     (let ds = (case s of c # cs \<Rightarrow> if c = CHR ''+'' then cs else s | [] \<Rightarrow> s) in
      if ds \<noteq> [] \<and> list_all is_digit ds \<and> digits_value 0 ds < 18446744073709551616
      then Some (digits_value 0 ds) else None)"

definition override_port :: "(string \<Rightarrow> string option) \<Rightarrow> yaml \<Rightarrow> yaml" where
  "override_port env value =
     (case env ''FWLLM_SERVER__PORT'' of None \<Rightarrow> value
      | Some port \<Rightarrow>
          (case Option.bind (yget ''server'' value) as_mapping of
             Some _ \<Rightarrow>
               (case parse_u64 port of
                  Some p \<Rightarrow>
                    yinsert ''server''
                      (yinsert ''port'' (YInt (int p)) (the (yget ''server'' value))) value
                | None \<Rightarrow> value)
           | None \<Rightarrow>
               yinsert ''server''
                 (YMap (case parse_u64 port of
                          Some p \<Rightarrow> [(YStr ''port'', YInt (int p))] | None \<Rightarrow> [])) value))"

definition override_redis :: "(string \<Rightarrow> string option) \<Rightarrow> yaml \<Rightarrow> yaml" where
  "override_redis env value =
     (case env ''FWLLM_REDIS_URL'' of
        Some redis \<Rightarrow> yinsert ''redis_url'' (YStr redis) value | None \<Rightarrow> value)"

text \<open>One \<open>token:label\<close> pair of a token list; \<open>None\<close> is the \<open>continue\<close> on an empty piece.\<close>

definition token_pair :: "string \<Rightarrow> (string \<times> string) option" where
  "token_pair raw =
     (let pair = trim raw in
      if pair = [] then None
      else let (token, label) = (case split_once CHR '':'' pair of
                                   Some (t, l) \<Rightarrow> (t, l) | None \<Rightarrow> (pair, []))
           in Some (token, if label = [] then token else label))"

definition token_map :: "string \<Rightarrow> (string, string) hmap" where
  "token_map tokens =
     foldl (\<lambda>m raw. case token_pair raw of None \<Rightarrow> m | Some (t, l) \<Rightarrow> hput t l m) []
       (split_on CHR '','' tokens)"

definition yaml_of_tokens :: "(string, string) hmap \<Rightarrow> yaml" where
  "yaml_of_tokens m = YMap (map (\<lambda>(t, l). (YStr t, YStr l)) m)"

text \<open>The three token variables are handled alike: client, admin and metrics tokens.\<close>

definition override_tokens :: "string \<Rightarrow> string \<Rightarrow> (string \<Rightarrow> string option) \<Rightarrow> yaml \<Rightarrow> yaml" where
  "override_tokens var key env value =
     (case env var of
        Some tokens \<Rightarrow> yinsert key (yaml_of_tokens (token_map tokens)) value | None \<Rightarrow> value)"

definition override_client_tokens :: "(string \<Rightarrow> string option) \<Rightarrow> yaml \<Rightarrow> yaml" where
  "override_client_tokens = override_tokens ''FWLLM_CLIENT_TOKENS'' ''clients''"

definition override_admin_tokens :: "(string \<Rightarrow> string option) \<Rightarrow> yaml \<Rightarrow> yaml" where
  "override_admin_tokens = override_tokens ''FWLLM_ADMIN_TOKENS'' ''admin_clients''"

definition override_metrics_tokens :: "(string \<Rightarrow> string option) \<Rightarrow> yaml \<Rightarrow> yaml" where
  "override_metrics_tokens = override_tokens ''FWLLM_METRICS_TOKENS'' ''metrics_tokens''"

definition env_overrides :: "(string \<Rightarrow> string option) \<Rightarrow> yaml \<Rightarrow> yaml" where
  "env_overrides env value =
     override_metrics_tokens env (override_admin_tokens env (override_client_tokens env
       (override_redis env (override_port env value))))"

section \<open>Loading\<close>

datatype config_error = Io string | Parse string | Validation string

fun resolve_keys ::
  "(string \<Rightarrow> string option) \<Rightarrow> (string, provider_config) hmap
     \<Rightarrow> config_error + (string, provider_config) hmap" where
  "resolve_keys env [] = Inr []"
| "resolve_keys env ((name, p) # ps) =
     (case pv_api_key_env p of
        Some var \<Rightarrow>
          (case env var of
             None \<Rightarrow> Inl (Validation (''environment variable '' @ quoted var
                       @ '' (api_key_env of provider '' @ quoted name @ '') is not set''))
           | Some value \<Rightarrow>
               (case resolve_keys env ps of Inl e \<Rightarrow> Inl e
                | Inr rest \<Rightarrow> Inr ((name, p\<lparr>pv_api_key := Some value\<rparr>) # rest)))
      | None \<Rightarrow>
          (case resolve_keys env ps of Inl e \<Rightarrow> Inl e | Inr rest \<Rightarrow> Inr ((name, p) # rest)))"

definition load_config_from_str ::
  "(string \<Rightarrow> string + yaml) \<Rightarrow> (yaml \<Rightarrow> string + config) \<Rightarrow> (string \<Rightarrow> bool)
     \<Rightarrow> (string \<Rightarrow> string option) \<Rightarrow> string \<Rightarrow> config_error + config" where
  "load_config_from_str from_str from_value addr_ok env raw =
     (case from_str raw of
        Inl e \<Rightarrow> Inl (Parse e)
      | Inr value \<Rightarrow>
          (case from_value (env_overrides env value) of
             Inl e \<Rightarrow> Inl (Parse e)
           | Inr cfg \<Rightarrow>
               if ingress_enabled (cfg_ingress cfg) \<and> \<not> addr_ok (ingress_listen (cfg_ingress cfg))
               then Inl (Validation (''invalid ingress.listen address ''
                           @ quoted (ingress_listen (cfg_ingress cfg))))
               else (case resolve_keys env (cfg_providers cfg) of
                       Inl e \<Rightarrow> Inl e
                     | Inr ps \<Rightarrow> Inr (cfg\<lparr>cfg_providers := ps\<rparr>))))"

section \<open>Token lists\<close>

lemma split_on_join:
  assumes "xs \<noteq> []" and "\<forall>x \<in> set xs. c \<notin> set x"
  shows "split_on c (join [c] xs) = xs"
proof -
  have piece: "c \<notin> set x \<Longrightarrow> split_on c x = [x]" for x
    by (induction x) auto
  have step: "c \<notin> set x \<Longrightarrow> split_on c (x @ c # r) = x # split_on c r" for x r
    by (induction x) auto
  show ?thesis
    using assms by (induction "[c]" xs rule: join.induct) (auto simp: piece step)
qed

definition token_text :: "string \<times> string \<Rightarrow> string" where
  "token_text = (\<lambda>(t, l). t @ '':'' @ l)"

text \<open>A pair the operator can write: no separators inside, no blanks to trim.\<close>

definition writable :: "string \<times> string \<Rightarrow> bool" where
  "writable = (\<lambda>(t, l). CHR '':'' \<notin> set t \<and> CHR '','' \<notin> set t \<and> CHR '','' \<notin> set l
      \<and> trim (token_text (t, l)) = token_text (t, l))"

definition effective_label :: "string \<times> string \<Rightarrow> string \<times> string" where
  "effective_label = (\<lambda>(t, l). (t, if l = [] then t else l))"

lemma token_pair_text: "writable p \<Longrightarrow> token_pair (token_text p) = Some (effective_label p)"
  by (cases p) (simp add: writable_def token_text_def token_pair_def effective_label_def
      split_once_Some Let_def)

lemma foldl_hput_map_of:
  "map_of (foldl (\<lambda>m (k, v). hput k v m) m0 ps) = map_of m0 ++ map_of (rev ps)"
  by (induction ps arbitrary: m0) (auto simp: map_add_def fun_eq_iff split: option.splits)

lemma token_map_fold:
  assumes "\<forall>p \<in> set ps. writable p"
  shows "foldl (\<lambda>m raw. case token_pair raw of None \<Rightarrow> m | Some (t, l) \<Rightarrow> hput t l m) m0
      (map token_text ps)
    = foldl (\<lambda>m (t, l). hput t l m) m0 (map effective_label ps)"
  using assms by (induction ps arbitrary: m0) (auto simp: token_pair_text split: prod.splits)

lemma token_map_join:
  assumes "\<forall>p \<in> set ps. writable p"
  shows "map_of (token_map (join '','' (map token_text ps))) = map_of (rev (map effective_label ps))"
proof (cases "ps = []")
  case True
  then show ?thesis by (simp add: token_map_def token_pair_def)
next
  case False
  have "\<forall>x \<in> set (map token_text ps). CHR '','' \<notin> set x"
    using assms by (auto simp: writable_def token_text_def)
  then have "split_on CHR '','' (join '','' (map token_text ps)) = map token_text ps"
    using False by (intro split_on_join) auto
  with token_map_fold [OF assms, of "[]"] show ?thesis
    by (simp add: token_map_def foldl_hput_map_of)
qed

section \<open>Environment overrides and key resolution\<close>

lemma env_overrides_none:
  assumes "\<forall>var \<in> {''FWLLM_SERVER__PORT'', ''FWLLM_REDIS_URL'', ''FWLLM_CLIENT_TOKENS'',
      ''FWLLM_ADMIN_TOKENS'', ''FWLLM_METRICS_TOKENS''}. env var = None"
  shows "env_overrides env value = value"
  using assms
  by (simp add: env_overrides_def override_port_def override_redis_def override_tokens_def
      override_client_tokens_def override_admin_tokens_def override_metrics_tokens_def)

lemma as_mapping_yinsert: "as_mapping (yinsert k w v) = map_option (hput (YStr k) w) (as_mapping v)"
  by (simp add: yinsert_def as_mapping_update)

lemma as_mapping_override_port:
  "as_mapping (override_port env v) = None \<longleftrightarrow> as_mapping v = None"
  by (auto simp: override_port_def as_mapping_yinsert yget_def split: option.splits)

lemma as_mapping_override_redis:
  "as_mapping (override_redis env v) = None \<longleftrightarrow> as_mapping v = None"
  by (auto simp: override_redis_def as_mapping_yinsert split: option.splits)

lemma as_mapping_override_tokens:
  "as_mapping (override_tokens var k env v) = None \<longleftrightarrow> as_mapping v = None"
  by (auto simp: override_tokens_def as_mapping_yinsert split: option.splits)

lemmas as_mapping_overrides = as_mapping_override_port as_mapping_override_redis
  as_mapping_override_tokens

lemma yget_override_tokens:
  assumes "as_mapping v \<noteq> None"
  shows "yget k' (override_tokens var k env v) =
    (case env var of
       Some tokens \<Rightarrow> if k' = k then Some (yaml_of_tokens (token_map tokens)) else yget k' v
     | None \<Rightarrow> yget k' v)"
  using assms by (auto simp: override_tokens_def yget_yinsert split: option.split)

lemma env_overrides_clients:
  assumes "as_mapping v \<noteq> None" and "env ''FWLLM_CLIENT_TOKENS'' = Some tokens"
  shows "yget ''clients'' (env_overrides env v) = Some (yaml_of_tokens (token_map tokens))"
  using assms
  by (simp add: env_overrides_def override_client_tokens_def override_admin_tokens_def
      override_metrics_tokens_def yget_override_tokens as_mapping_overrides
      del: not_None_eq split: option.split)

definition key_resolved :: "(string \<Rightarrow> string option) \<Rightarrow> provider_config \<Rightarrow> provider_config \<Rightarrow> bool" where
  "key_resolved env p p' \<longleftrightarrow>
     (case pv_api_key_env p of None \<Rightarrow> p' = p
      | Some var \<Rightarrow> env var \<noteq> None \<and> p' = p\<lparr>pv_api_key := env var\<rparr>)"

lemma key_resolved_None: "pv_api_key_env p = None \<Longrightarrow> key_resolved env p p' \<longleftrightarrow> p' = p"
  by (simp add: key_resolved_def)

lemma key_resolved_Some:
  "pv_api_key_env p = Some var \<Longrightarrow>
   key_resolved env p p' \<longleftrightarrow> env var \<noteq> None \<and> p' = p\<lparr>pv_api_key := env var\<rparr>"
  by (simp add: key_resolved_def)

lemma resolve_keys_Inr:
  "resolve_keys env ps = Inr ps' \<Longrightarrow>
   list_all2 (\<lambda>(n, p) (n', p'). n' = n \<and> key_resolved env p p') ps ps'"
  by (induction ps arbitrary: ps')
    (auto simp: key_resolved_None key_resolved_Some split: option.split_asm sum.split_asm)

lemma resolve_keys_Inl:
  "(\<exists>e. resolve_keys env ps = Inl e) \<longleftrightarrow>
   (\<exists>(n, p) \<in> set ps. \<exists>var. pv_api_key_env p = Some var \<and> env var = None)"
proof (induction ps)
  case Nil
  show ?case by simp
next
  case (Cons np ps)
  obtain n p where "np = (n, p)" by (cases np)
  with Cons show ?case
    by (cases "resolve_keys env ps") (auto split: option.splits)
qed

lemma load_config_Inr:
  assumes "load_config_from_str from_str from_value addr_ok env raw = Inr cfg"
  obtains yv parsed where "from_str raw = Inr yv"
    and "from_value (env_overrides env yv) = Inr parsed"
    and "ingress_enabled (cfg_ingress parsed) \<longrightarrow> addr_ok (ingress_listen (cfg_ingress parsed))"
    and "resolve_keys env (cfg_providers parsed) = Inr (cfg_providers cfg)"
    and "cfg = parsed\<lparr>cfg_providers := cfg_providers cfg\<rparr>"
  using assms by (auto simp: load_config_from_str_def split: sum.splits if_splits)

section \<open>Properties\<close>

text \<open>
  A token list written as \<open>token:label,...\<close> is read back: later pairs win over earlier
  ones with the same token, and an empty label is replaced by the token itself.
\<close>

theorem token_list_roundtrip:
  assumes "\<forall>p \<in> set ps. writable p"
  shows "map_of (token_map (join '','' (map token_text ps))) =
    map_of (rev (map (\<lambda>(t, l). (t, if l = [] then t else l)) ps))"
  using token_map_join [OF assms] by (simp add: effective_label_def)

theorem token_list_roundtrip_witness:
  "map_of (token_map ''k1:alice,k2:'') ''k2'' = Some ''k2''"
proof -
  have "trim ''k1:alice'' = ''k1:alice''" and "trim ''k2:'' = ''k2:''"
    by (rule trim_visible, simp add: visible_def byte_def)+
  then have "\<forall>p \<in> set [(''k1'', ''alice''), (''k2'', [])]. writable p"
    by (simp add: writable_def token_text_def)
  from token_list_roundtrip [OF this] show ?thesis
    by (simp add: token_text_def)
qed

text \<open>
  C29: a configuration that loads has every declared api key taken from the environment and,
  when the ingress listener is enabled, a listen address that parses; loading changes nothing
  else of the parsed file.
\<close>

theorem loaded_config_resolved:
  assumes "load_config_from_str from_str from_value addr_ok env raw = Inr cfg"
  shows "\<exists>yv parsed. from_str raw = Inr yv \<and> from_value (env_overrides env yv) = Inr parsed \<and>
    (ingress_enabled (cfg_ingress cfg) \<longrightarrow> addr_ok (ingress_listen (cfg_ingress cfg))) \<and>
    list_all2 (\<lambda>(n, p) (n', p'). n' = n \<and> key_resolved env p p') (cfg_providers parsed) (cfg_providers cfg) \<and>
    cfg = parsed\<lparr>cfg_providers := cfg_providers cfg\<rparr>"
proof -
  from assms obtain yv parsed where p: "from_str raw = Inr yv"
      "from_value (env_overrides env yv) = Inr parsed"
      "ingress_enabled (cfg_ingress parsed) \<longrightarrow> addr_ok (ingress_listen (cfg_ingress parsed))"
      "resolve_keys env (cfg_providers parsed) = Inr (cfg_providers cfg)"
      "cfg = parsed\<lparr>cfg_providers := cfg_providers cfg\<rparr>"
    by (rule load_config_Inr)
  have "cfg_ingress cfg = cfg_ingress parsed"
    by (subst p(5)) simp
  with p show ?thesis
    by (intro exI [of _ yv] exI [of _ parsed]) (simp add: resolve_keys_Inr)
qed

definition sample_provider :: provider_config where
  "sample_provider = \<lparr>pv_type = ''openai_compat'', pv_base_url = ''http://p'',
     pv_api_key_env = Some ''P_KEY'', pv_api_key = None, pv_models = [], pv_agent_id = None\<rparr>"

definition sample_config :: config where
  "sample_config = \<lparr>cfg_server = server_default, cfg_redis_url = ''redis://localhost:6379/0'',
     cfg_providers = [(''p'', sample_provider)], cfg_clients = [], cfg_admin_clients = [],
     cfg_metrics_tokens = [], cfg_quotas = quotas_default, cfg_routing = routing_default,
     cfg_egress = egress_default, cfg_inspectors = inspectors_default, cfg_audit = audit_default,
     cfg_ingress = ingress_default\<rparr>"

theorem loaded_config_resolved_witness:
  "\<exists>cfg. load_config_from_str (\<lambda>_. Inr (YMap [])) (\<lambda>_. Inr sample_config) (\<lambda>_. True)
      (\<lambda>v. if v = ''P_KEY'' then Some ''s3cret'' else None) ''x'' = Inr cfg \<and>
    map_option pv_api_key (map_of (cfg_providers cfg) ''p'') = Some (Some ''s3cret'')"
proof -
  let ?env = "\<lambda>v. if v = ''P_KEY'' then Some ''s3cret'' else None"
  obtain cfg where c: "load_config_from_str (\<lambda>_. Inr (YMap [])) (\<lambda>_. Inr sample_config) (\<lambda>_. True)
      ?env ''x'' = Inr cfg"
    by (simp add: load_config_from_str_def sample_config_def sample_provider_def)
  from loaded_config_resolved [OF c]
  have "map_option pv_api_key (map_of (cfg_providers cfg) ''p'') = Some (Some ''s3cret'')"
    by (auto simp: list_all2_Cons1 sample_config_def sample_provider_def key_resolved_def)
  with c show ?thesis by blast
qed

text \<open>
  Loading a well-formed file fails exactly when some provider names an environment variable
  that is not set.
\<close>

theorem missing_api_key_rejected:
  assumes "from_str raw = Inr yv" and "from_value (env_overrides env yv) = Inr parsed"
    and "ingress_enabled (cfg_ingress parsed) \<longrightarrow> addr_ok (ingress_listen (cfg_ingress parsed))"
  shows "(\<exists>e. load_config_from_str from_str from_value addr_ok env raw = Inl e) \<longleftrightarrow>
    (\<exists>(n, p) \<in> set (cfg_providers parsed). \<exists>var. pv_api_key_env p = Some var \<and> env var = None)"
  unfolding resolve_keys_Inl [symmetric] using assms
  by (auto simp: load_config_from_str_def split: sum.splits)

theorem missing_api_key_rejected_witness:
  "\<exists>e. load_config_from_str (\<lambda>_. Inr (YMap [])) (\<lambda>_. Inr sample_config) (\<lambda>_. True)
      (\<lambda>_. None) ''x'' = Inl e"
  by (subst missing_api_key_rejected) (auto simp: sample_config_def sample_provider_def)

end
