(* ===== verification/Calendar.thy ===== *)
theory Calendar
  imports F64
begin

text \<open>
  Dates: \<open>day_string\<close> of \<open>metering.rs\<close> (repeated in \<open>router.rs\<close>), which names the daily
  budget buckets, and \<open>iso_now\<close> of \<open>audit.rs\<close>.  Both compute the civil date of a day
  number with the same integer formula.  The specification is the usual count of days
  before a Gregorian date; \<open>civil_of_days\<close> is shown to return a valid date whose count
  is the day it was given, so distinct days never share a bucket.
\<close>

section \<open>The code\<close>

text \<open>
  The common core of \<open>day_string\<close> and \<open>iso_now\<close>, from the day number \<open>z\<close> counted from
  0000-03-01.  All values stay far inside \<open>i64\<close>, so no operation wraps; \<open>doe\<close>, \<open>yoe\<close>,
  \<open>doy\<close> and \<open>mp\<close> are never negative, so truncated and Euclidean division agree on them.
\<close>

definition yoe_of :: "int \<Rightarrow> int" where
  "yoe_of doe = (doe - doe div 1460 + doe div 36524 - doe div 146096) div 365"

definition doy_of :: "int \<Rightarrow> int" where
  "doy_of doe = (let yoe = yoe_of doe in doe - (365 * yoe + yoe div 4 - yoe div 100))"

definition civil_from_days :: "int \<Rightarrow> int \<times> int \<times> int" where
  "civil_from_days z =
     (let era = z div 146097;
          doe = z mod 146097;
          yoe = yoe_of doe;
          y = yoe + era * 400;
          doy = doy_of doe;
          mp = (5 * doy + 2) div 153;
          d = doy - (153 * mp + 2) div 5 + 1;
          m = (if mp < 10 then mp + 3 else mp - 9);
          year = (if m \<le> 2 then y + 1 else y)
      in (year, m, d))"

definition civil_of_days :: "int \<Rightarrow> int \<times> int \<times> int" where
  "civil_of_days days = civil_from_days (days + 719468)"

text \<open>\<open>metering.rs\<close>: \<open>div_euclid\<close> by a positive constant is \<open>div\<close>.\<close>

definition day_string :: "f64 \<Rightarrow> string" where
  "day_string unix_secs =
     (let secs = f64_to_i64 unix_secs;
          days = secs div 86400;
          (year, m, d) = civil_of_days days
      in zero_padded 4 year @ zero_padded 2 m @ zero_padded 2 d)"

text \<open>\<open>audit.rs\<close>: \<open>secs\<close> is the \<open>u64\<close> count of whole seconds since the epoch.\<close>

definition iso_of_secs :: "nat \<Rightarrow> string" where
  "iso_of_secs secs =
     (let (year, m, d) = civil_of_days (int (secs div 86400));
          rem = int (secs mod 86400)
      in zero_padded 4 year @ ''-'' @ zero_padded 2 m @ ''-'' @ zero_padded 2 d @ ''T''
         @ zero_padded 2 (rem div 3600) @ '':'' @ zero_padded 2 (rem mod 3600 div 60)
         @ '':'' @ zero_padded 2 (rem mod 60) @ ''Z'')"

section \<open>The Gregorian calendar\<close>

definition leap_year :: "int \<Rightarrow> bool" where
  "leap_year y \<longleftrightarrow> y mod 4 = 0 \<and> (y mod 100 \<noteq> 0 \<or> y mod 400 = 0)"

definition days_in_month :: "int \<Rightarrow> int \<Rightarrow> int" where
  "days_in_month y m =
     (if m = 2 then (if leap_year y then 29 else 28)
      else if m \<in> {4, 6, 9, 11} then 30 else 31)"

definition valid_date :: "int \<times> int \<times> int \<Rightarrow> bool" where
  "valid_date = (\<lambda>(y, m, d). 1 \<le> m \<and> m \<le> 12 \<and> 1 \<le> d \<and> d \<le> days_in_month y m)"

text \<open>Days of the months before month \<open>m\<close> in a common year.\<close>

definition days_before_month :: "int \<Rightarrow> int" where
  "days_before_month m =
     (if m = 1 then 0 else if m = 2 then 31 else if m = 3 then 59 else if m = 4 then 90
      else if m = 5 then 120 else if m = 6 then 151 else if m = 7 then 181
      else if m = 8 then 212 else if m = 9 then 243 else if m = 10 then 273
      else if m = 11 then 304 else 334)"

text \<open>Leap years up to year \<open>y\<close>, and the day number of a date, with 1970-01-01 as day 0.\<close>

definition leaps :: "int \<Rightarrow> int" where
  "leaps y = y div 4 - y div 100 + y div 400"

definition day_number :: "int \<times> int \<times> int \<Rightarrow> int" where
  "day_number = (\<lambda>(y, m, d).
     365 * (y - 1) + leaps (y - 1) + days_before_month m
     + (if m > 2 \<and> leap_year y then 1 else 0) + d - 719163)"

section \<open>Years of a 400-year era\<close>

text \<open>\<open>era_days y\<close>: the days of the first \<open>y\<close> years of an era that starts on March 1.\<close>

definition era_days :: "int \<Rightarrow> int" where
  "era_days y = 365 * y + y div 4 - y div 100"

definition yoe_num :: "int \<Rightarrow> int" where
  "yoe_num doe = doe - doe div 1460 + doe div 36524 - doe div 146096"

lemma div_Suc_step:
  assumes "(0::int) < c"
  shows "(d + 1) div c = d div c + (if (d + 1) mod c = 0 then 1 else 0)"
proof (cases "d mod c + 1 = c")
  case True
  have "d + 1 = c * (d div c) + (d mod c + 1)" by simp
  also have "\<dots> = (d div c + 1) * c" using True by (simp add: algebra_simps)
  finally have "d + 1 = (d div c + 1) * c" .
  then show ?thesis using assms by simp
next
  case False
  with assms have r: "0 \<le> d mod c + 1" "d mod c + 1 < c"
    using pos_mod_sign [of c d] pos_mod_bound [of c d] by linarith+
  have e: "d + 1 = c * (d div c) + (d mod c + 1)" by simp
  have "(d + 1) div c = d div c" and "(d + 1) mod c = d mod c + 1"
    using int_div_pos_eq [OF e r] int_mod_pos_eq [OF e r] by simp_all
  moreover have "d mod c + 1 \<noteq> 0"
    using assms pos_mod_sign [of c d] by linarith
  ultimately show ?thesis by simp
qed

lemma yoe_num_step: "yoe_num d \<le> yoe_num (d + 1)"
proof -
  have "(d + 1) mod 146096 = 0 \<Longrightarrow> (d + 1) mod 36524 = 0"
    using dvd_trans [of "36524 :: int" 146096 "d + 1"] by (simp add: mod_eq_0_iff_dvd)
  then show ?thesis
    by (simp add: yoe_num_def div_Suc_step [of 1460 d] div_Suc_step [of 36524 d]
        div_Suc_step [of 146096 d])
qed

lemma yoe_num_mono: "a \<le> b \<Longrightarrow> yoe_num a \<le> yoe_num b"
proof (induction b rule: int_ge_induct)
  case base
  show ?case by simp
next
  case (step i)
  with yoe_num_step [of i] show ?case by linarith
qed

text \<open>
  The formula is right at the first and at the last day of each of the 400 years; since
  its numerator is monotone, it is right on every day between.
\<close>

definition year_end :: "int \<Rightarrow> int" where
  "year_end y = (if y = 399 then 146097 else era_days (y + 1))"

definition year_ends_ok :: "int \<Rightarrow> bool" where
  "year_ends_ok y \<longleftrightarrow>
     365 * y \<le> yoe_num (era_days y) \<and> yoe_num (year_end y - 1) < 365 * (y + 1)"

lemma year_ends_ok_all: "list_all year_ends_ok (map int [0..<400])"
  by code_simp

lemma year_ends_ok: "0 \<le> y \<Longrightarrow> y < 400 \<Longrightarrow> year_ends_ok y"
proof -
  assume y: "0 \<le> y" "y < 400"
  then have "y \<in> set (map int [0..<400])"
    by (intro image_eqI [of _ _ "nat y"] | simp)+
  with year_ends_ok_all show ?thesis by (simp only: list_all_iff)
qed

lemma yoe_of_in_year:
  assumes y: "0 \<le> y" "y < 400" and d: "era_days y \<le> doe" "doe < year_end y"
  shows "yoe_of doe = y"
proof -
  have "365 * y \<le> yoe_num doe"
    using year_ends_ok [OF y] yoe_num_mono [OF d(1)] by (simp add: year_ends_ok_def)
  moreover have "yoe_num doe < 365 * y + 365"
    using year_ends_ok [OF y] yoe_num_mono [of doe "year_end y - 1"] d(2)
    by (simp add: year_ends_ok_def)
  ultimately have "yoe_num doe div 365 = y" by (simp add: int_div_pos_eq [of _ 365 y "yoe_num doe - 365 * y"])
  then show ?thesis by (simp add: yoe_of_def yoe_num_def)
qed

lemma era_year_exists:
  "0 \<le> doe \<Longrightarrow> doe < era_days (int n) \<Longrightarrow>
   \<exists>y. 0 \<le> y \<and> y < int n \<and> era_days y \<le> doe \<and> doe < era_days (y + 1)"
proof (induction n)
  case 0
  then show ?case by (simp add: era_days_def)
next
  case (Suc n)
  show ?case
  proof (cases "doe < era_days (int n)")
    case True
    with Suc show ?thesis by force
  next
    case False
    with Suc.prems show ?thesis by (intro exI [of _ "int n"]) (simp add: add.commute)
  qed
qed

lemma yoe_of_year:
  assumes "0 \<le> doe" and "doe < 146097"
  shows "0 \<le> yoe_of doe \<and> yoe_of doe < 400 \<and> era_days (yoe_of doe) \<le> doe \<and>
         doe < year_end (yoe_of doe)"
proof -
  have "\<exists>y. 0 \<le> y \<and> y < 400 \<and> era_days y \<le> doe \<and> doe < year_end y"
  proof (cases "doe < 146096")
    case True
    with assms era_year_exists [of doe 400]
    obtain y where "0 \<le> y" "y < 400" "era_days y \<le> doe" "doe < era_days (y + 1)"
      by (auto simp: era_days_def)
    then show ?thesis using True by (intro exI [of _ y]) (simp add: year_end_def)
  next
    case False
    with assms show ?thesis by (intro exI [of _ 399]) (simp add: year_end_def era_days_def)
  qed
  then show ?thesis using yoe_of_in_year by blast
qed

section \<open>Months of a year that starts on March 1\<close>

definition mp_of :: "int \<Rightarrow> int" where
  "mp_of doy = (5 * doy + 2) div 153"

definition month_of :: "int \<Rightarrow> int" where
  "month_of doy = (if mp_of doy < 10 then mp_of doy + 3 else mp_of doy - 9)"

definition mday_of :: "int \<Rightarrow> int" where
  "mday_of doy = doy - (153 * mp_of doy + 2) div 5 + 1"

definition month_ok :: "int \<Rightarrow> bool" where
  "month_ok doy \<longleftrightarrow>
     1 \<le> month_of doy \<and> month_of doy \<le> 12 \<and> 1 \<le> mday_of doy \<and>
     mday_of doy \<le> (if doy = 365 then 29 else days_in_month 1 (month_of doy)) \<and>
     (doy = 365 \<longrightarrow> month_of doy = 2) \<and>
     days_before_month (month_of doy) + mday_of doy =
       (if month_of doy > 2 then doy + 60 else doy - 305)"

lemma month_ok_all: "list_all month_ok (map int [0..<366])"
  by code_simp

lemma month_ok: "0 \<le> doy \<Longrightarrow> doy < 366 \<Longrightarrow> month_ok doy"
proof -
  assume y: "0 \<le> doy" "doy < 366"
  then have "doy \<in> set (map int [0..<366])"
    by (intro image_eqI [of _ _ "nat doy"] | simp)+
  with month_ok_all show ?thesis by (simp only: list_all_iff)
qed

section \<open>Correctness of the civil date\<close>

lemma div_pred_step:
  "(0::int) < c \<Longrightarrow> y div c = (y - 1) div c + (if y mod c = 0 then 1 else 0)"
  using div_Suc_step [of c "y - 1"] by simp

lemma leap_count:
  assumes "p400 \<longrightarrow> p100" and "p100 \<longrightarrow> p4"
  shows "(a + (if p4 then 1 else 0)) - (b + (if p100 then 1 else 0))
      + (c + (if p400 then 1 else 0))
    = (a - b + c) + (if p4 \<and> (\<not> p100 \<or> p400) then 1 else (0::int))"
  using assms by (cases p4; cases p100; cases p400) simp_all

lemma leap_step: "leaps y = leaps (y - 1) + (if leap_year y then 1 else 0)"
proof -
  have "y mod 400 = 0 \<longrightarrow> y mod 100 = 0" and "y mod 100 = 0 \<longrightarrow> y mod 4 = 0"
    using dvd_trans [of "100 :: int" 400 y] dvd_trans [of "4 :: int" 100 y]
    by (simp_all add: mod_eq_0_iff_dvd)
  then show ?thesis
    unfolding leaps_def leap_year_def
    by (subst div_pred_step [of 4 y], simp, subst div_pred_step [of 100 y], simp,
        subst div_pred_step [of 400 y], simp) (rule leap_count)
qed

lemma year_length:
  assumes "0 \<le> yoe" and "yoe < 400"
  shows "year_end yoe - era_days yoe \<le> (if leap_year (yoe + 1 + 400 * era) then 366 else 365)"
proof (cases "yoe = 399")
  case True
  have "(400 + 400 * era) mod 4 = 0" "(400 + 400 * era) mod 400 = 0"
    by presburger+
  with True show ?thesis by (simp add: year_end_def era_days_def leap_year_def)
next
  case False
  have m: "(yoe + 1 + 400 * era) mod 4 = (yoe + 1) mod 4"
    "(yoe + 1 + 400 * era) mod 100 = (yoe + 1) mod 100"
    "(yoe + 1 + 400 * era) mod 400 = (yoe + 1) mod 400"
    by (simp_all add: mod_add_eq [symmetric, of "yoe + 1" "400 * era"])
  have "year_end yoe - era_days yoe =
      365 + ((yoe + 1) div 4 - yoe div 4) - ((yoe + 1) div 100 - yoe div 100)"
    using False by (simp add: year_end_def era_days_def)
  also have "\<dots> \<le> (if leap_year (yoe + 1 + 400 * era) then 366 else 365)"
    using assms False
    by (simp add: div_Suc_step leap_year_def m)
  finally show ?thesis .
qed

lemma civil_of_days_number: "day_number (civil_of_days days) = days"
  and civil_of_days_valid: "valid_date (civil_of_days days)"
proof -
  define z era doe where z_def: "z = days + 719468" and era_def: "era = z div 146097"
    and doe_def: "doe = z mod 146097"
  define yoe y doy where yoe_def: "yoe = yoe_of doe" and y_def: "y = yoe + era * 400"
    and doy_def: "doy = doe - era_days yoe"
  have doe: "0 \<le> doe" "doe < 146097" by (simp_all add: doe_def)
  have yoe: "0 \<le> yoe" "yoe < 400" "era_days yoe \<le> doe" "doe < year_end yoe"
    using yoe_of_year [OF doe] by (simp_all add: yoe_def)
  have z: "z = 146097 * era + doe" by (simp add: era_def doe_def)
  have len: "doy < (if leap_year (y + 1) then 366 else 365)"
    using year_length [OF yoe(1,2), of era] yoe(4) by (simp add: doy_def y_def algebra_simps split: if_splits)
  have doy: "0 \<le> doy" "doy < 366" using yoe(3) len by (simp_all add: doy_def split: if_splits)
  define m d where m_def: "m = month_of doy" and d_def: "d = mday_of doy"
  define year where year_def: "year = (if m \<le> 2 then y + 1 else y)"
  have mo: "month_ok doy" by (rule month_ok [OF doy])
  have dy: "doy_of doe = doy"
    by (simp add: doy_of_def Let_def doy_def yoe_def era_days_def)
  have civil: "civil_of_days days = (year, m, d)"
    unfolding civil_of_days_def civil_from_days_def Let_def z_def [symmetric]
      era_def [symmetric] doe_def [symmetric] dy yoe_def [symmetric] y_def [symmetric]
      mp_of_def [symmetric] month_of_def [symmetric] mday_of_def [symmetric]
      m_def [symmetric] d_def [symmetric] year_def [symmetric] by (rule refl)
  have ydiv: "y div 4 = 100 * era + yoe div 4" "y div 100 = 4 * era + yoe div 100"
    "y div 400 = era" using yoe(1,2) by (simp_all add: y_def)
  have "leaps y = 97 * era + yoe div 4 - yoe div 100"
    unfolding leaps_def ydiv by simp
  then have days: "days = 365 * y + leaps y + doy - 719468"
    using z by (simp add: z_def doy_def era_days_def y_def algebra_simps)
  have yr: "365 * (year - 1) + leaps (year - 1) + (if m > 2 \<and> leap_year year then 1 else 0)
      = 365 * y + leaps y - (if m > 2 then 365 else 0)"
    using leap_step [of y] by (cases "m \<le> 2") (simp_all add: year_def)
  show "day_number (civil_of_days days) = days"
    unfolding civil day_number_def using mo yr days
    by (simp add: month_ok_def m_def [symmetric] d_def [symmetric] split: if_splits)
  show "valid_date (civil_of_days days)"
    using mo len by (auto simp: civil valid_date_def month_ok_def m_def [symmetric]
        d_def [symmetric] year_def days_in_month_def leap_year_def split: if_splits)
qed

lemma civil_of_days_inj: "civil_of_days a = civil_of_days b \<Longrightarrow> a = b"
  by (metis civil_of_days_number)

section \<open>Bucket names\<close>

text \<open>Reading the digits back gives the number that was printed.\<close>

lemma digits_value_append: "digits_value a (s @ t) = digits_value (digits_value a s) t"
  by (induction s arbitrary: a) auto

lemma digits_value_dec_nat: "digits_value 0 (dec_nat n) = n"
proof (induction n rule: dec_nat.induct)
  case (1 n)
  show ?case
  proof (cases "n < 10")
    case True
    then show ?thesis by (simp add: dec_nat.simps [of n] byte_digit_char)
  next
    case False
    with 1 show ?thesis
      by (simp add: dec_nat.simps [of n] digits_value_append byte_digit_char)
  qed
qed

lemma digits_value_zeros: "digits_value 0 (replicate k CHR ''0'' @ s) = digits_value 0 s"
  by (induction k) (auto simp: byte_def)

lemma zero_padded_inj:
  assumes "0 \<le> a" and "0 \<le> b" and "zero_padded w a = zero_padded w b"
  shows "a = b"
proof -
  have "digits_value 0 (zero_padded w a) = digits_value 0 (zero_padded w b)"
    using assms(3) by simp
  with assms(1,2) show ?thesis
    by (simp add: zero_padded_def pad_left_def digits_value_zeros digits_value_dec_nat)
qed

lemma dec_nat_length: "n < 10 ^ w \<Longrightarrow> 0 < w \<Longrightarrow> length (dec_nat n) \<le> w"
proof (induction n arbitrary: w rule: dec_nat.induct)
  case (1 n)
  show ?case
  proof (cases "n < 10")
    case True
    with "1.prems" show ?thesis by (simp add: dec_nat.simps [of n])
  next
    case False
    with "1.prems" have w: "1 < w" by (cases "w = 1") auto
    then have "n div 10 < 10 ^ (w - 1)"
      using "1.prems" by (simp add: less_mult_imp_div_less power_eq_if)
    with False "1.IH" w have "length (dec_nat (n div 10)) \<le> w - 1" by simp
    with False w show ?thesis by (simp add: dec_nat.simps [of n])
  qed
qed

lemma length_zero_padded: "0 \<le> z \<Longrightarrow> z < 10 ^ w \<Longrightarrow> 0 < w \<Longrightarrow> length (zero_padded w z) = w"
  using dec_nat_length [of "nat z" w]
  by (simp add: zero_padded_def pad_left_def nat_less_iff)

lemma leaps_mono: "a \<le> b \<Longrightarrow> leaps a \<le> leaps b"
proof (induction b rule: int_ge_induct)
  case base
  show ?case by simp
next
  case (step i)
  with leap_step [of "i + 1"] show ?case by (simp split: if_splits)
qed

lemma valid_day_of_year:
  assumes "valid_date (y, m, d)"
  shows "1 \<le> days_before_month m + (if m > 2 \<and> leap_year y then 1 else 0) + d \<and>
    days_before_month m + (if m > 2 \<and> leap_year y then 1 else 0) + d \<le> 365 + (if leap_year y then 1 else 0)"
proof -
  have "1 \<le> m" and "m \<le> 12"
    using assms by (simp_all add: valid_date_def)
  then have "m = 1 \<or> m = 2 \<or> m = 3 \<or> m = 4 \<or> m = 5 \<or> m = 6 \<or> m = 7 \<or> m = 8 \<or> m = 9
      \<or> m = 10 \<or> m = 11 \<or> m = 12"
    by presburger
  then show ?thesis
    using assms by (auto simp: valid_date_def days_in_month_def days_before_month_def split: if_splits)
qed

text \<open>The first and the last year a four-digit bucket name can hold here.\<close>

lemma civil_year_bounds:
  assumes "civil_of_days days = (y, m, d)" and "0 \<le> days" and "days < 2932897"
  shows "1970 \<le> y \<and> y \<le> 9999"
proof -
  have v: "valid_date (y, m, d)" and n: "day_number (y, m, d) = days"
    using civil_of_days_valid [of days] civil_of_days_number [of days] by (simp_all add: assms(1))
  note b = valid_day_of_year [OF v]
  have e: "leaps 1969 = 477" "leaps 9999 = 2424" by (simp_all add: leaps_def)
  have l: "leaps y = leaps (y - 1) + (if leap_year y then 1 else 0)" by (rule leap_step)
  have "\<not> y < 1970"
  proof
    assume "y < 1970"
    then have "leaps y \<le> 477" using leaps_mono [of y 1969] e by simp
    with b l n assms(2) \<open>y < 1970\<close> show False by (auto simp: day_number_def split: if_splits)
  qed
  moreover have "\<not> 9999 < y"
  proof
    assume "9999 < y"
    then have "2424 \<le> leaps (y - 1)" using leaps_mono [of 9999 "y - 1"] e by simp
    with b n assms(3) \<open>9999 < y\<close> show False by (auto simp: day_number_def split: if_splits)
  qed
  ultimately show ?thesis by simp
qed

definition bucket_day :: "f64 \<Rightarrow> int" where
  "bucket_day t = f64_to_i64 t div 86400"

text \<open>Days of the years 1970 to 9999, where a bucket name has eight digits.\<close>

definition in_bucket_range :: "f64 \<Rightarrow> bool" where
  "in_bucket_range t \<longleftrightarrow> 0 \<le> bucket_day t \<and> bucket_day t < 2932897"

lemma day_string_parts:
  assumes "in_bucket_range t"
  obtains y m d where "civil_of_days (bucket_day t) = (y, m, d)"
    and "day_string t = zero_padded 4 y @ zero_padded 2 m @ zero_padded 2 d"
    and "length (zero_padded 4 y) = 4" and "length (zero_padded 2 m) = 2"
    and "length (zero_padded 2 d) = 2" and "0 \<le> y" and "0 \<le> m" and "0 \<le> d"
proof -
  obtain y m d where c: "civil_of_days (bucket_day t) = (y, m, d)" by (metis prod_cases3)
  have "1970 \<le> y \<and> y \<le> 9999"
    using assms by (intro civil_year_bounds [OF c]) (simp_all add: in_bucket_range_def)
  moreover have "valid_date (y, m, d)" using civil_of_days_valid [of "bucket_day t"] by (simp add: c)
  then have "1 \<le> m" "m \<le> 12" "1 \<le> d" "d \<le> 31"
    by (auto simp: valid_date_def days_in_month_def split: if_splits)
  moreover have "day_string t = zero_padded 4 y @ zero_padded 2 m @ zero_padded 2 d"
    using c by (simp add: day_string_def bucket_day_def Let_def)
  ultimately show thesis by (intro that [OF c]) (auto intro: length_zero_padded)
qed

lemma day_string_eq_iff:
  assumes "in_bucket_range a" and "in_bucket_range b"
  shows "day_string a = day_string b \<longleftrightarrow> bucket_day a = bucket_day b"
proof
  assume eq: "day_string a = day_string b"
  from assms(1) obtain y m d where a: "civil_of_days (bucket_day a) = (y, m, d)"
    "day_string a = zero_padded 4 y @ zero_padded 2 m @ zero_padded 2 d"
    "length (zero_padded 4 y) = 4" "length (zero_padded 2 m) = 2" "0 \<le> y" "0 \<le> m" "0 \<le> d"
    by (rule day_string_parts)
  from assms(2) obtain y' m' d' where b: "civil_of_days (bucket_day b) = (y', m', d')"
    "day_string b = zero_padded 4 y' @ zero_padded 2 m' @ zero_padded 2 d'"
    "length (zero_padded 4 y') = 4" "length (zero_padded 2 m') = 2" "0 \<le> y'" "0 \<le> m'" "0 \<le> d'"
    by (rule day_string_parts)
  from eq a b have "y = y'" "m = m'" "d = d'"
    by (auto dest: zero_padded_inj)
  with a b show "bucket_day a = bucket_day b"
    by (intro civil_of_days_inj) simp
next
  assume "bucket_day a = bucket_day b"
  then show "day_string a = day_string b" by (simp add: day_string_def bucket_day_def)
qed

lemma no_colon_day_string: "CHR '':'' \<notin> set (day_string t)"
proof -
  have d: "CHR '':'' \<notin> set (dec_nat n)" for n
    by (rule no_digit_in) (simp add: is_digit_def byte_def)
  have "CHR '':'' \<notin> set (zero_padded w z)" for w z
    using d by (auto simp: zero_padded_def pad_left_def)
  then show ?thesis by (auto simp: day_string_def Let_def split: prod.split)
qed

section \<open>Properties\<close>

text \<open>
  A budget bucket is named after its day: for times from 1970 to 9999 the date printed by
  \<open>day_string\<close> is a valid Gregorian date whose day number is the time's day, and two times
  share a name exactly when they fall on the same day.
\<close>

theorem day_string_names_day:
  assumes "in_bucket_range a" and "in_bucket_range b"
  shows "(\<exists>y m d. valid_date (y, m, d) \<and> day_number (y, m, d) = bucket_day a \<and>
      day_string a = zero_padded 4 y @ zero_padded 2 m @ zero_padded 2 d) \<and>
    (day_string a = day_string b \<longleftrightarrow> bucket_day a = bucket_day b)"
proof -
  from assms(1) obtain y m d where "civil_of_days (bucket_day a) = (y, m, d)"
    "day_string a = zero_padded 4 y @ zero_padded 2 m @ zero_padded 2 d"
    by (rule day_string_parts)
  with civil_of_days_valid [of "bucket_day a"] civil_of_days_number [of "bucket_day a"]
  show ?thesis using day_string_eq_iff [OF assms] by (intro conjI exI [of _ y] exI [of _ m] exI [of _ d]) auto
qed

theorem day_string_names_day_witness:
  "day_string (f64_of_int 1700000000) \<noteq> day_string (f64_of_int 1700086400)"
  using day_string_names_day [of "f64_of_int 1700000000" "f64_of_int 1700086400"]
  by (simp add: in_bucket_range_def bucket_day_def f64_of_int_simps)

end
