(* ===== verification/Metering.thy ===== *)
theory Metering
  imports Metering_Store Config Calendar
begin

text \<open>
  The accounting half of \<open>fwllm-gateway/src/metering.rs\<close>: the struct \<open>Metering\<close>, its quota
  checks, usage records, admission and settlement, over any store.  The clock reading is the
  argument \<open>now\<close>; the two random words of a reservation id are the arguments \<open>r1\<close> and \<open>r2\<close>.
  The lemmas about a store that keeps the contract are proved in \<open>metering_backend\<close>.
\<close>

section \<open>Data\<close>

datatype metering_error = QuotaExceeded string int | BackendUnavailable string

record metering =
  mt_client_tokens :: "int option"
  mt_client_requests :: "int option"
  mt_provider_tokens :: "int option"
  mt_fail_closed :: bool
  mt_completion_reserve :: int

definition new_metering :: "quotas \<Rightarrow> metering" where
  "new_metering q = \<lparr>mt_client_tokens = q_client_tokens q, mt_client_requests = q_client_requests q,
     mt_provider_tokens = q_provider_tokens q, mt_fail_closed = q_fail_closed q,
     mt_completion_reserve = q_completion_reserve q\<rparr>"

record reservation =
  rsv_id :: string
  rsv_client :: string
  rsv_provider :: string
  rsv_model :: string
  prompt_est :: int
  completion_cap :: int

definition reserved_total :: "reservation \<Rightarrow> int" where
  "reserved_total r = i64_add (prompt_est r) (completion_cap r)"

section \<open>Bucket keys\<close>

definition c_tokens_of :: "string \<Rightarrow> string \<Rightarrow> string" where
  "c_tokens_of client day = ''fwllm:c:tokens:'' @ client @ '':'' @ day"

definition c_req_of :: "string \<Rightarrow> string \<Rightarrow> string" where
  "c_req_of client day = ''fwllm:c:req:'' @ client @ '':'' @ day"

definition p_tokens_of :: "string \<Rightarrow> string \<Rightarrow> string" where
  "p_tokens_of provider day = ''fwllm:p:tokens:'' @ provider @ '':'' @ day"

definition p_req_of :: "string \<Rightarrow> string \<Rightarrow> string" where
  "p_req_of provider day = ''fwllm:p:req:'' @ provider @ '':'' @ day"

definition m_tokens_of :: "string \<Rightarrow> string \<Rightarrow> string" where
  "m_tokens_of model day = ''fwllm:m:tokens:'' @ model @ '':'' @ day"

definition rsv_key :: "string \<Rightarrow> string" where
  "rsv_key rid = ''fwllm:rsv:'' @ rid"

lemmas key_defs = c_tokens_of_def c_req_of_def p_tokens_of_def p_req_of_def m_tokens_of_def rsv_key_def

definition rsv_ttl_secs :: nat where
  "rsv_ttl_secs = 600"

definition bucket_ttl_secs :: nat where
  "bucket_ttl_secs = 60 * 60 * 48"

section \<open>Checks and records\<close>

definition ensure_ready :: "'s store_ops \<Rightarrow> metering \<Rightarrow> 's \<Rightarrow> (metering_error + unit) \<times> 's" where
  "ensure_ready ops m s =
     (if mt_fail_closed m
      then (case st_ping ops s of
              (Inl e, s') \<Rightarrow> (Inl (BackendUnavailable e), s') | (Inr _, s') \<Rightarrow> (Inr (), s'))
      else (Inr (), s))"

text \<open>
  One quota of \<open>check_client\<close> or \<open>check_provider\<close>: \<open>None\<close> continues with the next check,
  \<open>Some r\<close> returns \<open>r\<close> (a backend error ends the checks, with an error only when fail-closed).
\<close>

definition check_quota ::
  "'s store_ops \<Rightarrow> metering \<Rightarrow> string \<Rightarrow> string \<Rightarrow> int option \<Rightarrow> 's
     \<Rightarrow> (metering_error + unit) option \<times> 's" where
  "check_quota ops m scope key limit s =
     (case limit of None \<Rightarrow> (None, s)
      | Some l \<Rightarrow>
          (case st_get ops key s of
             (Inl e, s') \<Rightarrow>
               (Some (if mt_fail_closed m then Inl (BackendUnavailable e) else Inr ()), s')
           | (Inr v, s') \<Rightarrow> (if v \<ge> l then Some (Inl (QuotaExceeded scope l)) else None, s')))"

definition check_client ::
  "'s store_ops \<Rightarrow> f64 \<Rightarrow> metering \<Rightarrow> string \<Rightarrow> 's \<Rightarrow> (metering_error + unit) \<times> 's" where
  "check_client ops now m client s =
     (case ensure_ready ops m s of
        (Inl e, s1) \<Rightarrow> (Inl e, s1)
      | (Inr _, s1) \<Rightarrow>
          (let day = day_string now in
           (case check_quota ops m ''tokens'' (c_tokens_of client day) (mt_client_tokens m) s1 of
              (Some r, s2) \<Rightarrow> (r, s2)
            | (None, s2) \<Rightarrow>
                (case check_quota ops m ''requests'' (c_req_of client day) (mt_client_requests m) s2 of
                   (Some r, s3) \<Rightarrow> (r, s3)
                 | (None, s3) \<Rightarrow> (Inr (), s3)))))"

definition check_provider ::
  "'s store_ops \<Rightarrow> f64 \<Rightarrow> metering \<Rightarrow> string \<Rightarrow> 's \<Rightarrow> (metering_error + unit) \<times> 's" where
  "check_provider ops now m provider s =
     (case ensure_ready ops m s of
        (Inl e, s1) \<Rightarrow> (Inl e, s1)
      | (Inr _, s1) \<Rightarrow>
          (case check_quota ops m ''provider_tokens'' (p_tokens_of provider (day_string now))
                  (mt_provider_tokens m) s1 of
             (Some r, s2) \<Rightarrow> (r, s2)
           | (None, s2) \<Rightarrow> (Inr (), s2)))"

definition record_usage ::
  "'s store_ops \<Rightarrow> f64 \<Rightarrow> string \<Rightarrow> string \<Rightarrow> string \<Rightarrow> int \<Rightarrow> int \<Rightarrow> 's \<Rightarrow> 's" where
  "record_usage ops now client provider model prompt completion s =
     (let day = day_string now;
          used_total = i64_add prompt completion;
          s = snd (st_incr ops (c_tokens_of client day) used_total s);
          s = snd (st_incr ops (c_req_of client day) 1 s);
          s = snd (st_incr ops (p_tokens_of provider day) used_total s);
          s = snd (st_incr ops (p_req_of provider day) 1 s);
          s = snd (st_incr ops (m_tokens_of model day) used_total s)
      in s)"

section \<open>Admission and settlement\<close>

definition token_keys :: "f64 \<Rightarrow> reservation \<Rightarrow> string list" where
  "token_keys now r =
     (let day = day_string now in
      [c_tokens_of (rsv_client r) day, p_tokens_of (rsv_provider r) day, m_tokens_of (rsv_model r) day])"

definition limit_arg :: "int option \<Rightarrow> int" where
  "limit_arg q = (case q of Some l \<Rightarrow> l | None \<Rightarrow> - 1)"

definition new_reservation ::
  "metering \<Rightarrow> nat \<Rightarrow> nat \<Rightarrow> string \<Rightarrow> string \<Rightarrow> string \<Rightarrow> int \<Rightarrow> int option \<Rightarrow> reservation" where
  "new_reservation m r1 r2 client provider model est cap =
     \<lparr>rsv_id = hex16 r1 @ hex16 r2, rsv_client = client, rsv_provider = provider, rsv_model = model,
      prompt_est = max 0 est,
      completion_cap = max 0 (case cap of Some c \<Rightarrow> c | None \<Rightarrow> mt_completion_reserve m)\<rparr>"

definition admit_request :: "metering \<Rightarrow> string \<Rightarrow> reservation \<Rightarrow> admit_op" where
  "admit_request m day r =
     \<lparr>c_tokens_key = c_tokens_of (rsv_client r) day,
      c_tokens_limit = limit_arg (mt_client_tokens m),
      c_req_key = c_req_of (rsv_client r) day,
      c_req_limit = limit_arg (mt_client_requests m),
      p_tokens_key = p_tokens_of (rsv_provider r) day,
      p_tokens_limit = limit_arg (mt_provider_tokens m),
      p_req_key = p_req_of (rsv_provider r) day,
      m_tokens_key = m_tokens_of (rsv_model r) day,
      op_reserve = reserved_total r,
      op_reservation_key = rsv_key (rsv_id r),
      reservation_ttl_secs = rsv_ttl_secs,
      op_bucket_ttl_secs = bucket_ttl_secs\<rparr>"

fun denied_error :: "metering \<Rightarrow> reserve_denied \<Rightarrow> metering_error" where
  "denied_error m ClientTokens =
     QuotaExceeded ''tokens'' (case mt_client_tokens m of Some l \<Rightarrow> l | None \<Rightarrow> 0)"
| "denied_error m ClientRequests =
     QuotaExceeded ''requests'' (case mt_client_requests m of Some l \<Rightarrow> l | None \<Rightarrow> 0)"
| "denied_error m ProviderTokens =
     QuotaExceeded ''provider_tokens'' (case mt_provider_tokens m of Some l \<Rightarrow> l | None \<Rightarrow> 0)"

definition admit ::
  "'s store_ops \<Rightarrow> f64 \<Rightarrow> nat \<Rightarrow> nat \<Rightarrow> metering \<Rightarrow> string \<Rightarrow> string \<Rightarrow> string \<Rightarrow> int \<Rightarrow> int option
     \<Rightarrow> 's \<Rightarrow> (metering_error + reservation) \<times> 's" where
  "admit ops now r1 r2 m client provider model est cap s =
     (case ensure_ready ops m s of
        (Inl e, s1) \<Rightarrow> (Inl e, s1)
      | (Inr _, s1) \<Rightarrow>
          (let rsv = new_reservation m r1 r2 client provider model est cap in
           (case st_reserve ops (admit_request m (day_string now) rsv) s1 of
              (Inr _, s2) \<Rightarrow> (Inr rsv, s2)
            | (Inl (Denied d), s2) \<Rightarrow> (Inl (denied_error m d), s2)
            | (Inl (Backend msg), s2) \<Rightarrow> (Inl (BackendUnavailable msg), s2))))"

definition settle_request :: "f64 \<Rightarrow> reservation \<Rightarrow> int \<Rightarrow> int \<Rightarrow> settle_req" where
  "settle_request now r prompt completion =
     \<lparr>sr_reservation_key = rsv_key (rsv_id r), sr_token_keys = token_keys now r,
      sr_delta = i64_sub (i64_add prompt completion) (reserved_total r),
      sr_bucket_ttl_secs = bucket_ttl_secs\<rparr>"

definition settle ::
  "'s store_ops \<Rightarrow> f64 \<Rightarrow> reservation \<Rightarrow> int \<Rightarrow> int \<Rightarrow> 's \<Rightarrow> 's" where
  "settle ops now r prompt completion s =
     snd (st_settle ops (settle_request now r prompt completion) s)"

section \<open>Keys do not collide\<close>

lemma suffix_day_inj:
  assumes "CHR '':'' \<notin> set d" and "CHR '':'' \<notin> set d'" and "a @ CHR '':'' # d = a' @ CHR '':'' # d'"
  shows "a = a' \<and> d = d'"
proof -
  have "rsplit_once CHR '':'' (a @ CHR '':'' # d) = rsplit_once CHR '':'' (a' @ CHR '':'' # d')"
    using assms(3) by simp
  with assms(1,2) show ?thesis by (simp add: rsplit_once_Some)
qed

lemma key_inj:
  "c_tokens_of c (day_string t) = c_tokens_of c' (day_string t') \<longleftrightarrow> c = c' \<and> day_string t = day_string t'"
  "c_req_of c (day_string t) = c_req_of c' (day_string t') \<longleftrightarrow> c = c' \<and> day_string t = day_string t'"
  "p_tokens_of c (day_string t) = p_tokens_of c' (day_string t') \<longleftrightarrow> c = c' \<and> day_string t = day_string t'"
  "p_req_of c (day_string t) = p_req_of c' (day_string t') \<longleftrightarrow> c = c' \<and> day_string t = day_string t'"
  "m_tokens_of c (day_string t) = m_tokens_of c' (day_string t') \<longleftrightarrow> c = c' \<and> day_string t = day_string t'"
  using suffix_day_inj [OF no_colon_day_string no_colon_day_string, of c t c' t']
  by (simp_all add: key_defs) blast+

lemma key_families:
  "c_tokens_of a d \<noteq> c_req_of b e" "c_tokens_of a d \<noteq> p_tokens_of b e"
  "c_tokens_of a d \<noteq> p_req_of b e" "c_tokens_of a d \<noteq> m_tokens_of b e"
  "c_req_of a d \<noteq> p_tokens_of b e" "c_req_of a d \<noteq> p_req_of b e"
  "c_req_of a d \<noteq> m_tokens_of b e" "p_tokens_of a d \<noteq> p_req_of b e"
  "p_tokens_of a d \<noteq> m_tokens_of b e" "p_req_of a d \<noteq> m_tokens_of b e"
  by (simp_all add: key_defs)

lemmas key_distinct [simp] = key_families key_families [symmetric]

lemma rsv_key_inj [simp]: "rsv_key a = rsv_key b \<longleftrightarrow> a = b"
  by (simp add: rsv_key_def)

lemma distinct_op_keys [simp]: "distinct (op_keys (admit_request m day r))"
  by (simp add: op_keys_def admit_request_def)

lemma distinct_token_keys [simp]: "distinct (token_keys now r)"
  by (simp add: token_keys_def Let_def)

end
