(* ===== verification/Redis_Store.thy ===== *)
theory Redis_Store
  imports Metering F64
begin

text \<open>
  \<open>RedisStore\<close> of \<open>fwllm-gateway/src/metering.rs\<close> with its two Lua scripts.  The Redis server is a
  parameter: the record \<open>redis\<close> holds the commands the source uses, on a server state \<open>'s\<close> at one
  moment, and the conversions between numbers and text of Lua and of the client library; what
  their documentation promises is the predicate \<open>redis_server\<close>.  A script runs alone, stops at the
  first command that fails, and keeps what it has done.  The connection is a list of faults, one for
  each operation: an operation may not reach the server, or its answer may come too late.
\<close>

section \<open>The server\<close>

datatype set_ttl = Expires string | KEEPTTL

record 's redis =
  rd_get :: "string \<Rightarrow> 's \<Rightarrow> string option"
  rd_incrby :: "string \<Rightarrow> string \<Rightarrow> 's \<Rightarrow> (string + int) \<times> 's"
  rd_expire :: "string \<Rightarrow> string \<Rightarrow> 's \<Rightarrow> 's"
  rd_set :: "string \<Rightarrow> string \<Rightarrow> set_ttl \<Rightarrow> 's \<Rightarrow> 's"
  rd_tonumber :: "string \<Rightarrow> f64 option"
  rd_tostring :: "f64 \<Rightarrow> string"
  rd_integer :: "string \<Rightarrow> string + int"
  rd_nil_error :: string

text \<open>The value of a counter: an absent key counts as zero.\<close>

definition holds :: "'s redis \<Rightarrow> 's \<Rightarrow> string \<Rightarrow> int \<Rightarrow> bool" where
  "holds rd s k v \<longleftrightarrow> rd_get rd k s = Some (dec_int v) \<or> rd_get rd k s = None \<and> v = 0"

definition redis_server :: "'s redis \<Rightarrow> bool" where
  "redis_server rd \<longleftrightarrow>
     (\<forall>k x s k'. rd_get rd k' (rd_set rd k x KEEPTTL s) = (if k' = k then Some x else rd_get rd k' s)) \<and>
     (\<forall>k x n s k'. 0 < n \<longrightarrow>
        rd_get rd k' (rd_set rd k x (Expires (dec_int n)) s) = (if k' = k then Some x else rd_get rd k' s)) \<and>
     (\<forall>k n s k'. 0 < n \<longrightarrow> rd_get rd k' (rd_expire rd k (dec_int n) s) = rd_get rd k' s) \<and>
     (\<forall>k a v s. holds rd s k v \<longrightarrow> in_i64 (v + a) \<longrightarrow>
        (\<exists>s'. rd_incrby rd k (dec_int a) s = (Inr (v + a), s') \<and>
           (\<forall>k'. rd_get rd k' s' = (if k' = k then Some (dec_int (v + a)) else rd_get rd k' s)))) \<and>
     (\<forall>n. rd_tonumber rd (dec_int n) = Some (f64_of_int n)) \<and>
     (\<forall>n. f64_exact n \<longrightarrow> rd_tostring rd (f64_of_int n) = dec_int n) \<and>
     (\<forall>n. in_i64 n \<longrightarrow> rd_integer rd (dec_int n) = Inr n)"

section \<open>The admission script\<close>

definition lua_read :: "'s redis \<Rightarrow> string \<Rightarrow> 's \<Rightarrow> f64 option" where
  "lua_read rd k s = rd_tonumber rd (case rd_get rd k s of Some t \<Rightarrow> t | None \<Rightarrow> ''0'')"

text \<open>\<open>limit >= 0 and value + add > limit\<close>; \<open>None\<close> is arithmetic on \<open>nil\<close>, which ends the script.\<close>

definition lua_over :: "f64 option \<Rightarrow> f64 option \<Rightarrow> f64 option \<Rightarrow> bool option" where
  "lua_over limit val add =
     (case limit of None \<Rightarrow> None
      | Some l \<Rightarrow>
          if f64_ge l (f64_of_int 0)
          then (case (val, add) of (Some v, Some a) \<Rightarrow> Some (f64_gt (f64_add v a) l) | _ \<Rightarrow> None)
          else Some False)"

fun incr_all :: "'s redis \<Rightarrow> (string \<times> string) list \<Rightarrow> 's \<Rightarrow> (string + unit) \<times> 's" where
  "incr_all rd [] s = (Inr (), s)"
| "incr_all rd ((k, a) # ks) s =
     (case rd_incrby rd k a s of
        (Inl e, s') \<Rightarrow> (Inl e, s')
      | (Inr v, s') \<Rightarrow> incr_all rd ks s')"

definition admit_writes :: "'s redis \<Rightarrow> admit_op \<Rightarrow> f64 \<Rightarrow> 's \<Rightarrow> (string + string) \<times> 's" where
  "admit_writes rd req reserve s =
     (let amount = rd_tostring rd reserve in
      case incr_all rd [(c_tokens_key req, amount), (c_req_key req, ''1''), (p_tokens_key req, amount),
             (p_req_key req, ''1''), (m_tokens_key req, amount)] s of
        (Inl e, s') \<Rightarrow> (Inl e, s')
      | (Inr _, s') \<Rightarrow>
          (let s' = fold (\<lambda>k. rd_expire rd k (dec_int (int (op_bucket_ttl_secs req)))) (op_keys req) s'
           in (Inr ''ok'', rd_set rd (op_reservation_key req) ''open'' (Expires (dec_int (int (reservation_ttl_secs req)))) s')))"

definition admit_script :: "'s redis \<Rightarrow> admit_op \<Rightarrow> 's \<Rightarrow> (string + string) \<times> 's" where
  "admit_script rd req s =
     (let ct = lua_read rd (c_tokens_key req) s;
          cr = lua_read rd (c_req_key req) s;
          pt = lua_read rd (p_tokens_key req) s;
          arg = (\<lambda>n. rd_tonumber rd (dec_int n));
          reserve = arg (op_reserve req)
      in case lua_over (arg (c_tokens_limit req)) ct reserve of
           None \<Rightarrow> (Inl (rd_nil_error rd), s)
         | Some True \<Rightarrow> (Inr ''tokens'', s)
         | Some False \<Rightarrow>
      (case lua_over (arg (c_req_limit req)) cr (Some (f64_of_int 1)) of
           None \<Rightarrow> (Inl (rd_nil_error rd), s)
         | Some True \<Rightarrow> (Inr ''requests'', s)
         | Some False \<Rightarrow>
      (case lua_over (arg (p_tokens_limit req)) pt reserve of
           None \<Rightarrow> (Inl (rd_nil_error rd), s)
         | Some True \<Rightarrow> (Inr ''provider_tokens'', s)
         | Some False \<Rightarrow>
      (case reserve of None \<Rightarrow> (Inl (rd_nil_error rd), s) | Some r \<Rightarrow> admit_writes rd req r s))))"

section \<open>The settlement script\<close>

fun settle_all :: "'s redis \<Rightarrow> f64 option \<Rightarrow> string \<Rightarrow> string list \<Rightarrow> 's \<Rightarrow> (string + bool) \<times> 's" where
  "settle_all rd d ttl [] s = (Inr True, s)"
| "settle_all rd d ttl (k # ks) s =
     (case (lua_read rd k s, d) of
        (Some x, Some y) \<Rightarrow>
          (let v = f64_add x y; v = (if f64_lt v (f64_of_int 0) then f64_of_int 0 else v)
           in settle_all rd d ttl ks (rd_set rd k (rd_tostring rd v) (Expires ttl) s))
      | _ \<Rightarrow> (Inl (rd_nil_error rd), s))"

text \<open>The key indices are those of the three token buckets that \<open>Metering::settle\<close> passes.\<close>

definition settle_script :: "'s redis \<Rightarrow> settle_req \<Rightarrow> 's \<Rightarrow> (string + bool) \<times> 's" where
  "settle_script rd req s =
     (if rd_get rd (sr_reservation_key req) s \<noteq> Some ''open'' then (Inr False, s)
      else settle_all rd (rd_tonumber rd (dec_int (sr_delta req))) (dec_int (int (sr_bucket_ttl_secs req)))
        (take 3 (sr_token_keys req)) (rd_set rd (sr_reservation_key req) ''settled'' KEEPTTL s))"

section \<open>The store\<close>

datatype fault = Fine | Unreached string | Overdue string

record 's redis_state =
  rs_server :: 's
  rs_link :: "fault list"

definition with_link :: "('s \<Rightarrow> (string + 'a) \<times> 's) \<Rightarrow> 's redis_state \<Rightarrow> (string + 'a) \<times> 's redis_state" where
  "with_link act st =
     (let (r, s) = act (rs_server st); rest = tl (rs_link st) in
      case rs_link st of
        Unreached e # _ \<Rightarrow> (Inl e, st\<lparr>rs_link := rest\<rparr>)
      | Overdue e # _ \<Rightarrow> (Inl e, st\<lparr>rs_server := s, rs_link := rest\<rparr>)
      | _ \<Rightarrow> (r, st\<lparr>rs_server := s, rs_link := rest\<rparr>))"

definition redis_incr :: "'s redis \<Rightarrow> string \<Rightarrow> int \<Rightarrow> 's redis_state \<Rightarrow> (string + int) \<times> 's redis_state" where
  "redis_incr rd k amount = with_link (rd_incrby rd k (dec_int amount))"

definition redis_get :: "'s redis \<Rightarrow> string \<Rightarrow> 's redis_state \<Rightarrow> (string + int) \<times> 's redis_state" where
  "redis_get rd k = with_link (\<lambda>s.
     (case rd_get rd k s of None \<Rightarrow> Inr 0 | Some t \<Rightarrow> rd_integer rd t, s))"

definition redis_ping :: "'s redis_state \<Rightarrow> (string + unit) \<times> 's redis_state" where
  "redis_ping = with_link (\<lambda>s. (Inr (), s))"

definition reserve_reply :: "string + string \<Rightarrow> reserve_error + unit" where
  "reserve_reply r =
     (case r of
        Inl e \<Rightarrow> Inl (Backend e)
      | Inr status \<Rightarrow>
          if status = ''ok'' then Inr ()
          else if status = ''requests'' then Inl (Denied ClientRequests)
          else if status = ''provider_tokens'' then Inl (Denied ProviderTokens)
          else Inl (Denied ClientTokens))"

definition redis_reserve :: "'s redis \<Rightarrow> admit_op \<Rightarrow> 's redis_state \<Rightarrow> (reserve_error + unit) \<times> 's redis_state" where
  "redis_reserve rd req st = apfst reserve_reply (with_link (admit_script rd req) st)"

definition redis_settle :: "'s redis \<Rightarrow> settle_req \<Rightarrow> 's redis_state \<Rightarrow> (string + bool) \<times> 's redis_state" where
  "redis_settle rd req = with_link (settle_script rd req)"

definition redis_store :: "'s redis \<Rightarrow> 's redis_state store_ops" where
  "redis_store rd = \<lparr>st_incr = redis_incr rd, st_get = redis_get rd, st_ping = redis_ping,
     st_reserve = redis_reserve rd, st_settle = redis_settle rd\<rparr>"

section \<open>What the server promises\<close>

lemma redis_serverD:
  assumes "redis_server rd"
  shows "rd_get rd k' (rd_set rd k x KEEPTTL s) = (if k' = k then Some x else rd_get rd k' s)"
    and "0 < n \<Longrightarrow> rd_get rd k' (rd_set rd k x (Expires (dec_int n)) s) = (if k' = k then Some x else rd_get rd k' s)"
    and "0 < n \<Longrightarrow> rd_get rd k' (rd_expire rd k (dec_int n) s) = rd_get rd k' s"
    and "holds rd s k v \<Longrightarrow> in_i64 (v + a) \<Longrightarrow> \<exists>s'. rd_incrby rd k (dec_int a) s = (Inr (v + a), s') \<and>
      (\<forall>k'. rd_get rd k' s' = (if k' = k then Some (dec_int (v + a)) else rd_get rd k' s))"
    and "rd_tonumber rd (dec_int v) = Some (f64_of_int v)"
    and "f64_exact v \<Longrightarrow> rd_tostring rd (f64_of_int v) = dec_int v"
    and "in_i64 v \<Longrightarrow> rd_integer rd (dec_int v) = Inr v"
  using assms unfolding redis_server_def by simp_all

lemma dec_int_0_1: "dec_int 0 = ''0''" "dec_int 1 = ''1''"
  by code_simp+

lemma lua_read_holds:
  assumes "redis_server rd" and "holds rd s k v"
  shows "lua_read rd k s = Some (f64_of_int v)"
proof -
  have zero: "rd_tonumber rd ''0'' = Some (f64_of_int 0)"
    using redis_serverD(5) [OF assms(1), of 0] by (simp add: dec_int_0_1)
  show ?thesis
    using assms(2) redis_serverD(5) [OF assms(1), of v] zero by (auto simp: holds_def lua_read_def)
qed

lemma lua_over_exact:
  assumes "f64_exact l" and "f64_exact v" and "f64_exact a" and "f64_exact (v + a)"
  shows "lua_over (Some (f64_of_int l)) (Some (f64_of_int v)) (Some (f64_of_int a)) = Some (over_limit l (v + a))"
proof -
  have "f64_exact 0" by (simp add: f64_exact_def)
  with assms show ?thesis
    by (simp add: lua_over_def over_limit_def f64_of_int_le f64_of_int_add f64_of_int_lt)
qed

lemma incr_all_ok:
  assumes "redis_server rd" and "distinct (map fst kas)"
    and "\<forall>(k, a) \<in> set kas. holds rd s k (u k) \<and> in_i64 (u k + a)"
  shows "\<exists>s'. incr_all rd (map (\<lambda>(k, a). (k, dec_int a)) kas) s = (Inr (), s') \<and>
    (\<forall>k. rd_get rd k s' = (case map_of kas k of Some a \<Rightarrow> Some (dec_int (u k + a)) | None \<Rightarrow> rd_get rd k s))"
  using assms(2,3)
proof (induction kas arbitrary: s)
  case Nil
  show ?case by simp
next
  case (Cons ka kas)
  obtain k a where ka: "ka = (k, a)" by (cases ka)
  with Cons.prems obtain s1 where s1: "rd_incrby rd k (dec_int a) s = (Inr (u k + a), s1)"
    "\<And>k'. rd_get rd k' s1 = (if k' = k then Some (dec_int (u k + a)) else rd_get rd k' s)"
    using redis_serverD(4) [OF assms(1), of s k "u k" a] by auto
  have "\<forall>(k', a') \<in> set kas. holds rd s1 k' (u k') \<and> in_i64 (u k' + a')"
  proof clarify
    fix k' a'
    assume m: "(k', a') \<in> set kas"
    then have "k' \<noteq> k" using Cons.prems(1) by (auto simp: ka dest: in_set_zipE intro: rev_image_eqI)
    with m Cons.prems(2) s1(2) show "holds rd s1 k' (u k') \<and> in_i64 (u k' + a')" by (auto simp: ka holds_def)
  qed
  moreover have "distinct (map fst kas)" using Cons.prems(1) by simp
  ultimately obtain s' where "incr_all rd (map (\<lambda>(k, a). (k, dec_int a)) kas) s1 = (Inr (), s')"
    "\<And>k'. rd_get rd k' s' = (case map_of kas k' of Some a' \<Rightarrow> Some (dec_int (u k' + a')) | None \<Rightarrow> rd_get rd k' s1)"
    using Cons.IH [of s1] by blast
  moreover have "map_of kas k = None" using Cons.prems by (simp add: ka map_of_eq_None_iff)
  ultimately show ?case using s1 by (auto simp: ka split: option.split)
qed

lemma get_fold_expire:
  assumes "redis_server rd" and "0 < n"
  shows "rd_get rd k (fold (\<lambda>k. rd_expire rd k (dec_int n)) ks s) = rd_get rd k s"
  by (induction ks arbitrary: s) (simp_all add: redis_serverD(3) [OF assms])

section \<open>Beside the in-memory store\<close>

text \<open>The keys of reservations, and when a server agrees with an in-memory store and a set of open reservations.\<close>

definition rsv_family :: "string \<Rightarrow> bool" where
  "rsv_family k \<longleftrightarrow> strip_prefix ''fwllm:rsv:'' k \<noteq> None"

definition agrees :: "'s redis \<Rightarrow> 's \<Rightarrow> mem_store \<Rightarrow> string set \<Rightarrow> bool" where
  "agrees rd s m opened \<longleftrightarrow>
     (\<forall>k. \<not> rsv_family k \<longrightarrow> holds rd s k (Metering_Store.count (counters m) k)) \<and>
     (\<forall>k. rsv_family k \<longrightarrow> (rd_get rd k s = Some ''settled'' \<longleftrightarrow> k \<in> settled m) \<and>
        (rd_get rd k s = Some ''open'' \<longleftrightarrow> k \<in> opened))"

text \<open>An admission whose numbers a Lua number holds exactly.\<close>

definition exact_op :: "(string \<Rightarrow> int) \<Rightarrow> admit_op \<Rightarrow> bool" where
  "exact_op used req \<longleftrightarrow>
     distinct (op_keys req) \<and> list_all (\<lambda>k. \<not> rsv_family k) (op_keys req) \<and> rsv_family (op_reservation_key req) \<and>
     0 < reservation_ttl_secs req \<and> 0 < op_bucket_ttl_secs req \<and>
     list_all f64_exact [op_reserve req, c_tokens_limit req, c_req_limit req, p_tokens_limit req] \<and>
     list_all (\<lambda>k. f64_exact (used k) \<and> f64_exact (used k + op_amount req k)) (op_keys req)"

lemma f64_exact_i64: "f64_exact n \<Longrightarrow> in_i64 n"
  unfolding f64_exact_def in_i64_def i64_min_def i64_max_def by linarith

lemma exact_op_fits: "exact_op used req \<Longrightarrow> op_fits used req"
  by (auto simp: exact_op_def op_fits_def list_all_iff f64_exact_i64)

lemma exact_op_sums:
  assumes "exact_op used req"
  shows "f64_exact (used (c_tokens_key req))" "f64_exact (used (c_tokens_key req) + op_reserve req)"
    and "f64_exact (used (c_req_key req))" "f64_exact (used (c_req_key req) + 1)"
    and "f64_exact (used (p_tokens_key req))" "f64_exact (used (p_tokens_key req) + op_reserve req)"
    and "f64_exact (op_reserve req)" "f64_exact (c_tokens_limit req)" "f64_exact (c_req_limit req)"
      "f64_exact (p_tokens_limit req)" "f64_exact 1"
  using assms op_amount_req [of req] by (auto simp: exact_op_def op_keys_def op_amount_tokens f64_exact_def)

text \<open>The decision of the script.\<close>

definition redis_denial :: "(string \<Rightarrow> int) \<Rightarrow> admit_op \<Rightarrow> string option" where
  "redis_denial used req =
     (if over_limit (c_tokens_limit req) (used (c_tokens_key req) + op_reserve req) then Some ''tokens''
      else if over_limit (c_req_limit req) (used (c_req_key req) + 1) then Some ''requests''
      else if over_limit (p_tokens_limit req) (used (p_tokens_key req) + op_reserve req) then Some ''provider_tokens''
      else None)"

lemma redis_denial_None: "redis_denial used req = None \<longleftrightarrow> admits used req"
  by (auto simp: redis_denial_def admits_def)

lemma redis_denial_scope:
  "redis_denial used req = Some scope \<Longrightarrow> scope \<in> {''tokens'', ''requests'', ''provider_tokens''}"
  by (auto simp: redis_denial_def split: if_splits)

lemma admit_script_decides:
  assumes "redis_server rd" and "exact_op used req"
    and "\<And>k. k \<in> set (op_keys req) \<Longrightarrow> holds rd s k (used k)"
  shows "admit_script rd req s =
    (case redis_denial used req of Some scope \<Rightarrow> (Inr scope, s)
     | None \<Rightarrow> admit_writes rd req (f64_of_int (op_reserve req)) s)"
proof -
  note e = exact_op_sums [OF assms(2)]
  have r: "lua_read rd k s = Some (f64_of_int (used k))" if "k \<in> set (op_keys req)" for k
    using lua_read_holds [OF assms(1)] assms(3) that by blast
  have "lua_read rd (c_tokens_key req) s = Some (f64_of_int (used (c_tokens_key req)))"
    "lua_read rd (c_req_key req) s = Some (f64_of_int (used (c_req_key req)))"
    "lua_read rd (p_tokens_key req) s = Some (f64_of_int (used (p_tokens_key req)))"
    using r by (simp_all add: op_keys_def)
  then show ?thesis
    by (simp add: admit_script_def redis_denial_def redis_serverD(5) [OF assms(1)] lua_over_exact e)
qed

lemma admit_writes_ok:
  assumes "redis_server rd" and "exact_op used req"
    and "\<And>k. k \<in> set (op_keys req) \<Longrightarrow> holds rd s k (used k)"
  shows "\<exists>s'. admit_writes rd req (f64_of_int (op_reserve req)) s = (Inr ''ok'', s') \<and>
    (\<forall>k. rd_get rd k s' =
       (if k = op_reservation_key req then Some ''open''
        else if k \<in> set (op_keys req) then Some (dec_int (charged used req k)) else rd_get rd k s))"
proof -
  define kas where "kas = [(c_tokens_key req, op_reserve req), (c_req_key req, 1), (p_tokens_key req, op_reserve req),
    (p_req_key req, 1), (m_tokens_key req, op_reserve req)]"
  have d: "distinct (op_keys req)" using assms(2) by (simp add: exact_op_def)
  have amount: "map_of kas k = (if k \<in> set (op_keys req) then Some (op_amount req k) else None)" for k
    using d by (auto simp: kas_def op_keys_def op_amount_def)
  have keys: "map fst kas = op_keys req" by (simp add: kas_def op_keys_def)
  have "\<forall>(k, a) \<in> set kas. holds rd s k (used k) \<and> in_i64 (used k + a)"
  proof clarify
    fix k a
    assume "(k, a) \<in> set kas"
    then have "map_of kas k = Some a" using d keys by simp
    then have k: "k \<in> set (op_keys req)" "a = op_amount req k" by (simp_all add: amount split: if_splits)
    with assms(2,3) show "holds rd s k (used k) \<and> in_i64 (used k + a)"
      by (auto simp: exact_op_def list_all_iff f64_exact_i64)
  qed
  with incr_all_ok [OF assms(1), of kas s used] d keys obtain s1 where
    s1: "incr_all rd (map (\<lambda>(k, a). (k, dec_int a)) kas) s = (Inr (), s1)"
      "\<And>k. rd_get rd k s1 = (case map_of kas k of Some a \<Rightarrow> Some (dec_int (used k + a)) | None \<Rightarrow> rd_get rd k s)"
    by auto
  have "rd_tostring rd (f64_of_int (op_reserve req)) = dec_int (op_reserve req)"
    by (rule redis_serverD(6) [OF assms(1) exact_op_sums(7) [OF assms(2)]])
  then have "[(c_tokens_key req, rd_tostring rd (f64_of_int (op_reserve req))), (c_req_key req, ''1''),
      (p_tokens_key req, rd_tostring rd (f64_of_int (op_reserve req))), (p_req_key req, ''1''),
      (m_tokens_key req, rd_tostring rd (f64_of_int (op_reserve req)))] = map (\<lambda>(k, a). (k, dec_int a)) kas"
    by (simp add: kas_def dec_int_0_1)
  with s1(1) have w: "incr_all rd [(c_tokens_key req, rd_tostring rd (f64_of_int (op_reserve req))), (c_req_key req, ''1''),
      (p_tokens_key req, rd_tostring rd (f64_of_int (op_reserve req))), (p_req_key req, ''1''),
      (m_tokens_key req, rd_tostring rd (f64_of_int (op_reserve req)))] s = (Inr (), s1)" by (simp only:)
  have "0 < int (op_bucket_ttl_secs req)" "0 < int (reservation_ttl_secs req)"
    using assms(2) by (simp_all add: exact_op_def)
  with s1(2) show ?thesis
    unfolding admit_writes_def Let_def w
    by (auto simp: redis_serverD(2) [OF assms(1)] get_fold_expire [OF assms(1)] amount charged_def)
qed

text \<open>Calls of the store, their answers, and a run on each store.\<close>

datatype store_call = Reserve_call admit_op | Settle_call settle_req | Get_call string | Incr_call string int

datatype answer = Admitted | Refused reserve_denied | Settled_as bool | Value int | Failed string

fun answer_of :: "(reserve_error + unit) \<Rightarrow> answer" where
  "answer_of (Inr u) = Admitted"
| "answer_of (Inl (Denied d)) = Refused d"
| "answer_of (Inl (Backend e)) = Failed e"

definition answered :: "('a \<Rightarrow> answer) \<Rightarrow> string + 'a \<Rightarrow> answer" where
  "answered f r = (case r of Inl e \<Rightarrow> Failed e | Inr x \<Rightarrow> f x)"

fun perform :: "'s store_ops \<Rightarrow> store_call \<Rightarrow> 's \<Rightarrow> answer \<times> 's" where
  "perform ops (Reserve_call req) s = apfst answer_of (st_reserve ops req s)"
| "perform ops (Settle_call q) s = apfst (answered Settled_as) (st_settle ops q s)"
| "perform ops (Get_call k) s = apfst (answered Value) (st_get ops k s)"
| "perform ops (Incr_call k a) s = apfst (answered Value) (st_incr ops k a s)"

fun store_run :: "'s store_ops \<Rightarrow> store_call list \<Rightarrow> 's \<Rightarrow> answer list \<times> 's" where
  "store_run ops [] s = ([], s)"
| "store_run ops (c # cs) s =
     (let (a, s1) = perform ops c s; (as, s2) = store_run ops cs s1 in (a # as, s2))"

text \<open>
  The answers of Redis beside those of the in-memory store: they are the same, but when an admission
  fits neither the token nor the request quota of its client, the script names the tokens and
  the in-memory store the requests.
\<close>

fun same_answer :: "store_call \<Rightarrow> mem_store \<Rightarrow> answer \<Rightarrow> answer \<Rightarrow> bool" where
  "same_answer (Reserve_call req) m a b =
     (if over_limit (c_tokens_limit req) (Metering_Store.count (counters m) (c_tokens_key req) + op_reserve req) \<and>
         over_limit (c_req_limit req) (Metering_Store.count (counters m) (c_req_key req) + 1)
      then a = Refused ClientTokens \<and> b = Refused ClientRequests else a = b)"
| "same_answer c m a b = (a = b)"

fun same_answers :: "store_call list \<Rightarrow> mem_store \<Rightarrow> answer list \<Rightarrow> answer list \<Rightarrow> bool" where
  "same_answers [] m as bs = (as = [] \<and> bs = [])"
| "same_answers (c # cs) m as bs =
     (case (as, bs) of
        (a # as', b # bs') \<Rightarrow> same_answer c m a b \<and> same_answers cs (snd (perform in_memory c m)) as' bs'
      | _ \<Rightarrow> False)"

lemma same_answer_eq: "same_answer c m a b \<Longrightarrow> b \<noteq> Refused ClientRequests \<Longrightarrow> a = b"
  by (cases c) (auto split: if_splits)

lemma same_answers_eq: "same_answers cs m as bs \<Longrightarrow> Refused ClientRequests \<notin> set bs \<Longrightarrow> as = bs"
proof (induction cs m as bs rule: same_answers.induct)
  case (2 c cs m as bs)
  then show ?case by (auto split: list.splits dest: same_answer_eq)
qed simp

text \<open>The open reservations after a call, and the calls whose numbers are exact.\<close>

fun opened_by :: "store_call \<Rightarrow> answer \<Rightarrow> string set \<Rightarrow> string set" where
  "opened_by (Reserve_call req) Admitted opened = insert (op_reservation_key req) opened"
| "opened_by (Settle_call q) a opened = opened - {sr_reservation_key q}"
| "opened_by c a opened = opened"

fun exact_call :: "store_call \<Rightarrow> mem_store \<Rightarrow> string set \<Rightarrow> bool" where
  "exact_call (Reserve_call req) m opened =
     (exact_op (Metering_Store.count (counters m)) req \<and> op_reservation_key req \<notin> settled m \<union> opened)"
| "exact_call (Settle_call q) m opened =
     (sr_reservation_key q \<in> settled m \<union> opened \<and> rsv_family (sr_reservation_key q) \<and> 0 < sr_bucket_ttl_secs q \<and>
      length (sr_token_keys q) = 3 \<and> distinct (sr_token_keys q) \<and> f64_exact (sr_delta q) \<and>
      list_all (\<lambda>k. \<not> rsv_family k \<and> f64_exact (Metering_Store.count (counters m) k) \<and>
        f64_exact (Metering_Store.count (counters m) k + sr_delta q)) (sr_token_keys q))"
| "exact_call (Get_call k) m opened = (\<not> rsv_family k \<and> in_i64 (Metering_Store.count (counters m) k))"
| "exact_call (Incr_call k a) m opened = (\<not> rsv_family k \<and> in_i64 (Metering_Store.count (counters m) k + a))"

fun exact_run :: "store_call list \<Rightarrow> mem_store \<Rightarrow> string set \<Rightarrow> bool" where
  "exact_run [] m opened = True"
| "exact_run (c # cs) m opened =
     (exact_call c m opened \<and>
      exact_run cs (snd (perform in_memory c m)) (opened_by c (fst (perform in_memory c m)) opened))"

lemma with_link_up [simp]:
  "rs_link st = [] \<Longrightarrow> with_link act st = (fst (act (rs_server st)), st\<lparr>rs_server := snd (act (rs_server st))\<rparr>)"
  by (cases st) (simp add: with_link_def split_beta)

lemma mem_reserve_decides:
  assumes "op_fits (Metering_Store.count (counters m)) req"
  shows "fst (mem_reserve req m) = Inr () \<longleftrightarrow> admits (Metering_Store.count (counters m)) req"
    and "fst (mem_reserve req m) \<noteq> Inr () \<Longrightarrow> \<exists>d. mem_reserve req m = (Inl (Denied d), m)"
proof -
  have denied: "denial_justified used req d \<Longrightarrow> \<not> admits used req" for used d
    by (cases d) (auto simp: admits_def)
  obtain r m' where r: "mem_reserve req m = (r, m')" by fastforce
  show "fst (mem_reserve req m) = Inr () \<longleftrightarrow> admits (Metering_Store.count (counters m)) req"
  proof (cases r)
    case (Inl e)
    with mem_reserve_denied [OF assms, of e m'] r denied show ?thesis by auto
  next
    case (Inr u)
    with mem_reserve_admits [OF assms, of u m'] r show ?thesis by simp
  qed
  show "fst (mem_reserve req m) \<noteq> Inr () \<Longrightarrow> \<exists>d. mem_reserve req m = (Inl (Denied d), m)"
    using mem_reserve_denied [OF assms, of _ m'] r by (cases r) auto
qed

lemma mem_denial:
  assumes "op_fits (Metering_Store.count (counters m)) req" and "\<not> admits (Metering_Store.count (counters m)) req"
  shows "mem_reserve req m = (Inl (Denied
    (if over_limit (c_req_limit req) (Metering_Store.count (counters m) (c_req_key req) + 1) then ClientRequests
     else if over_limit (c_tokens_limit req) (Metering_Store.count (counters m) (c_tokens_key req) + op_reserve req)
     then ClientTokens else ProviderTokens)), m)"
  using assms(2) op_fits_sums [OF assms(1)] by (auto simp: mem_reserve_def admits_def over_limit_def Let_def)

lemma agreesD:
  assumes "agrees rd s m opened"
  shows "\<not> rsv_family k \<Longrightarrow> holds rd s k (Metering_Store.count (counters m) k)"
    and "rsv_family k \<Longrightarrow> rd_get rd k s = Some ''settled'' \<longleftrightarrow> k \<in> settled m"
    and "rsv_family k \<Longrightarrow> rd_get rd k s = Some ''open'' \<longleftrightarrow> k \<in> opened"
  using assms by (auto simp: agrees_def)

lemma reserve_agrees:
  assumes rd: "redis_server rd" and a: "agrees rd (rs_server st) m opened" and up: "rs_link st = []"
    and x: "exact_call (Reserve_call req) m opened"
    and c: "perform (redis_store rd) (Reserve_call req) st = (ans, st')"
    and d: "perform in_memory (Reserve_call req) m = (ans', m')"
  shows "same_answer (Reserve_call req) m ans ans' \<and> opened_by (Reserve_call req) ans' opened = opened_by (Reserve_call req) ans opened \<and>
    rs_link st' = [] \<and> agrees rd (rs_server st') m' (opened_by (Reserve_call req) ans opened)"
proof -
  let ?used = "Metering_Store.count (counters m)"
  have e: "exact_op ?used req" and fresh: "op_reservation_key req \<notin> settled m \<union> opened" using x by auto
  have fits: "op_fits ?used req" using e by (rule exact_op_fits)
  have family: "rsv_family (op_reservation_key req)" "\<And>k. k \<in> set (op_keys req) \<Longrightarrow> \<not> rsv_family k"
    using e by (auto simp: exact_op_def list_all_iff)
  have h: "\<And>k. k \<in> set (op_keys req) \<Longrightarrow> holds rd (rs_server st) k (?used k)"
    using family(2) agreesD(1) [OF a] by blast
  note script = admit_script_decides [OF rd e h]
  show ?thesis
  proof (cases "admits ?used req")
    case False
    then obtain scope where scope: "redis_denial ?used req = Some scope"
      using redis_denial_None [of ?used req] by auto
    define dn where "dn = (if over_limit (c_req_limit req) (?used (c_req_key req) + 1) then ClientRequests
       else if over_limit (c_tokens_limit req) (?used (c_tokens_key req) + op_reserve req)
       then ClientTokens else ProviderTokens)"
    have mem: "mem_reserve req m = (Inl (Denied dn), m)" unfolding dn_def by (rule mem_denial [OF fits False])
    have "ans = answer_of (reserve_reply (Inr scope))" "st' = st" "m' = m" "ans' = Refused dn"
      using c d scope script up mem by (simp_all add: redis_store_def in_memory_def redis_reserve_def)
    then show ?thesis
      using scope False up a by (auto simp: dn_def redis_denial_def reserve_reply_def admits_def split: if_splits)
  next
    case True
    then have "redis_denial ?used req = None" by (simp add: redis_denial_None)
    with admit_writes_ok [OF rd e h] script obtain s' where s': "admit_script rd req (rs_server st) = (Inr ''ok'', s')"
      "\<And>k. rd_get rd k s' = (if k = op_reservation_key req then Some ''open''
        else if k \<in> set (op_keys req) then Some (dec_int (charged ?used req k)) else rd_get rd k (rs_server st))"
      by auto
    have "fst (mem_reserve req m) = Inr ()" using True mem_reserve_decides(1) [OF fits] by simp
    then obtain m1 where m1: "mem_reserve req m = (Inr (), m1)" by (cases "mem_reserve req m") auto
    from mem_reserve_charges [OF fits m1] have
      m1': "Metering_Store.count (counters m1) = charged ?used req" "settled m1 = settled m" by auto
    have amount: "k \<notin> set (op_keys req) \<Longrightarrow> charged ?used req k = ?used k" for k
      by (auto simp: charged_def op_amount_def op_keys_def)
    have "agrees rd s' m1 (insert (op_reservation_key req) opened)"
      unfolding agrees_def
    proof (intro conjI allI impI)
      fix k
      assume k: "\<not> rsv_family k"
      then have "k \<noteq> op_reservation_key req" using family(1) by auto
      with k amount [of k] agreesD(1) [OF a k] show "holds rd s' k (Metering_Store.count (counters m1) k)"
        by (auto simp: s'(2) m1' holds_def)
    next
      fix k
      assume k: "rsv_family k"
      then have n: "k \<notin> set (op_keys req)" using family(2) by blast
      show "rd_get rd k s' = Some ''settled'' \<longleftrightarrow> k \<in> settled m1"
        using n agreesD(2) [OF a k] fresh by (auto simp: s'(2) m1')
      show "rd_get rd k s' = Some ''open'' \<longleftrightarrow> k \<in> insert (op_reservation_key req) opened"
        using n agreesD(3) [OF a k] by (auto simp: s'(2))
    qed
    with c d s'(1) m1 up True show ?thesis
      by (auto simp: redis_store_def in_memory_def redis_reserve_def reserve_reply_def admits_def)
  qed
qed

lemma settle_all_ok:
  assumes "redis_server rd" and "0 < n" and "distinct ks" and "f64_exact d"
    and "\<forall>k \<in> set ks. holds rd s k (u k) \<and> f64_exact (u k) \<and> f64_exact (u k + d)"
  shows "\<exists>s'. settle_all rd (Some (f64_of_int d)) (dec_int n) ks s = (Inr True, s') \<and>
    (\<forall>k. rd_get rd k s' = (if k \<in> set ks then Some (dec_int (max 0 (u k + d))) else rd_get rd k s))"
  using assms(3,5)
proof (induction ks arbitrary: s)
  case Nil
  show ?case by simp
next
  case (Cons k ks)
  have e: "f64_exact (u k)" "f64_exact (u k + d)" "f64_exact 0" and h: "holds rd s k (u k)"
    using Cons.prems(2) by (simp_all add: f64_exact_def)
  define v where "v = f64_add (f64_of_int (u k)) (f64_of_int d)"
  have v: "(if f64_lt v (f64_of_int 0) then f64_of_int 0 else v) = f64_of_int (max 0 (u k + d))"
    using e assms(4) by (auto simp: v_def f64_of_int_add f64_of_int_lt max_def)
  have "f64_exact (max 0 (u k + d))" using e by (simp add: max_def)
  then have tx: "rd_tostring rd (f64_of_int (max 0 (u k + d))) = dec_int (max 0 (u k + d))"
    by (rule redis_serverD(6) [OF assms(1)])
  define s1 where "s1 = rd_set rd k (dec_int (max 0 (u k + d))) (Expires (dec_int n)) s"
  have s1: "rd_get rd k' s1 = (if k' = k then Some (dec_int (max 0 (u k + d))) else rd_get rd k' s)" for k'
    unfolding s1_def by (rule redis_serverD(2) [OF assms(1,2)])
  have "\<forall>k' \<in> set ks. holds rd s1 k' (u k') \<and> f64_exact (u k') \<and> f64_exact (u k' + d)"
  proof
    fix k'
    assume "k' \<in> set ks"
    with Cons.prems s1 [of k'] show "holds rd s1 k' (u k') \<and> f64_exact (u k') \<and> f64_exact (u k' + d)"
      by (auto simp: holds_def)
  qed
  moreover have "distinct ks" using Cons.prems(1) by simp
  ultimately obtain s' where s': "settle_all rd (Some (f64_of_int d)) (dec_int n) ks s1 = (Inr True, s')"
    "\<And>k'. rd_get rd k' s' = (if k' \<in> set ks then Some (dec_int (max 0 (u k' + d))) else rd_get rd k' s1)"
    using Cons.IH [of s1] by blast
  have "settle_all rd (Some (f64_of_int d)) (dec_int n) (k # ks) s = (Inr True, s')"
    using s'(1) by (simp only: settle_all.simps lua_read_holds [OF assms(1) h] prod.case option.case Let_def
        v_def [symmetric] v tx s1_def)
  with s' s1 Cons.prems(1) show ?case by auto
qed

lemma settle_agrees:
  assumes rd: "redis_server rd" and a: "agrees rd (rs_server st) m opened" and up: "rs_link st = []"
    and x: "exact_call (Settle_call q) m opened"
    and c: "perform (redis_store rd) (Settle_call q) st = (ans, st')"
    and d: "perform in_memory (Settle_call q) m = (ans', m')"
  shows "ans' = ans \<and> rs_link st' = [] \<and> agrees rd (rs_server st') m' (opened_by (Settle_call q) ans opened)"
proof -
  let ?u = "Metering_Store.count (counters m)" and ?k = "sr_reservation_key q" and ?s = "rs_server st"
  from x have k: "rsv_family ?k" "?k \<in> settled m \<union> opened" and ks: "take 3 (sr_token_keys q) = sr_token_keys q"
    "distinct (sr_token_keys q)" "\<And>k. k \<in> set (sr_token_keys q) \<Longrightarrow> \<not> rsv_family k"
    by (auto simp: list_all_iff)
  show ?thesis
  proof (cases "?k \<in> settled m")
    case True
    then have g: "rd_get rd ?k ?s = Some ''settled''" using agreesD(2) [OF a k(1)] by simp
    then have "?k \<notin> opened" using agreesD(3) [OF a k(1)] by auto
    with g True c d up a show ?thesis
      by (auto simp: redis_store_def in_memory_def redis_settle_def settle_script_def mem_settle_def answered_def)
  next
    case False
    with k(2) have g: "rd_get rd ?k ?s = Some ''open''" using agreesD(3) [OF a k(1)] by simp
    define s1 where "s1 = rd_set rd ?k ''settled'' KEEPTTL ?s"
    have s1: "rd_get rd k' s1 = (if k' = ?k then Some ''settled'' else rd_get rd k' ?s)" for k'
      unfolding s1_def by (rule redis_serverD(1) [OF rd])
    have "\<forall>k \<in> set (sr_token_keys q). holds rd s1 k (?u k) \<and> f64_exact (?u k) \<and> f64_exact (?u k + sr_delta q)"
    proof
      fix k'
      assume k': "k' \<in> set (sr_token_keys q)"
      then have "k' \<noteq> ?k" using ks(3) k(1) by blast
      with k' ks(3) x agreesD(1) [OF a] s1 [of k']
      show "holds rd s1 k' (?u k') \<and> f64_exact (?u k') \<and> f64_exact (?u k' + sr_delta q)"
        by (auto simp: holds_def list_all_iff)
    qed
    moreover have "0 < int (sr_bucket_ttl_secs q)" "f64_exact (sr_delta q)" using x by auto
    ultimately obtain s' where s': "settle_all rd (Some (f64_of_int (sr_delta q)))
        (dec_int (int (sr_bucket_ttl_secs q))) (sr_token_keys q) s1 = (Inr True, s')"
      "\<And>k. rd_get rd k s' = (if k \<in> set (sr_token_keys q) then Some (dec_int (max 0 (?u k + sr_delta q))) else rd_get rd k s1)"
      using settle_all_ok [OF rd _ ks(2)] by blast
    have "settle_script rd q ?s = (Inr True, s')"
      using g s'(1) by (simp add: settle_script_def ks(1) redis_serverD(5) [OF rd] s1_def)
    moreover have "mem_settle q m = (Inr True, m\<lparr>settled := insert ?k (settled m),
        counters := settle_keys (sr_delta q) (sr_token_keys q) (counters m)\<rparr>)" (is "_ = (_, ?m)")
      using False by (simp add: mem_settle_def)
    moreover have "agrees rd s' ?m (opened - {?k})"
      unfolding agrees_def
    proof (intro conjI allI impI)
      fix k'
      assume k': "\<not> rsv_family k'"
      have "k' \<in> set (sr_token_keys q) \<Longrightarrow> i64_add (?u k') (sr_delta q) = ?u k' + sr_delta q"
        using x by (auto simp: list_all_iff intro!: i64_add_exact f64_exact_i64)
      with k' k(1) agreesD(1) [OF a k'] show "holds rd s' k' (Metering_Store.count (counters ?m) k')"
        by (auto simp: s'(2) s1 count_settle_keys [OF ks(2)] holds_def)
    next
      fix k'
      assume k': "rsv_family k'"
      then have n: "k' \<notin> set (sr_token_keys q)" using ks(3) by blast
      show "rd_get rd k' s' = Some ''settled'' \<longleftrightarrow> k' \<in> settled ?m"
        using n agreesD(2) [OF a k'] by (auto simp: s'(2) s1)
      show "rd_get rd k' s' = Some ''open'' \<longleftrightarrow> k' \<in> opened - {?k}"
        using n agreesD(3) [OF a k'] by (auto simp: s'(2) s1)
    qed
    ultimately show ?thesis
      using c d up by (auto simp: redis_store_def in_memory_def redis_settle_def answered_def)
  qed
qed

lemma get_agrees:
  assumes "redis_server rd" and a: "agrees rd (rs_server st) m opened" and "rs_link st = []"
    and x: "exact_call (Get_call k) m opened" and "perform (redis_store rd) (Get_call k) st = (ans, st')"
    and "perform in_memory (Get_call k) m = (ans', m')"
  shows "ans' = ans \<and> rs_link st' = [] \<and> agrees rd (rs_server st') m' opened"
proof -
  have "holds rd (rs_server st) k (Metering_Store.count (counters m) k)" using x agreesD(1) [OF a] by simp
  with assms redis_serverD(7) [OF assms(1), of "Metering_Store.count (counters m) k"] show ?thesis
    by (auto simp: redis_store_def in_memory_simps redis_get_def answered_def holds_def)
qed

lemma incr_agrees:
  assumes "redis_server rd" and a: "agrees rd (rs_server st) m opened" and "rs_link st = []"
    and x: "exact_call (Incr_call k n) m opened" and "perform (redis_store rd) (Incr_call k n) st = (ans, st')"
    and "perform in_memory (Incr_call k n) m = (ans', m')"
  shows "ans' = ans \<and> rs_link st' = [] \<and> agrees rd (rs_server st') m' opened"
proof -
  let ?v = "Metering_Store.count (counters m) k"
  from x have k: "\<not> rsv_family k" "in_i64 (?v + n)" by simp_all
  obtain s' where s': "rd_incrby rd k (dec_int n) (rs_server st) = (Inr (?v + n), s')"
    "\<And>k'. rd_get rd k' s' = (if k' = k then Some (dec_int (?v + n)) else rd_get rd k' (rs_server st))"
    using redis_serverD(4) [OF assms(1) agreesD(1) [OF a k(1)] k(2)] by blast
  have "i64_add ?v n = ?v + n" using k(2) by (rule i64_add_exact)
  then have "agrees rd s' (m\<lparr>counters := bump k n (counters m)\<rparr>) opened"
    using a k(1) s'(2) by (auto simp: agrees_def holds_def)
  with assms s'(1) \<open>i64_add ?v n = ?v + n\<close> show ?thesis
    by (auto simp: redis_store_def in_memory_simps redis_incr_def answered_def)
qed

lemma call_agrees:
  assumes "redis_server rd" and "agrees rd (rs_server st) m opened" and "rs_link st = []" and "exact_call c m opened"
    and "perform (redis_store rd) c st = (ans, st')" and "perform in_memory c m = (ans', m')"
  shows "same_answer c m ans ans' \<and> opened_by c ans' opened = opened_by c ans opened \<and>
    rs_link st' = [] \<and> agrees rd (rs_server st') m' (opened_by c ans opened)"
proof (cases c)
  case (Reserve_call req)
  show ?thesis unfolding Reserve_call by (rule reserve_agrees [OF assms(1-3) assms(4-6) [unfolded Reserve_call]])
next
  case (Settle_call q)
  from settle_agrees [OF assms(1-3) assms(4-6) [unfolded Settle_call]] show ?thesis by (simp add: Settle_call)
next
  case (Get_call k)
  from get_agrees [OF assms(1-3) assms(4-6) [unfolded Get_call]] show ?thesis by (simp add: Get_call)
next
  case (Incr_call k n)
  from incr_agrees [OF assms(1-3) assms(4-6) [unfolded Incr_call]] show ?thesis by (simp add: Incr_call)
qed

lemma run_agrees:
  assumes "redis_server rd" and "agrees rd (rs_server st) m opened" and "rs_link st = []" and "exact_run calls m opened"
  shows "same_answers calls m (fst (store_run (redis_store rd) calls st)) (fst (store_run in_memory calls m)) \<and>
    (\<forall>k. \<not> rsv_family k \<longrightarrow> holds rd (rs_server (snd (store_run (redis_store rd) calls st))) k
       (Metering_Store.count (counters (snd (store_run in_memory calls m))) k))"
  using assms(2-4)
proof (induction calls arbitrary: st m opened)
  case Nil
  then show ?case by (simp add: agrees_def)
next
  case (Cons c calls)
  obtain a st1 where a: "perform (redis_store rd) c st = (a, st1)" by fastforce
  obtain a' m1 where a': "perform in_memory c m = (a', m1)" by fastforce
  have "same_answer c m a a' \<and> opened_by c a' opened = opened_by c a opened \<and>
      rs_link st1 = [] \<and> agrees rd (rs_server st1) m1 (opened_by c a opened)"
    using call_agrees [OF assms(1) Cons.prems(1,2) _ a a'] Cons.prems(3) by simp
  with Cons.IH [of st1 m1 "opened_by c a opened"] Cons.prems(3) a a' show ?case
    by (simp add: split_beta Let_def)
qed

lemma bucket_families:
  "\<not> rsv_family (c_tokens_of c d)" "\<not> rsv_family (c_req_of c d)" "\<not> rsv_family (p_tokens_of p d)"
  "\<not> rsv_family (p_req_of p d)" "\<not> rsv_family (m_tokens_of m d)" "rsv_family (rsv_key i)"
  by (simp_all add: rsv_family_def key_defs)

text \<open>A fault leaves the server as it was, or as the operation without the fault leaves it.\<close>

lemma with_link_server:
  "rs_server (snd (with_link act st)) = rs_server st \<or>
   rs_server (snd (with_link act st)) = snd (act (rs_server st))"
  by (auto simp: with_link_def split_beta Let_def split: list.split fault.split)

lemma with_link_answer:
  "fst (with_link act st) = Inr x \<Longrightarrow> fst (act (rs_server st)) = Inr x \<and>
     rs_server (snd (with_link act st)) = snd (act (rs_server st))"
  by (auto simp: with_link_def split_beta Let_def split: list.splits fault.splits)

section \<open>Properties\<close>

text \<open>
  C4: (Redis does what the in-memory store does) From a server that agrees with an in-memory store, a
  sequence of admissions, settlements, reads and increments with exact numbers gets the same answers
  through the Lua scripts as from the in-memory store, a denial with the same reason, and leaves
  every bucket with the same count.  The one difference: an admission that fits neither the token nor
  the request quota of its client is denied for the tokens by Redis and for the requests in memory.
\<close>

theorem redis_refines_memory:
  assumes "redis_server rd" and "agrees rd (rs_server st) m opened" and "rs_link st = []" and "exact_run calls m opened"
  shows "same_answers calls m (fst (store_run (redis_store rd) calls st)) (fst (store_run in_memory calls m)) \<and>
    (\<forall>k. \<not> rsv_family k \<longrightarrow> holds rd (rs_server (snd (store_run (redis_store rd) calls st))) k
       (Metering_Store.count (counters (snd (store_run in_memory calls m))) k))"
  by (rule run_agrees [OF assms])

text \<open>
  C34: (A late settlement is dropped) A reservation that is no longer open on the server, because its ten
  minutes are over, is settled without any effect, whatever the request used; the in-memory store
  would have charged it.
\<close>

theorem late_settlement_dropped:
  assumes "rs_link st = []" and "rd_get rd (rsv_key (rsv_id r)) (rs_server st) \<noteq> Some ''open''"
    and "rsv_key (rsv_id r) \<notin> settled m" and "k \<in> set (token_keys now r)"
  shows "rs_server (settle (redis_store rd) now r prompt completion st) = rs_server st \<and>
    Metering_Store.count (counters (settle in_memory now r prompt completion m)) k =
      max 0 (i64_add (Metering_Store.count (counters m) k) (i64_sub (i64_add prompt completion) (reserved_total r)))"
  using assms
  by (simp add: settle_def settle_request_def redis_store_def redis_settle_def settle_script_def in_memory_def
      mem_settle_def count_settle_keys)

section \<open>Witnesses\<close>

text \<open>A keyspace with a clock: a value and the second at which it expires.\<close>

record keyspace =
  kv_now :: nat
  kv_map :: "(string, string \<times> nat option) hmap"

definition int_of_text :: "string \<Rightarrow> int" where
  "int_of_text t =
     (case t of [] \<Rightarrow> 0
      | c # r \<Rightarrow> if c = CHR ''-'' then - int (digits_value 0 r) else int (digits_value 0 t))"

definition kv_live :: "keyspace \<Rightarrow> string \<Rightarrow> (string \<times> nat option) option" where
  "kv_live s k =
     (case hget (kv_map s) k of
        Some (t, Some deadline) \<Rightarrow> if kv_now s < deadline then Some (t, Some deadline) else None
      | entry \<Rightarrow> entry)"

definition kv_get :: "string \<Rightarrow> keyspace \<Rightarrow> string option" where
  "kv_get k s = map_option fst (kv_live s k)"

definition kv_put :: "string \<Rightarrow> string \<Rightarrow> nat option \<Rightarrow> keyspace \<Rightarrow> keyspace" where
  "kv_put k t deadline s = s\<lparr>kv_map := hput k (t, deadline) (kv_map s)\<rparr>"

definition kv_deadline :: "string \<Rightarrow> keyspace \<Rightarrow> nat option" where
  "kv_deadline k s = (case kv_live s k of Some (t, d) \<Rightarrow> d | None \<Rightarrow> None)"

definition kv_redis :: "keyspace redis" where
  "kv_redis =
     \<lparr>rd_get = kv_get,
      rd_incrby = (\<lambda>k a s. let v = int_of_text (case kv_get k s of Some t \<Rightarrow> t | None \<Rightarrow> ''0'') + int_of_text a
        in (Inr v, kv_put k (dec_int v) (kv_deadline k s) s)),
      rd_expire = (\<lambda>k t s. case kv_get k s of None \<Rightarrow> s
        | Some x \<Rightarrow> kv_put k x (Some (kv_now s + nat (int_of_text t))) s),
      rd_set = (\<lambda>k x ttl s. kv_put k x
        (case ttl of KEEPTTL \<Rightarrow> kv_deadline k s | Expires t \<Rightarrow> Some (kv_now s + nat (int_of_text t))) s),
      rd_tonumber = (\<lambda>t. Some (f64_of_int (int_of_text t))),
      rd_tostring = (\<lambda>x. dec_int (f64_to_i64 x)),
      rd_integer = (\<lambda>t. Inr (int_of_text t)),
      rd_nil_error = ''attempt to perform arithmetic on a nil value''\<rparr>"

lemma dec_nat_ne_minus: "dec_nat n \<noteq> [] \<and> hd (dec_nat n) \<noteq> CHR ''-''"
proof (induction n rule: dec_nat.induct)
  case (1 n)
  have "n < 10 \<Longrightarrow> digit_char n \<noteq> CHR ''-''"
  proof
    assume "n < 10" and "digit_char n = CHR ''-''"
    then have "byte (CHR ''-'') = 48 + n" using byte_digit_char [of n] by simp
    then show False by (simp add: byte_def)
  qed
  with 1 show ?case by (subst (1 2) dec_nat.simps) (simp add: hd_append)
qed

lemma int_of_text_dec [simp]: "int_of_text (dec_int n) = n"
proof (cases "n < 0")
  case True
  then show ?thesis by (simp add: int_of_text_def dec_int_def digits_value_dec_nat)
next
  case False
  obtain c r where "dec_nat (nat n) = c # r" "c \<noteq> CHR ''-''"
    using dec_nat_ne_minus [of "nat n"] by (cases "dec_nat (nat n)") auto
  with False digits_value_dec_nat [of "nat n"] show ?thesis by (simp add: int_of_text_def dec_int_def del: digits_value.simps)
qed

lemma kv_get_put:
  "kv_get k' (kv_put k t d s) =
     (if k' = k then (if \<forall>x. d = Some x \<longrightarrow> kv_now s < x then Some t else None) else kv_get k' s)"
  by (auto simp: kv_get_def kv_put_def kv_live_def split: option.split)

lemma kv_deadline_live: "kv_deadline k s = Some d \<Longrightarrow> kv_now s < d"
  by (auto simp: kv_deadline_def kv_live_def split: option.splits if_splits)

lemma kv_server: "redis_server kv_redis"
  unfolding redis_server_def
proof (intro conjI allI impI)
  fix k a v s
  assume h: "holds kv_redis s k v" "in_i64 (v + a)"
  have "int_of_text ''0'' = 0" using int_of_text_dec [of 0] by (simp add: dec_int_0_1)
  with h(1) have "int_of_text (case kv_get k s of Some t \<Rightarrow> t | None \<Rightarrow> ''0'') = v"
    by (auto simp: holds_def kv_redis_def)
  then show "\<exists>s'. rd_incrby kv_redis k (dec_int a) s = (Inr (v + a), s') \<and>
      (\<forall>k'. rd_get kv_redis k' s' = (if k' = k then Some (dec_int (v + a)) else rd_get kv_redis k' s))"
    by (auto simp: kv_redis_def Let_def kv_get_put dest: kv_deadline_live)
qed (auto simp: kv_redis_def kv_get_put f64_of_int_to_i64 dest: kv_deadline_live split: option.split)

definition rd_metering :: metering where
  "rd_metering = \<lparr>mt_client_tokens = Some 100, mt_client_requests = Some 2, mt_provider_tokens = None,
     mt_fail_closed = True, mt_completion_reserve = 16\<rparr>"

definition rd_reservation :: reservation where
  "rd_reservation = new_reservation rd_metering 3 4 ''a'' ''p'' ''m'' 10 (Some 30)"

definition rd_too_big :: reservation where
  "rd_too_big = new_reservation rd_metering 5 6 ''a'' ''p'' ''m'' 10 (Some 300)"

definition rd_served :: "string \<Rightarrow> store_call list" where
  "rd_served day = [Reserve_call (admit_request rd_metering day rd_reservation), Get_call (c_tokens_of ''a'' day),
     Settle_call \<lparr>sr_reservation_key = rsv_key (rsv_id rd_reservation),
       sr_token_keys = [c_tokens_of ''a'' day, p_tokens_of ''p'' day, m_tokens_of ''m'' day],
       sr_delta = - 15, sr_bucket_ttl_secs = bucket_ttl_secs\<rparr>, Get_call (c_tokens_of ''a'' day)]"

definition rd_calls :: "string \<Rightarrow> store_call list" where
  "rd_calls day = Reserve_call (admit_request rd_metering day rd_too_big) # rd_served day"

definition kv_link :: "nat \<Rightarrow> (string, string \<times> nat option) hmap \<Rightarrow> keyspace redis_state" where
  "kv_link now m = \<lparr>rs_server = \<lparr>kv_now = now, kv_map = m\<rparr>, rs_link = []\<rparr>"

lemma rd_reservation_simps [simp]:
  "rsv_client rd_reservation = ''a''" "rsv_provider rd_reservation = ''p''" "rsv_model rd_reservation = ''m''"
  "reserved_total rd_reservation = 40"
  by (simp_all add: rd_reservation_def new_reservation_def reserved_total_def i64_add_exact in_i64_def i64_min_def i64_max_def)

lemma rd_too_big_simps [simp]:
  "rsv_client rd_too_big = ''a''" "rsv_provider rd_too_big = ''p''" "rsv_model rd_too_big = ''m''"
  "reserved_total rd_too_big = 310"
  by (simp_all add: rd_too_big_def new_reservation_def reserved_total_def i64_add_exact in_i64_def i64_min_def i64_max_def)

lemma rd_served_run:
  "store_run in_memory (rd_served day) mem_empty =
     ([Admitted, Value 40, Settled_as True, Value 25], snd (store_run in_memory (rd_served day) mem_empty))"
  "exact_run (rd_served day) mem_empty {}"
  by (simp_all add: rd_served_def in_memory_simps mem_reserve_def mem_settle_def admit_request_def rd_metering_def
      limit_arg_def mem_empty_def Let_def answered_def i64_add_exact in_i64_def i64_min_def i64_max_def
      exact_op_def op_keys_def op_amount_def bucket_families f64_exact_def rsv_ttl_secs_def bucket_ttl_secs_def
      Metering_Store.count_def bump_def)

lemma rd_refused:
  "perform in_memory (Reserve_call (admit_request rd_metering day rd_too_big)) mem_empty = (Refused ClientTokens, mem_empty)"
  "exact_call (Reserve_call (admit_request rd_metering day rd_too_big)) mem_empty {}"
  by (simp_all add: in_memory_def mem_reserve_def admit_request_def rd_metering_def limit_arg_def mem_empty_def
      i64_add_exact in_i64_def i64_min_def i64_max_def exact_op_def op_keys_def op_amount_def bucket_families
      f64_exact_def rsv_ttl_secs_def bucket_ttl_secs_def Metering_Store.count_def)

lemma rd_calls_run:
  "fst (store_run in_memory (rd_calls day) mem_empty) =
     [Refused ClientTokens, Admitted, Value 40, Settled_as True, Value 25]"
  "exact_run (rd_calls day) mem_empty {}"
  using arg_cong [OF rd_served_run(1), of fst day] rd_served_run(2) [of day] rd_refused [of day]
  by (simp_all add: rd_calls_def split_beta Let_def del: perform.simps exact_call.simps)

theorem redis_refines_memory_witness:
  "fst (store_run (redis_store kv_redis) (rd_calls ''2026-01-01'') (kv_link 0 [])) =
     [Refused ClientTokens, Admitted, Value 40, Settled_as True, Value 25]"
proof -
  have "agrees kv_redis (rs_server (kv_link 0 [])) mem_empty {}"
    by (simp add: agrees_def holds_def kv_redis_def kv_link_def kv_get_def kv_live_def mem_empty_def Metering_Store.count_def)
  moreover have "rs_link (kv_link 0 []) = []" by (simp add: kv_link_def)
  ultimately have "same_answers (rd_calls ''2026-01-01'') mem_empty
      (fst (store_run (redis_store kv_redis) (rd_calls ''2026-01-01'') (kv_link 0 [])))
      [Refused ClientTokens, Admitted, Value 40, Settled_as True, Value 25]"
    using redis_refines_memory [OF kv_server _ _ rd_calls_run(2), of "kv_link 0 []"] unfolding rd_calls_run(1) by blast
  then show ?thesis by (rule same_answers_eq) simp
qed

theorem late_settlement_dropped_witness:
  "\<exists>st. st = kv_link 600 [(rsv_key (rsv_id rd_reservation), (''open'', Some 600))] \<and>
     rs_server (settle (redis_store kv_redis) (f64_of_int 0) rd_reservation 1000 500000 st) = rs_server st \<and>
     Metering_Store.count (counters (settle in_memory (f64_of_int 0) rd_reservation 1000 500000 mem_empty))
       (c_tokens_of ''a'' (day_string (f64_of_int 0))) = 500960"
proof -
  let ?st = "kv_link 600 [(rsv_key (rsv_id rd_reservation), (''open'', Some 600))]"
  have "rd_get kv_redis (rsv_key (rsv_id rd_reservation)) (rs_server ?st) \<noteq> Some ''open''" "rs_link ?st = []"
    by (simp_all add: kv_redis_def kv_link_def kv_get_def kv_live_def)
  moreover have "c_tokens_of ''a'' (day_string (f64_of_int 0)) \<in> set (token_keys (f64_of_int 0) rd_reservation)"
    by (simp add: token_keys_def Let_def)
  ultimately show ?thesis
    using late_settlement_dropped [of ?st kv_redis rd_reservation mem_empty "c_tokens_of ''a'' (day_string (f64_of_int 0))" "f64_of_int 0" 1000 500000]
    by (simp add: mem_empty_def Metering_Store.count_def i64_add_exact i64_sub_def wrap64_def in_i64_def i64_min_def i64_max_def)
qed

end
