(* ===== verification/Json.thy ===== *)
theory Json
  imports F64
begin

text \<open>
  The JSON values of \<open>serde_json\<close> as the gateway uses them: the constructors of
  \<open>serde_json::Value\<close>, the accessors \<open>get\<close>, \<open>as_str\<close>, \<open>as_array\<close>, \<open>as_object\<close>,
  \<open>as_u64\<close>, indexing \<open>v["k"]\<close> for reading and for writing, and \<open>Map::insert\<close>.
  The workspace builds \<open>serde_json\<close> without \<open>preserve_order\<close>, so an object is a map
  ordered by key.  Writing JSON text (\<open>to_string\<close>) is the library's and appears in the
  model only as a parameter of the definitions that use it.
\<close>

datatype json =
    JNull
  | JBool bool
  | JPos nat       \<comment> \<open>a number that fits \<open>u64\<close>\<close>
  | JNeg int       \<comment> \<open>a negative number that fits \<open>i64\<close>\<close>
  | JFloat f64
  | JStr string
  | JArr "json list"
  | JObj "(string \<times> json) list"

type_synonym json_map = "(string \<times> json) list"

section \<open>Objects\<close>

fun obj_insert :: "string \<Rightarrow> json \<Rightarrow> json_map \<Rightarrow> json_map" where
  "obj_insert k v [] = [(k, v)]"
| "obj_insert k v ((k', v') # m) =
     (if k = k' then (k, v) # m
      else if k < k' then (k, v) # (k', v') # m
      else (k', v') # obj_insert k v m)"

definition obj_of :: "(string \<times> json) list \<Rightarrow> json_map" where
  "obj_of kvs = foldl (\<lambda>m (k, v). obj_insert k v m) [] kvs"

text \<open>\<open>map.entry(k).or_insert(v)\<close>.\<close>

definition obj_or_insert :: "string \<Rightarrow> json \<Rightarrow> json_map \<Rightarrow> json_map" where
  "obj_or_insert k v m = (if map_of m k = None then obj_insert k v m else m)"

lemma map_of_obj_insert [simp]: "map_of (obj_insert k v m) = (map_of m)(k \<mapsto> v)"
  by (induction k v m rule: obj_insert.induct) (auto simp: fun_upd_twist)

lemma set_obj_insert: "fst ` set (obj_insert k v m) = insert k (fst ` set m)"
  by (induction k v m rule: obj_insert.induct) auto

lemma sorted_obj_insert:
  "sorted_wrt (<) (map fst m) \<Longrightarrow> sorted_wrt (<) (map fst (obj_insert k v m))"
proof (induction k v m rule: obj_insert.induct)
  case (1 k v)
  show ?case by simp
next
  case (2 k v k' v' m)
  have "set (map fst (obj_insert k v m)) = insert k (set (map fst m))"
    using set_obj_insert [of k v m] by simp
  then show ?case
    using 2 by (auto simp del: set_map)
qed

lemma map_of_obj_or_insert:
  "map_of (obj_or_insert k v m) = (map_of m)(k \<mapsto> (case map_of m k of None \<Rightarrow> v | Some w \<Rightarrow> w))"
  by (auto simp: obj_or_insert_def split: option.split)

section \<open>Accessors\<close>

fun as_str :: "json \<Rightarrow> string option" where
  "as_str (JStr s) = Some s"
| "as_str _ = None"

fun as_array :: "json \<Rightarrow> json list option" where
  "as_array (JArr xs) = Some xs"
| "as_array _ = None"

fun as_object :: "json \<Rightarrow> json_map option" where
  "as_object (JObj m) = Some m"
| "as_object _ = None"

fun as_u64 :: "json \<Rightarrow> nat option" where
  "as_u64 (JPos n) = Some n"
| "as_u64 _ = None"

definition is_jstring :: "json \<Rightarrow> bool" where
  "is_jstring v \<longleftrightarrow> as_str v \<noteq> None"

definition is_jobject :: "json \<Rightarrow> bool" where
  "is_jobject v \<longleftrightarrow> as_object v \<noteq> None"

text \<open>\<open>v.get(k)\<close> for a string key: \<open>None\<close> unless \<open>v\<close> is an object.\<close>

definition jget :: "string \<Rightarrow> json \<Rightarrow> json option" where
  "jget k v = Option.bind (as_object v) (\<lambda>m. map_of m k)"

lemma jget_simps [simp]:
  "jget k (JObj m) = map_of m k" "jget k JNull = None" "jget k (JArr xs) = None"
  "jget k (JStr s) = None" "jget k (JBool b) = None" "jget k (JPos n) = None"
  "jget k (JNeg i) = None" "jget k (JFloat x) = None"
  by (simp_all add: jget_def)

text \<open>\<open>&v[k]\<close> and \<open>&v[i]\<close>: \<open>Null\<close> where there is nothing.\<close>

definition jindex :: "string \<Rightarrow> json \<Rightarrow> json" where
  "jindex k v = (case jget k v of Some w \<Rightarrow> w | None \<Rightarrow> JNull)"

definition jnth :: "nat \<Rightarrow> json \<Rightarrow> json" where
  "jnth i v = (case as_array v of Some xs \<Rightarrow> if i < length xs then xs ! i else JNull | None \<Rightarrow> JNull)"

text \<open>
  \<open>v[k] = w\<close>: an object gets the entry, \<open>Null\<close> becomes an object first, and any other
  value panics, which is \<open>None\<close>.
\<close>

fun jset :: "string \<Rightarrow> json \<Rightarrow> json \<Rightarrow> json option" where
  "jset k w (JObj m) = Some (JObj (obj_insert k w m))"
| "jset k w JNull = Some (JObj [(k, w)])"
| "jset k w _ = None"

lemma jset_Some_jget: "jset k w v = Some v' \<Longrightarrow> jget k v' = Some w"
  by (cases v) auto

lemma jset_other: "jset k w v = Some v' \<Longrightarrow> k' \<noteq> k \<Longrightarrow> jget k' v' = jget k' v"
  by (cases v) auto

section \<open>Texts of a message list\<close>

text \<open>\<open>filter_map(|m| m.get("content")?.as_str())\<close>, used for requests and replies.\<close>

definition content_of :: "json \<Rightarrow> string option" where
  "content_of m = Option.bind (jget ''content'' m) as_str"

definition contents_of :: "json list \<Rightarrow> string list" where
  "contents_of ms = List.map_filter content_of ms"

end
