(* ===== verification/Injection.thy ===== *)
theory Injection
  imports Json
begin

text \<open>
  \<open>fwllm-gateway/src/inspectors/injection.rs\<close> and the scoring half of \<open>ml.rs\<close>: the signature
  scan over a message list, the verdict over its findings, and the classifier inspector.  The
  regex engine is the parameter \<open>matches\<close> (does the pattern of a signature match a text), the
  JSON printer is \<open>to_text\<close>, and the ONNX classifier is \<open>predict\<close>.  The classifier's \<open>f32\<close>
  values are the \<open>f64\<close> values they embed into.
\<close>

type_synonym finding = "string \<times> string"

section \<open>Signatures\<close>

definition severity_order :: "(string \<times> nat) list" where
  "severity_order = [(''low'', 0), (''medium'', 1), (''high'', 2), (''critical'', 3)]"

definition rank :: "string \<Rightarrow> nat" where
  "rank s = (case find (\<lambda>(n, _). n = s) severity_order of Some (_, r) \<Rightarrow> r | None \<Rightarrow> 0)"

record sig =
  sig_name :: string
  sig_severity :: string

definition sigs :: "sig list" where
  "sigs = [\<lparr>sig_name = ''override_instructions'', sig_severity = ''critical''\<rparr>,
     \<lparr>sig_name = ''jailbreak_persona'', sig_severity = ''high''\<rparr>,
     \<lparr>sig_name = ''roleplay_probe'', sig_severity = ''medium''\<rparr>]"

text \<open>The texts of a message that are inspected: content, printed tool calls, name.\<close>

definition message_texts :: "(json \<Rightarrow> string) \<Rightarrow> json \<Rightarrow> string list" where
  "message_texts to_text m =
     (case Option.bind (jget ''content'' m) as_str of Some c \<Rightarrow> [c] | None \<Rightarrow> [])
     @ (case jget ''tool_calls'' m of Some t \<Rightarrow> [to_text t] | None \<Rightarrow> [])
     @ (case Option.bind (jget ''name'' m) as_str of Some n \<Rightarrow> [n] | None \<Rightarrow> [])"

fun scan_text :: "(string \<Rightarrow> string \<Rightarrow> bool) \<Rightarrow> string \<Rightarrow> sig list \<Rightarrow> finding list" where
  "scan_text matches tx [] = []"
| "scan_text matches tx (s # ss) =
     (if matches (sig_name s) tx then [(sig_name s, sig_severity s)] else []) @ scan_text matches tx ss"

definition scan :: "(string \<Rightarrow> string \<Rightarrow> bool) \<Rightarrow> (json \<Rightarrow> string) \<Rightarrow> json list \<Rightarrow> finding list" where
  "scan matches to_text messages =
     concat (map (\<lambda>m. concat (map (\<lambda>tx. scan_text matches tx sigs) (message_texts to_text m))) messages)"

fun best_finding :: "finding \<Rightarrow> finding list \<Rightarrow> finding" where
  "best_finding best [] = best"
| "best_finding best (f # fs) = best_finding (if rank (snd f) > rank (snd best) then f else best) fs"

definition verdict :: "finding list \<Rightarrow> string \<Rightarrow> finding option" where
  "verdict findings block_gte =
     (case findings of [] \<Rightarrow> None
      | f # fs \<Rightarrow>
          (let best = best_finding f fs in
           if rank (snd best) \<ge> rank block_gte then Some best else None))"

section \<open>The classifier\<close>

text \<open>\<open>x as f32\<close>: rounding to 24 significant bits, down to the multiples of \<open>2 ^ -149\<close>.\<close>

fun f32_of :: "f64 \<Rightarrow> f64" where
  "f32_of (Fin n) =
     (let k = max (nat (bitlen \<bar>n\<bar> - 24)) 925; m = round_even n k * 2 ^ k; top = (2 ^ 24 - 1) * 2 ^ 1178 in
      if m > top then PosInf else if m < - top then NegInf else Fin m)"
| "f32_of x = x"

text \<open>The literals \<open>0.9\<close>, \<open>0.8\<close> and \<open>0.7\<close> as \<open>f32\<close>, in units of \<open>2 ^ -24\<close>.\<close>

definition f32_lit :: "int \<Rightarrow> f64" where
  "f32_lit m = Fin (m * 2 ^ 1050)"

definition ml_severity :: "f64 \<Rightarrow> string" where
  "ml_severity conf =
     (if f64_ge conf (f32_lit 15099494) then ''critical''
      else if f64_ge conf (f32_lit 13421773) then ''high''
      else if f64_ge conf (f32_lit 11744051) then ''medium'' else ''low'')"

record ml_inspector =
  ml_predict :: "string \<Rightarrow> (string \<times> f64) option"
  ml_limit :: f64

text \<open>\<open>None\<close> is a panic of the prediction.\<close>

definition ml_scan :: "ml_inspector \<Rightarrow> string \<Rightarrow> finding option option" where
  "ml_scan ml tx =
     (case ml_predict ml tx of None \<Rightarrow> None
      | Some (label, conf) \<Rightarrow>
          Some (if label = ''benign'' \<or> f64_lt conf (ml_limit ml) then None
                else Some (''ml:injection'', ml_severity conf)))"

section \<open>Properties\<close>

lemma best_finding_in: "best_finding b fs \<in> insert b (set fs)"
  by (induction b fs rule: best_finding.induct) auto

lemma best_finding_bounds:
  "rank (snd b) \<le> rank (snd (best_finding b fs)) \<and>
   (\<forall>f \<in> set fs. rank (snd f) \<le> rank (snd (best_finding b fs)))"
proof (induction fs arbitrary: b)
  case (Cons g gs)
  let ?b = "if rank (snd g) > rank (snd b) then g else b"
  have "rank (snd b) \<le> rank (snd ?b)" "rank (snd g) \<le> rank (snd ?b)" by auto
  with Cons [of ?b] show ?case by (auto simp del: if_split intro: order_trans)
qed simp

lemma best_finding_max: "f \<in> insert b (set fs) \<Longrightarrow> rank (snd f) \<le> rank (snd (best_finding b fs))"
  using best_finding_bounds by blast

lemma scan_text_iff:
  "f \<in> set (scan_text matches tx ss) \<longleftrightarrow>
     (\<exists>s \<in> set ss. matches (sig_name s) tx \<and> f = (sig_name s, sig_severity s))"
  by (induction ss) auto

text \<open>Some inspected text of some message matches the signature.\<close>

definition signature_hit :: "(string \<Rightarrow> string \<Rightarrow> bool) \<Rightarrow> (json \<Rightarrow> string) \<Rightarrow> json list \<Rightarrow> sig \<Rightarrow> bool" where
  "signature_hit matches to_text ms s \<longleftrightarrow>
     (\<exists>m \<in> set ms. \<exists>tx \<in> set (message_texts to_text m). matches (sig_name s) tx)"

lemma scan_iff:
  "f \<in> set (scan matches to_text ms) \<longleftrightarrow>
     (\<exists>s \<in> set sigs. signature_hit matches to_text ms s \<and> f = (sig_name s, sig_severity s))"
  by (auto simp: scan_def scan_text_iff signature_hit_def)

lemma verdict_Some:
  "verdict fs gte = Some f \<Longrightarrow>
   f \<in> set fs \<and> rank gte \<le> rank (snd f) \<and> (\<forall>g \<in> set fs. rank (snd g) \<le> rank (snd f))"
  using best_finding_in [of "hd fs" "tl fs"] best_finding_max [of _ "hd fs" "tl fs"]
  by (auto simp: verdict_def Let_def split: list.splits if_splits)

lemma verdict_iff: "verdict fs gte \<noteq> None \<longleftrightarrow> (\<exists>g \<in> set fs. rank gte \<le> rank (snd g))"
proof (cases fs)
  case (Cons f fs')
  then have "verdict fs gte \<noteq> None \<longleftrightarrow> rank gte \<le> rank (snd (best_finding f fs'))"
    by (simp add: verdict_def Let_def)
  moreover have "set fs = insert f (set fs')" using Cons by simp
  ultimately show ?thesis
    using best_finding_in [of f fs'] best_finding_max [of _ f fs'] by (metis order_trans)
qed (simp add: verdict_def)

text \<open>
  (Verdict) The signature scan gives a verdict exactly when some text of some message matches
  a signature whose severity reaches the threshold; the verdict names a signature that matched,
  and no signature that matched is more severe.
\<close>

theorem scan_verdict:
  "(verdict (scan matches to_text ms) gte \<noteq> None \<longleftrightarrow>
      (\<exists>s \<in> set sigs. signature_hit matches to_text ms s \<and> rank gte \<le> rank (sig_severity s))) \<and>
   (\<forall>f. verdict (scan matches to_text ms) gte = Some f \<longrightarrow>
      (\<exists>s \<in> set sigs. signature_hit matches to_text ms s \<and> f = (sig_name s, sig_severity s)) \<and>
      (\<forall>s \<in> set sigs. signature_hit matches to_text ms s \<longrightarrow> rank (sig_severity s) \<le> rank (snd f)))"
proof (intro conjI allI impI)
  show "verdict (scan matches to_text ms) gte \<noteq> None \<longleftrightarrow>
      (\<exists>s \<in> set sigs. signature_hit matches to_text ms s \<and> rank gte \<le> rank (sig_severity s))"
    unfolding verdict_iff Bex_def scan_iff by auto
next
  fix f assume "verdict (scan matches to_text ms) gte = Some f"
  note v = verdict_Some [OF this]
  from v show "\<exists>s \<in> set sigs. signature_hit matches to_text ms s \<and> f = (sig_name s, sig_severity s)"
    by (simp add: scan_iff)
  from v have "\<forall>g \<in> set (scan matches to_text ms). rank (snd g) \<le> rank (snd f)" by blast
  then show "\<forall>s \<in> set sigs. signature_hit matches to_text ms s \<longrightarrow> rank (sig_severity s) \<le> rank (snd f)"
    using scan_iff by (metis snd_conv)
qed

definition demo_matches :: "string \<Rightarrow> string \<Rightarrow> bool" where
  "demo_matches s tx \<longleftrightarrow> s = ''jailbreak_persona'' \<and> tx = ''jailbreak''"

theorem scan_verdict_witness:
  "verdict (scan demo_matches (\<lambda>v. []) [JObj [(''content'', JStr ''jailbreak'')]]) ''high''
     = Some (''jailbreak_persona'', ''high'') \<and>
   (\<exists>s \<in> set sigs. signature_hit demo_matches (\<lambda>v. []) [JObj [(''content'', JStr ''jailbreak'')]] s)"
proof -
  have e: "verdict (scan demo_matches (\<lambda>v. []) [JObj [(''content'', JStr ''jailbreak'')]]) ''high''
      = Some (''jailbreak_persona'', ''high'')"
    by code_simp
  then show ?thesis
    using scan_verdict [of demo_matches "\<lambda>v. []" "[JObj [(''content'', JStr ''jailbreak'')]]" "''high''"]
    by blast
qed

end
