(* ===== verification/Classifier.thy ===== *)
theory Classifier
  imports Config Injection
begin

text \<open>
  The ONNX classifier of \<open>fwllm-gateway/src/inspectors/ml.rs\<close>: loading it from a directory and
  predicting the label of a text.  The tokenizer, the ONNX session, the file system, the JSON parser
  and \<open>f32::exp\<close>, whose precision Rust leaves open, are parameters; the arithmetic on \<open>f32\<close> is computed,
  on the \<open>f64\<close> values that the \<open>f32\<close> values embed into.  A panic is an \<open>Inl\<close>.
\<close>

section \<open>Arithmetic on \<open>f32\<close>\<close>

fun f32_add :: "f64 \<Rightarrow> f64 \<Rightarrow> f64" where
  "f32_add (Fin a) (Fin b) = f32_of (Fin (a + b))"
| "f32_add x y = f64_add x y"

definition f32_sub :: "f64 \<Rightarrow> f64 \<Rightarrow> f64" where
  "f32_sub x y = f32_add x (f64_neg y)"

text \<open>\<open>f32::max\<close> ignores a NaN.\<close>

definition f32_max :: "f64 \<Rightarrow> f64 \<Rightarrow> f64" where
  "f32_max x y = (if x = NaN then y else if f64_lt x y then y else x)"

text \<open>The quotient \<open>n / d\<close>, in units of \<open>2 ^ -1074\<close>, rounded like \<open>f32_of\<close>, for a positive \<open>d\<close>.\<close>

definition round_ratio :: "int \<Rightarrow> int \<Rightarrow> int" where
  "round_ratio n d =
     (let q = n div d; r = n mod d in
      if 2 * r < d then q else if 2 * r > d then q + 1 else if even q then q else q + 1)"

definition f32_ratio :: "int \<Rightarrow> int \<Rightarrow> f64" where
  "f32_ratio n d =
     (let k = max (nat (bitlen (\<bar>n\<bar> div d) - 24)) 925; m = round_ratio n (d * 2 ^ k) * 2 ^ k;
        top = (2 ^ 24 - 1) * 2 ^ 1178 in
      if m > top then PosInf else if m < - top then NegInf else Fin m)"

text \<open>
  Division; the two zeros coincide, so the sign of an infinite quotient by zero is that of the dividend.
  The code divides by a sum that is not zero.
\<close>

fun f32_div :: "f64 \<Rightarrow> f64 \<Rightarrow> f64" where
  "f32_div NaN y = NaN"
| "f32_div x NaN = NaN"
| "f32_div (Fin a) (Fin b) =
     (if b = 0 then (if a = 0 then NaN else if 0 < a then PosInf else NegInf)
      else f32_ratio (sgn b * a * f64_scale) \<bar>b\<bar>)"
| "f32_div (Fin a) y = Fin 0"
| "f32_div PosInf (Fin b) = (if 0 \<le> b then PosInf else NegInf)"
| "f32_div NegInf (Fin b) = (if 0 \<le> b then NegInf else PosInf)"
| "f32_div x y = NaN"

definition f32_sum :: "f64 list \<Rightarrow> f64" where
  "f32_sum xs = foldl f32_add (Fin 0) xs"

section \<open>Loading\<close>

record onnx =
  ox_encode :: "string \<Rightarrow> nat list option"
  ox_run :: "int list \<Rightarrow> int list \<Rightarrow> f64 list option list option"
  ox_exp :: "f64 \<Rightarrow> f64"
  ox_labels :: "(int, string) hmap"

record onnx_libs =
  lb_exists :: "string \<Rightarrow> bool"
  lb_read :: "string \<Rightarrow> string option"
  lb_json :: "string \<Rightarrow> json option"
  lb_session :: "string \<Rightarrow> (int list \<Rightarrow> int list \<Rightarrow> f64 list option list option) option"
  lb_tokenizer :: "string \<Rightarrow> (string \<Rightarrow> nat list option) option"
  lb_exp :: "f64 \<Rightarrow> f64"

text \<open>\<open>str::parse::<i64>\<close>.\<close>

definition parse_i64 :: "string \<Rightarrow> int option" where
  "parse_i64 s =
     (let neg = (case s of c # _ \<Rightarrow> c = CHR ''-'' | [] \<Rightarrow> False);
          ds = (case s of c # cs \<Rightarrow> if c = CHR ''-'' \<or> c = CHR ''+'' then cs else s | [] \<Rightarrow> s);
          v = (if neg then - int (digits_value 0 ds) else int (digits_value 0 ds))
      in if ds \<noteq> [] \<and> list_all is_digit ds \<and> in_i64 v then Some v else None)"

definition default_labels :: "(int, string) hmap" where
  "default_labels = [(0, ''benign''), (1, ''injection'')]"

fun add_label :: "string \<times> json \<Rightarrow> (int, string) hmap \<Rightarrow> (int, string) hmap" where
  "add_label (k, v) m = (case (parse_i64 k, as_str v) of (Some i, Some l) \<Rightarrow> hput i l m | _ \<Rightarrow> m)"

definition labels_of :: "json \<Rightarrow> (int, string) hmap" where
  "labels_of cfg =
     (case Option.bind (jget ''id2label'' cfg) as_object of
        Some m \<Rightarrow> fold add_label m []
      | None \<Rightarrow> default_labels)"

definition read_labels :: "onnx_libs \<Rightarrow> string \<Rightarrow> (int, string) hmap option" where
  "read_labels lb path =
     (if lb_exists lb path then map_option labels_of (Option.bind (lb_read lb path) (lb_json lb))
      else Some default_labels)"

definition from_dir :: "onnx_libs \<Rightarrow> string \<Rightarrow> onnx option" where
  "from_dir lb dir =
     (case lb_session lb (path_join dir ''model.onnx'') of None \<Rightarrow> None | Some run \<Rightarrow>
     (case lb_tokenizer lb (path_join dir ''tokenizer.json'') of None \<Rightarrow> None | Some encode \<Rightarrow>
     (case read_labels lb (path_join dir ''config.json'') of None \<Rightarrow> None | Some labels \<Rightarrow>
        Some \<lparr>ox_encode = encode, ox_run = run, ox_exp = lb_exp lb, ox_labels = labels\<rparr>)))"

definition try_load_classifier :: "onnx_libs \<Rightarrow> string \<Rightarrow> onnx option" where
  "try_load_classifier lb dir =
     (if \<not> lb_exists lb (path_join dir ''model.onnx'') then None else from_dir lb dir)"

section \<open>Predicting\<close>

datatype predict_panic = Char_boundary | No_output | Incomparable

text \<open>\<open>&text[..text.len().min(4096)]\<close>: slicing inside a character panics.\<close>

definition truncated :: "string \<Rightarrow> string option" where
  "truncated tx =
     (let n = min (length tx) 4096 in
      if n < length tx \<and> utf8_cont (tx ! n) then None else Some (take n tx))"

definition no_verdict :: "string \<times> f64" where
  "no_verdict = (''benign'', Fin 0)"

definition max_len :: nat where
  "max_len = 512"

text \<open>Encoding and running the model; \<open>None\<close> is an early return, a tensor that cannot be read is a \<open>None\<close> of the outputs.\<close>

definition infer :: "onnx \<Rightarrow> string \<Rightarrow> f64 list option list option" where
  "infer cl tx =
     (case ox_encode cl tx of None \<Rightarrow> None
      | Some enc \<Rightarrow>
          (let ids = map int enc in
           if ids = [] then None
           else let ids = (if length ids > max_len then take max_len ids else ids)
                in ox_run cl ids (replicate (length ids) 1)))"

definition exps_of :: "(f64 \<Rightarrow> f64) \<Rightarrow> f64 list \<Rightarrow> f64 list" where
  "exps_of e logits = (let m = foldl f32_max NegInf logits in map (\<lambda>x. e (f32_sub x m)) logits)"

text \<open>\<open>max_by\<close> with \<open>partial_cmp(..).unwrap()\<close>: the last of the largest, \<open>None\<close> when a NaN is compared.\<close>

fun best_of :: "nat \<Rightarrow> f64 \<Rightarrow> nat \<Rightarrow> f64 list \<Rightarrow> nat option" where
  "best_of i p j [] = Some i"
| "best_of i p j (q # qs) =
     (if p = NaN \<or> q = NaN then None
      else if f64_gt p q then best_of i p (Suc j) qs else best_of j q (Suc j) qs)"

definition best_index :: "f64 list \<Rightarrow> nat option" where
  "best_index ps = (case ps of [] \<Rightarrow> Some 0 | p # qs \<Rightarrow> best_of 0 p 1 qs)"

definition label_for :: "onnx \<Rightarrow> nat \<Rightarrow> string" where
  "label_for cl best = (case hget (ox_labels cl) (int best) of Some l \<Rightarrow> l | None \<Rightarrow> dec_nat best)"

definition judge :: "onnx \<Rightarrow> f64 list \<Rightarrow> predict_panic + string \<times> f64" where
  "judge cl logits =
     (let exps = exps_of (ox_exp cl) logits; s = f32_sum exps in
      if s = Fin 0 then Inr no_verdict
      else let probs = map (\<lambda>x. f32_div x s) exps in
        case best_index probs of None \<Rightarrow> Inl Incomparable
        | Some best \<Rightarrow> Inr (label_for cl best, probs ! best))"

definition predict :: "onnx \<Rightarrow> string \<Rightarrow> predict_panic + string \<times> f64" where
  "predict cl tx =
     (case truncated tx of None \<Rightarrow> Inl Char_boundary
      | Some t \<Rightarrow>
     (case infer cl t of None \<Rightarrow> Inr no_verdict
      | Some [] \<Rightarrow> Inl No_output
      | Some (None # _) \<Rightarrow> Inr no_verdict
      | Some (Some logits # _) \<Rightarrow> judge cl logits))"

text \<open>The inspector on this classifier.\<close>

definition onnx_scan :: "onnx \<Rightarrow> f64 \<Rightarrow> string \<Rightarrow> predict_panic + finding option" where
  "onnx_scan cl limit tx =
     (case predict cl tx of Inl e \<Rightarrow> Inl e
      | Inr (label, conf) \<Rightarrow>
          Inr (if label = ''benign'' \<or> f64_lt conf limit then None else Some (''ml:injection'', ml_severity conf)))"

text \<open>The classifier as the inspector chain takes it: \<open>None\<close> is any panic.\<close>

definition prediction :: "onnx \<Rightarrow> string \<Rightarrow> (string \<times> f64) option" where
  "prediction cl tx = (case predict cl tx of Inl e \<Rightarrow> None | Inr r \<Rightarrow> Some r)"

definition load_prediction :: "onnx_libs \<Rightarrow> string \<Rightarrow> (string \<Rightarrow> (string \<times> f64) option) option" where
  "load_prediction lb dir = map_option prediction (try_load_classifier lb dir)"

lemma ml_scan_prediction:
  "ml_scan \<lparr>ml_predict = prediction cl, ml_limit = limit\<rparr> tx =
     (case onnx_scan cl limit tx of Inl e \<Rightarrow> None | Inr f \<Rightarrow> Some f)"
  by (simp add: ml_scan_def onnx_scan_def prediction_def split: sum.split prod.split)

section \<open>What the arithmetic keeps\<close>

text \<open>What is used of \<open>exp\<close>: on a number that is not positive it lies between zero and one.\<close>

definition exp_law :: "(f64 \<Rightarrow> f64) \<Rightarrow> bool" where
  "exp_law e \<longleftrightarrow> e NaN = NaN \<and> e (Fin 0) = Fin f64_scale \<and>
     (\<forall>x. f64_le x (Fin 0) \<longrightarrow> (\<exists>n. e x = Fin n \<and> 0 \<le> n))"

text \<open>Logits without a NaN and with a finite maximum.\<close>

definition comparable :: "f64 list \<Rightarrow> bool" where
  "comparable logits \<longleftrightarrow>
     NaN \<notin> set logits \<and> PosInf \<notin> set logits \<and> (\<exists>x \<in> set logits. x \<noteq> NegInf)"

lemma round_even_sign: "0 \<le> n \<Longrightarrow> 0 \<le> round_even n k" "n \<le> 0 \<Longrightarrow> round_even n k \<le> 0"
proof -
  show "0 \<le> n \<Longrightarrow> 0 \<le> round_even n k"
    by (auto simp: round_even_def Let_def pos_imp_zdiv_nonneg_iff)
  assume n: "n \<le> 0"
  have "n div 2 ^ k + 1 \<le> 0 \<or> n mod 2 ^ k = 0" if "n \<noteq> 0"
  proof -
    have "n div 2 ^ k < 0" using n that by (intro div_neg_pos_less0) simp_all
    then show ?thesis by linarith
  qed
  moreover have "n div 2 ^ k \<le> 0" using n by (simp add: div_nonpos_pos_le0)
  ultimately show "round_even n k \<le> 0"
    by (cases "n = 0") (auto simp: round_even_def Let_def)
qed

lemma round_even_ge: "n div 2 ^ k \<le> round_even n k"
  by (simp add: round_even_def Let_def)

lemma f32_of_Fin_not_NaN [simp]: "f32_of (Fin n) \<noteq> NaN"
  by (simp add: Let_def)

lemma f32_of_nonpos: "n \<le> 0 \<Longrightarrow> f64_le (f32_of (Fin n)) (Fin 0)"
proof -
  assume n: "n \<le> 0"
  define k where "k = max (nat (bitlen \<bar>n\<bar> - 24)) 925"
  define m where "m = round_even n k * 2 ^ k"
  have "m \<le> 0" using round_even_sign(2) [OF n, of k] by (simp add: m_def mult_nonpos_nonneg)
  then show ?thesis unfolding f32_of.simps k_def [symmetric] m_def [symmetric] Let_def by (auto simp: f64_le_def)
qed

text \<open>A positive multiple of the least \<open>f32\<close> does not get below it.\<close>

definition f32_least :: int where
  "f32_least = 2 ^ 925"

lemma f32_least_pos: "0 < f32_least"
  by (simp add: f32_least_def)

fun f32_pos :: "f64 \<Rightarrow> bool" where
  "f32_pos (Fin n) = (f32_least \<le> n)"
| "f32_pos x = (x = PosInf)"

fun f32_nonneg :: "f64 \<Rightarrow> bool" where
  "f32_nonneg (Fin n) = (0 \<le> n)"
| "f32_nonneg x = (x = PosInf)"

lemma f32_of_pos:
  assumes "f32_least \<le> n"
  shows "f32_pos (f32_of (Fin n))"
proof -
  define k where "k = max (nat (bitlen \<bar>n\<bar> - 24)) 925"
  define m where "m = round_even n k * 2 ^ k"
  have n: "0 < n" using assms f32_least_pos by linarith
  have le: "2 ^ k \<le> n"
  proof (cases "nat (bitlen \<bar>n\<bar> - 24) \<le> 925")
    case True
    then show ?thesis using assms unfolding k_def f32_least_def by (simp only: max_absorb2)
  next
    case False
    then have "k = nat (bitlen \<bar>n\<bar> - 24)" by (simp add: k_def)
    then have "k \<le> nat (bitlen n - 1)" using n by simp
    then have "(2::int) ^ k \<le> 2 ^ nat (bitlen n - 1)" by (rule power_increasing) simp
    also have "\<dots> \<le> n" using bitlen_bounds [OF n] by simp
    finally show ?thesis .
  qed
  have "1 \<le> n div 2 ^ k" using le by (simp add: pos_imp_zdiv_pos_iff int_one_le_iff_zero_less)
  then have "1 \<le> round_even n k" using round_even_ge [of n k] by linarith
  then have "1 * 2 ^ k \<le> m" unfolding m_def by (intro mult_right_mono) simp_all
  moreover have "f32_least \<le> 2 ^ k" unfolding f32_least_def by (rule power_increasing) (simp_all add: k_def)
  ultimately have m: "f32_least \<le> m" by linarith
  moreover have "- ((2 ^ 24 - 1) * 2 ^ 1178) < (0::int)" by simp
  ultimately have "\<not> m < - ((2 ^ 24 - 1) * 2 ^ 1178)" using f32_least_pos by linarith
  with m show ?thesis
    unfolding f32_of.simps k_def [symmetric] m_def [symmetric] Let_def by simp
qed

lemma f32_of_nonneg:
  assumes "0 \<le> n"
  shows "f32_nonneg (f32_of (Fin n))"
proof -
  define k where "k = max (nat (bitlen \<bar>n\<bar> - 24)) 925"
  define m where "m = round_even n k * 2 ^ k"
  have "0 \<le> m" using round_even_sign(1) [OF assms, of k] by (simp add: m_def)
  moreover have "- ((2 ^ 24 - 1) * 2 ^ 1178) < (0::int)" by simp
  ultimately have "0 \<le> m" "\<not> m < - ((2 ^ 24 - 1) * 2 ^ 1178)" by linarith+
  then show ?thesis
    unfolding f32_of.simps k_def [symmetric] m_def [symmetric] Let_def by simp
qed

lemma f32_add_nonneg: "f32_nonneg x \<Longrightarrow> f32_nonneg y \<Longrightarrow> f32_nonneg (f32_add x y)"
  by (cases x; cases y) (auto simp del: f32_of.simps intro: f32_of_nonneg)

lemma f32_add_pos: "f32_pos x \<Longrightarrow> f32_nonneg y \<Longrightarrow> f32_pos (f32_add x y)"
  "f32_nonneg x \<Longrightarrow> f32_pos y \<Longrightarrow> f32_pos (f32_add x y)"
  by (cases x; cases y; auto simp del: f32_of.simps intro: f32_of_pos)+

lemma f32_sum_pos:
  assumes "\<forall>x \<in> set xs. f32_nonneg x" and "x \<in> set xs" and "f32_pos x"
  shows "f32_pos (f32_sum xs)"
proof -
  have keep: "f32_pos a \<Longrightarrow> f32_pos (foldl f32_add a ys)" if "\<forall>y \<in> set ys. f32_nonneg y" for a ys
    using that by (induction ys arbitrary: a) (auto intro: f32_add_pos(1))
  have "f32_nonneg a \<Longrightarrow> f32_pos (foldl f32_add a ys)"
    if "\<forall>y \<in> set ys. f32_nonneg y" and "x \<in> set ys" for a ys
    using that
  proof (induction ys arbitrary: a)
    case (Cons y ys)
    show ?case
    proof (cases "y = x")
      case True
      then show ?thesis using Cons.prems assms(3) keep by (simp add: f32_add_pos(2))
    next
      case False
      then show ?thesis using Cons.prems Cons.IH [of "f32_add a y"] by (simp add: f32_add_nonneg)
    qed
  qed simp
  moreover have "f32_nonneg (Fin 0)" by simp
  ultimately show ?thesis using assms(1,2) by (simp add: f32_sum_def)
qed

lemma f64_add_NaN [simp]: "f64_add x NaN = NaN"
  by (cases x) simp_all

lemma f32_add_NaN [simp]: "f32_add x NaN = NaN"
  by (cases x) simp_all

lemma f32_sum_NaN:
  assumes "NaN \<in> set xs"
  shows "f32_sum xs = NaN"
proof -
  have stay: "foldl f32_add NaN ys = NaN" for ys by (induction ys) simp_all
  have "foldl f32_add a ys = NaN" if "NaN \<in> set ys" for a ys
    using that by (induction ys arbitrary: a) (auto simp: stay)
  with assms show ?thesis by (simp add: f32_sum_def)
qed

lemma f32_ratio_not_NaN [simp]: "f32_ratio n d \<noteq> NaN"
  by (simp add: f32_ratio_def Let_def)

lemma f32_pos_cases: "f32_pos s \<Longrightarrow> s = PosInf \<or> (\<exists>b > 0. s = Fin b)"
  using f32_least_pos by (cases s) auto

lemma f32_div_not_NaN: "f32_pos s \<Longrightarrow> f32_div (Fin a) s \<noteq> NaN"
  using f32_pos_cases [of s] by auto

lemma f32_div_NaN [simp]: "f32_div x NaN = NaN"
  by (cases x) simp_all

section \<open>Maximum and choice\<close>

lemma f32_max_le: "x \<noteq> NaN \<Longrightarrow> y \<noteq> NaN \<Longrightarrow> f64_le x (f32_max x y) \<and> f64_le y (f32_max x y) \<and>
    f32_max x y \<in> {x, y}"
  by (auto simp: f32_max_def f64_le_refl f64_not_lt) (simp add: f64_le_def)

lemma foldl_max:
  assumes "a \<noteq> NaN" and "NaN \<notin> set xs"
  shows "foldl f32_max a xs \<in> insert a (set xs) \<and> (\<forall>x \<in> insert a (set xs). f64_le x (foldl f32_max a xs))"
  using assms
proof (induction xs arbitrary: a)
  case Nil
  then show ?case by (simp add: f64_le_refl)
next
  case (Cons x xs)
  note m = f32_max_le [of a x]
  from Cons.prems m have "f32_max a x \<noteq> NaN" by auto
  from Cons.IH [OF this] Cons.prems
  have ih: "foldl f32_max (f32_max a x) xs \<in> insert (f32_max a x) (set xs)"
    "\<forall>y \<in> insert (f32_max a x) (set xs). f64_le y (foldl f32_max (f32_max a x) xs)" by auto
  show ?case
  proof
    show "foldl f32_max a (x # xs) \<in> insert a (set (x # xs))" using ih(1) m Cons.prems by auto
    show "\<forall>y \<in> insert a (set (x # xs)). f64_le y (foldl f32_max a (x # xs))"
      using ih(2) m Cons.prems f64_le_trans by (auto; blast)
  qed
qed

lemma f32_max_PosInf [simp]: "f32_max PosInf y = PosInf" "f32_max x PosInf = PosInf"
  by (cases y; simp add: f32_max_def) (cases x; simp add: f32_max_def)

lemma foldl_max_PosInf: "PosInf \<in> set xs \<Longrightarrow> foldl f32_max a xs = PosInf"
proof -
  have stay: "foldl f32_max PosInf ys = PosInf" for ys by (induction ys) simp_all
  show "PosInf \<in> set xs \<Longrightarrow> foldl f32_max a xs = PosInf"
    by (induction xs arbitrary: a) (auto simp: stay)
qed

lemma foldl_max_NegInf: "set xs \<subseteq> {NegInf} \<Longrightarrow> foldl f32_max NegInf xs = NegInf"
  by (induction xs) (auto simp: f32_max_def)

lemma best_of_all_NaN: "set qs \<subseteq> {NaN} \<Longrightarrow> best_of i NaN j qs = (if qs = [] then Some i else None)"
  by (cases qs) simp_all

lemma best_index_NaN: "best_index (replicate n NaN) = (if n \<le> 1 then Some 0 else None)"
  by (cases n) (auto simp: best_index_def best_of_all_NaN)

lemma best_of_numbers:
  assumes "p \<noteq> NaN" and "NaN \<notin> set qs" and "ps = pre @ qs" and "i < length pre" and "j = length pre" and "ps ! i = p"
    and "\<forall>x \<in> set pre. f64_le x p"
  shows "\<exists>b. best_of i p j qs = Some b \<and> b < length ps \<and> (\<forall>x \<in> set ps. f64_le x (ps ! b))"
  using assms
proof (induction qs arbitrary: i p j pre)
  case Nil
  then show ?case by auto
next
  case (Cons q qs)
  have q: "q \<noteq> NaN" using Cons.prems(2) by auto
  show ?case
  proof (cases "f64_gt p q")
    case True
    then have "\<forall>x \<in> set (pre @ [q]). f64_le x p" using Cons.prems by (auto simp: f64_le_def)
    with Cons.IH [of p "pre @ [q]" i "Suc j"] Cons.prems True q show ?thesis by simp
  next
    case False
    then have "f64_le p q" using Cons.prems q by (simp add: f64_not_lt)
    then have "\<forall>x \<in> set (pre @ [q]). f64_le x q" using Cons.prems q f64_le_trans by (auto simp: f64_le_refl)
    moreover have "ps ! j = q" using Cons.prems by (simp add: nth_append)
    ultimately show ?thesis using Cons.IH [of q "pre @ [q]" j "Suc j"] Cons.prems False q by simp
  qed
qed

lemma best_index_numbers:
  assumes "ps \<noteq> []" and "NaN \<notin> set ps"
  shows "\<exists>b. best_index ps = Some b \<and> b < length ps \<and> (\<forall>x \<in> set ps. f64_le x (ps ! b))"
proof -
  obtain p qs where "ps = p # qs" using assms(1) by (cases ps) auto
  moreover have "p \<noteq> NaN" using assms(2) calculation by auto
  ultimately show ?thesis
    using best_of_numbers [of p qs ps "[p]" 0 1] assms(2) by (simp add: best_index_def f64_le_refl)
qed

section \<open>The softmax\<close>

lemma f32_sub_NaN: "f32_sub NaN y = NaN" "f32_sub x NaN = NaN" "f32_sub PosInf PosInf = NaN" "f32_sub NegInf NegInf = NaN"
  by (simp_all add: f32_sub_def)

lemma exps_of_NaN:
  assumes "exp_law e" and "logits \<noteq> []" and "\<not> comparable logits"
  shows "NaN \<in> set (exps_of e logits)"
proof -
  let ?m = "foldl f32_max NegInf logits"
  have "\<exists>x \<in> set logits. f32_sub x ?m = NaN"
  proof (cases "NaN \<in> set logits \<or> PosInf \<in> set logits")
    case True
    then show ?thesis using foldl_max_PosInf f32_sub_NaN by metis
  next
    case False
    then have "set logits \<subseteq> {NegInf}" using assms(3) by (auto simp: comparable_def)
    moreover obtain x where "x \<in> set logits" using assms(2) by (cases logits) auto
    ultimately show ?thesis using foldl_max_NegInf [of logits] f32_sub_NaN by (intro bexI [of _ x]) auto
  qed
  then show ?thesis using assms(1) by (force simp: exps_of_def Let_def exp_law_def)
qed

lemma f32_sub_le: "f64_le y (Fin v) \<Longrightarrow> f64_le (f32_sub y (Fin v)) (Fin 0)"
proof (cases y)
  case (Fin a)
  assume "f64_le y (Fin v)"
  then have "a + - v \<le> 0" by (auto simp: f64_le_def Fin)
  then show ?thesis using f32_of_nonpos [of "a + - v"] by (simp add: f32_sub_def Fin del: f32_of.simps)
qed (auto simp: f32_sub_def f64_le_def)

lemma exps_of_numbers:
  assumes "exp_law e" and "comparable logits"
  shows "\<forall>y \<in> set (exps_of e logits). \<exists>n \<ge> 0. y = Fin n" and "Fin f64_scale \<in> set (exps_of e logits)"
proof -
  let ?m = "foldl f32_max NegInf logits"
  have nan: "NaN \<notin> set logits" and fin: "PosInf \<notin> set logits" using assms(2) by (auto simp: comparable_def)
  from foldl_max [OF _ nan, of NegInf]
  have m: "?m \<in> insert NegInf (set logits)" "\<forall>x \<in> set logits. f64_le x ?m" by auto
  obtain x where "x \<in> set logits" "x \<noteq> NegInf" using assms(2) by (auto simp: comparable_def)
  with m nan fin obtain v where v: "?m = Fin v" "Fin v \<in> set logits"
    by (cases ?m; cases x) (auto simp: f64_le_def)
  have "f64_le (f32_sub y ?m) (Fin 0)" if "y \<in> set logits" for y
    using that m(2) f32_sub_le by (simp add: v(1))
  with assms(1) show "\<forall>y \<in> set (exps_of e logits). \<exists>n \<ge> 0. y = Fin n"
    by (force simp: exps_of_def Let_def exp_law_def)
  have "f32_of (Fin 0) = Fin 0" by (simp add: Let_def round_even_def)
  then have "f32_sub (Fin v) ?m = Fin 0" by (simp add: v f32_sub_def del: f32_of.simps)
  then have "e (f32_sub (Fin v) ?m) = Fin f64_scale" using assms(1) by (simp add: exp_law_def)
  with v(2) show "Fin f64_scale \<in> set (exps_of e logits)"
    by (force simp: exps_of_def Let_def)
qed

lemma length_exps_of [simp]: "length (exps_of e logits) = length logits"
  by (simp add: exps_of_def Let_def)

lemma judge_comparable:
  assumes "exp_law (ox_exp cl)" and "comparable logits"
  shows "\<exists>b probs. length probs = length logits \<and> b < length logits \<and> NaN \<notin> set probs \<and>
    (\<forall>p \<in> set probs. f64_le p (probs ! b)) \<and> judge cl logits = Inr (label_for cl b, probs ! b)"
proof -
  define exps where "exps = exps_of (ox_exp cl) logits"
  define probs where "probs = map (\<lambda>x. f32_div x (f32_sum exps)) exps"
  note e = exps_of_numbers [OF assms, folded exps_def]
  have "f32_least \<le> f64_scale"
    unfolding f32_least_def f64_scale_def by (rule power_increasing) simp_all
  then have "f32_pos (Fin f64_scale)" by simp
  with e have pos: "f32_pos (f32_sum exps)" by (intro f32_sum_pos [of exps "Fin f64_scale"]) auto
  then have zero: "(f32_sum exps = Fin 0) = False" using f32_least_pos by auto
  have nan: "NaN \<notin> set probs"
  proof
    assume "NaN \<in> set probs"
    then obtain x where "x \<in> set exps" "f32_div x (f32_sum exps) = NaN" by (auto simp: probs_def)
    moreover from e(1) this(1) obtain n where "x = Fin n" by auto
    ultimately show False using f32_div_not_NaN [OF pos, of n] by (simp only:)
  qed
  moreover have "probs \<noteq> []" using e(2) by (auto simp: probs_def)
  ultimately obtain b where b: "best_index probs = Some b" "b < length probs" "\<forall>x \<in> set probs. f64_le x (probs ! b)"
    using best_index_numbers [of probs] by blast
  have "length probs = length logits" by (simp add: probs_def exps_def)
  moreover have "judge cl logits = Inr (label_for cl b, probs ! b)"
    using b(1) zero by (simp only: judge_def exps_def [symmetric] probs_def [symmetric] Let_def if_False option.case)
  ultimately show ?thesis using b nan by (intro exI [of _ b] exI [of _ probs]) simp
qed

lemma judge_empty: "judge cl [] = Inr no_verdict"
  by (simp add: judge_def exps_of_def f32_sum_def Let_def)

lemma judge_incomparable:
  assumes "exp_law (ox_exp cl)" and "\<not> comparable logits" and "logits \<noteq> []"
  shows "judge cl logits = (if length logits = 1 then Inr (label_for cl 0, NaN) else Inl Incomparable)"
proof -
  have "f32_sum (exps_of (ox_exp cl) logits) = NaN"
    by (rule f32_sum_NaN) (rule exps_of_NaN [OF assms(1,3,2)])
  moreover have "map (\<lambda>x. f32_div x NaN) (exps_of (ox_exp cl) logits) = replicate (length logits) NaN"
    by (simp add: map_replicate_const)
  ultimately show ?thesis
    using assms(3) best_index_NaN [of "length logits"]
    by (cases "length logits") (simp_all add: judge_def Let_def)
qed

section \<open>Properties\<close>

text \<open>The classifier reads the first 4096 bytes of a text only.\<close>

lemma truncated_append:
  assumes "length tx = 4096" and "rest = [] \<or> \<not> utf8_cont (hd rest)"
  shows "truncated (tx @ rest) = Some tx"
proof (cases rest)
  case Nil
  with assms(1) show ?thesis by (simp add: truncated_def)
next
  case (Cons c cs)
  then have "(tx @ rest) ! 4096 = c" using assms(1) nth_append_length [of tx c cs] by simp
  with Cons assms show ?thesis by (simp add: truncated_def min_def)
qed

lemma late_text_unseen:
  assumes "length tx = 4096" and "rest = [] \<or> \<not> utf8_cont (hd rest)"
  shows "predict cl (tx @ rest) = predict cl tx"
  using truncated_append [OF assms] truncated_append [of tx "[]"] assms(1) by (simp add: predict_def)

text \<open>At most 512 token ids reach the model.\<close>

lemma ids_bounded:
  assumes "infer cl tx = Some outs"
  shows "\<exists>ids. ox_run cl ids (replicate (length ids) 1) = Some outs \<and> ids \<noteq> [] \<and> length ids \<le> 512"
proof -
  obtain enc where enc: "ox_encode cl tx = Some enc" "enc \<noteq> []"
    using assms by (auto simp: infer_def Let_def split: option.splits if_splits)
  have "ox_run cl (take max_len (map int enc)) (replicate (length (take max_len (map int enc))) 1) = Some outs"
    using assms enc by (simp add: infer_def Let_def split: if_splits)
  moreover have "take max_len (map int enc) \<noteq> []" "length (take max_len (map int enc)) \<le> 512"
    using enc(2) by (simp_all add: max_len_def)
  ultimately show ?thesis by blast
qed

lemma judge_panics:
  assumes "exp_law (ox_exp cl)"
  shows "judge cl logits = Inl p \<longleftrightarrow> p = Incomparable \<and> 2 \<le> length logits \<and> \<not> comparable logits"
proof -
  consider "logits = []" | "comparable logits" | "logits \<noteq> []" "\<not> comparable logits" by blast
  then show ?thesis
  proof cases
    case 1
    then show ?thesis by (simp add: judge_empty)
  next
    case 2
    with judge_comparable [OF assms, of logits] have "judge cl logits \<noteq> Inl p" by auto
    with 2 show ?thesis by simp
  next
    case 3
    then have "1 \<le> length logits" by (cases logits) simp_all
    with 3 judge_incomparable [OF assms 3(2,1)] show ?thesis by auto
  qed
qed

text \<open>
  C32: (When the classifier panics) Predicting panics exactly when a character stands across byte 4096 of
  the text, when the model has no output, or when it has two logits or more that contain a NaN or
  whose largest is infinite.
\<close>

theorem predict_panics:
  assumes "exp_law (ox_exp cl)"
  shows "predict cl tx = Inl p \<longleftrightarrow>
    (case p of
       Char_boundary \<Rightarrow> 4096 < length tx \<and> utf8_cont (tx ! 4096)
     | No_output \<Rightarrow> \<exists>t. truncated tx = Some t \<and> infer cl t = Some []
     | Incomparable \<Rightarrow> \<exists>t logits rest. truncated tx = Some t \<and> infer cl t = Some (Some logits # rest) \<and>
         2 \<le> length logits \<and> \<not> comparable logits)"
proof (cases "truncated tx")
  case None
  then have "4096 < length tx \<and> utf8_cont (tx ! 4096)" by (auto simp: truncated_def Let_def min_def split: if_splits)
  with None show ?thesis by (cases p) (simp_all add: predict_def)
next
  case (Some t)
  then have "\<not> (4096 < length tx \<and> utf8_cont (tx ! 4096))" by (auto simp: truncated_def Let_def)
  with Some judge_panics [OF assms] show ?thesis
    by (cases p) (auto simp: predict_def split: option.split list.split)
qed

section \<open>Witnesses\<close>

definition demo_exp :: "f64 \<Rightarrow> f64" where
  "demo_exp x = (if x = NaN then NaN else if x = Fin 0 then Fin f64_scale else Fin 0)"

definition demo_onnx :: "f64 list \<Rightarrow> onnx" where
  "demo_onnx logits = \<lparr>ox_encode = (\<lambda>tx. Some (map byte tx)), ox_run = (\<lambda>ids mask. Some [Some logits]),
     ox_exp = demo_exp, ox_labels = default_labels\<rparr>"

lemma demo_exp_law: "exp_law demo_exp"
  using f64_scale_pos(1) by (auto simp: exp_law_def demo_exp_def simp del: f64_scale_pos)

theorem predict_panics_witness:
  "predict (demo_onnx [Fin 0]) (replicate 4095 CHR ''a'' @ [char_of (195::nat), char_of (169::nat)]) = Inl Char_boundary \<and>
   predict (demo_onnx [Fin 0, NaN]) ''hello'' = Inl Incomparable \<and>
   predict (demo_onnx [Fin 0, Fin f64_scale]) ''hello'' \<noteq> Inl Incomparable"
proof (intro conjI)
  have law: "exp_law (ox_exp (demo_onnx l))" for l by (simp add: demo_onnx_def demo_exp_law)
  have l: "length (replicate 4095 CHR ''a'' @ [char_of (195::nat), char_of (169::nat)]) = 4097" by simp
  have c: "(replicate 4095 CHR ''a'' @ [char_of (195::nat), char_of (169::nat)]) ! 4096 = char_of (169::nat)"
    by (simp add: nth_append)
  show "predict (demo_onnx [Fin 0]) (replicate 4095 CHR ''a'' @ [char_of (195::nat), char_of (169::nat)]) = Inl Char_boundary"
    unfolding predict_panics [OF law] l c by (simp add: utf8_cont_def byte_def)
  have t: "truncated ''hello'' = Some ''hello''" by code_simp
  have i: "infer (demo_onnx l) ''hello'' = Some [Some l]" for l
    by (simp add: infer_def demo_onnx_def max_len_def)
  show "predict (demo_onnx [Fin 0, NaN]) ''hello'' = Inl Incomparable"
    unfolding predict_panics [OF law] by (simp add: t i comparable_def)
  show "predict (demo_onnx [Fin 0, Fin f64_scale]) ''hello'' \<noteq> Inl Incomparable"
    unfolding predict_panics [OF law] by (simp add: t i comparable_def)
qed

end
