(* ===== verification/Token_Text.thy ===== *)
theory Token_Text
  imports Fw_Prelude
begin

text \<open>
  Texts that contain masking tokens: an abstract view of a string as single characters,
  tokens of a vault and substituted values, and what \<open>str::replace\<close> does to it.  The DLP
  engine replaces token after token over the whole text; here this is shown to be the same as
  one pass that replaces every token at once, so that the order of the vault does not matter.
\<close>

definition token_char :: "char \<Rightarrow> bool" where
  "token_char c \<longleftrightarrow> is_ascii_alphanumeric c \<or> c = CHR ''_''"

definition plain :: "string \<Rightarrow> bool" where
  "plain s \<longleftrightarrow> CHR ''['' \<notin> set s \<and> CHR '']'' \<notin> set s"

definition token_wf :: "string \<Rightarrow> bool" where
  "token_wf t \<longleftrightarrow> (\<exists>w. t = CHR ''['' # w @ [CHR '']''] \<and> (\<forall>c \<in> set w. token_char c))"

lemma token_char_no_bracket [simp]: "\<not> token_char CHR ''[''" "\<not> token_char CHR '']''"
  by (simp_all add: token_char_def char_class_defs)

lemma token_wf_bracketed:
  assumes "token_wf t"
  obtains w where "t = CHR ''['' # w @ [CHR '']'']" "plain w" "\<forall>c \<in> set w. token_char c"
proof -
  from assms obtain w where w: "t = CHR ''['' # w @ [CHR '']'']" "\<forall>c \<in> set w. token_char c"
    by (auto simp: token_wf_def)
  then have "plain w" using token_char_no_bracket by (auto simp: plain_def)
  with that w show thesis by blast
qed

lemma plain_simps [simp]:
  "plain []" "plain (c # s) \<longleftrightarrow> c \<noteq> CHR ''['' \<and> c \<noteq> CHR '']'' \<and> plain s"
  "plain (a @ b) \<longleftrightarrow> plain a \<and> plain b"
  by (auto simp: plain_def)

text \<open>Of two bracketed runs at the same place, none is longer.\<close>

lemma bracketed_unique:
  assumes "plain u" and "plain w" and "u @ CHR '']'' # x = w @ CHR '']'' # y"
  shows "u = w"
  using assms
proof (induction u arbitrary: w)
  case Nil
  then show ?case by (cases w) auto
next
  case (Cons a u)
  then show ?case by (cases w) auto
qed

lemma bracketed_prefix:
  assumes "t = CHR ''['' # u @ [CHR '']'']" "plain u" and "r = CHR ''['' # w @ [CHR '']'']" "plain w"
    and "prefix t (r @ s)"
  shows "t = r"
proof -
  from assms(1,3,5) obtain z where "w @ CHR '']'' # s = u @ CHR '']'' # z" by (auto simp: prefix_def)
  with bracketed_unique [OF assms(4,2)] have "w = u" .
  with assms(1,3) show ?thesis by simp
qed

lemma token_prefix_unique:
  "token_wf t \<Longrightarrow> token_wf r \<Longrightarrow> prefix t (r @ s) \<Longrightarrow> t = r"
  by (metis bracketed_prefix token_wf_bracketed)

section \<open>Pieces\<close>

datatype piece = Ch char | Tok string | Sub string

fun piece_text :: "piece \<Rightarrow> string" where
  "piece_text (Ch c) = [c]"
| "piece_text (Tok t) = t"
| "piece_text (Sub r) = r"

definition render :: "piece list \<Rightarrow> string" where
  "render ps = concat (map piece_text ps)"

lemma render_simps [simp]:
  "render [] = []" "render (p # ps) = piece_text p @ render ps"
  "render (ps @ qs) = render ps @ render qs"
  by (simp_all add: render_def)

lemma render_Ch [simp]: "render (map Ch s) = s"
  by (induction s) auto

text \<open>The tokens of \<open>K\<close> in a text, found from the left.\<close>

function pieces :: "string list \<Rightarrow> string \<Rightarrow> piece list" where
  "pieces K [] = []"
| "pieces K (c # cs) =
     (case find (\<lambda>t. t \<noteq> [] \<and> prefix t (c # cs)) K of
        Some t \<Rightarrow> Tok t # pieces K (drop (length t) (c # cs))
      | None \<Rightarrow> Ch c # pieces K cs)"
  by pat_completeness auto
termination
  by (relation "measure (\<lambda>(K, s). length s)") (auto simp: find_Some_iff Suc_le_eq)

declare pieces.simps(2) [simp del]

text \<open>No token hides in the characters.\<close>

fun clean :: "string list \<Rightarrow> piece list \<Rightarrow> bool" where
  "clean K [] \<longleftrightarrow> True"
| "clean K (Ch c # ps) \<longleftrightarrow> (\<forall>t \<in> set K. \<not> prefix t (c # render ps)) \<and> clean K ps"
| "clean K (p # ps) \<longleftrightarrow> clean K ps"

text \<open>
  A substituted text is inert when it can be no part of a token: it has no bracket and occurs
  in no token, or it is a bracketed label that is itself no token.
\<close>

definition inert :: "string list \<Rightarrow> string \<Rightarrow> bool" where
  "inert K r \<longleftrightarrow> plain r \<and> (\<forall>t \<in> set K. \<not> sublist r t)
     \<or> r \<notin> set K \<and> (\<exists>l. r = CHR ''['' # l @ [CHR '']''] \<and> plain l)"

fun piece_ok :: "string list \<Rightarrow> piece \<Rightarrow> bool" where
  "piece_ok K (Ch c) \<longleftrightarrow> True"
| "piece_ok K (Tok t) \<longleftrightarrow> t \<in> set K"
| "piece_ok K (Sub r) \<longleftrightarrow> inert K r"

fun subst_token :: "string \<Rightarrow> string \<Rightarrow> piece \<Rightarrow> piece" where
  "subst_token t r (Tok t') = (if t' = t then Sub r else Tok t')"
| "subst_token t r p = p"

fun subst_all :: "(string \<times> string) list \<Rightarrow> piece \<Rightarrow> piece" where
  "subst_all kvs (Tok t) = (case map_of kvs t of Some r \<Rightarrow> Sub r | None \<Rightarrow> Tok t)"
| "subst_all kvs p = p"

lemma render_pieces [simp]: "render (pieces K s) = s"
proof (induction K s rule: pieces.induct)
  case (2 K c cs)
  show ?case
  proof (cases "find (\<lambda>t. t \<noteq> [] \<and> prefix t (c # cs)) K")
    case None
    with 2 show ?thesis by (simp add: pieces.simps(2))
  next
    case (Some t)
    then have "prefix t (c # cs)" by (auto simp: find_Some_iff)
    then have "t @ drop (length t) (c # cs) = c # cs" by (auto simp: prefix_def)
    with 2 Some show ?thesis by (simp add: pieces.simps(2))
  qed
qed simp

lemma pieces_ok: "p \<in> set (pieces K s) \<Longrightarrow> piece_ok K p"
proof (induction K s rule: pieces.induct)
  case (2 K c cs)
  show ?case
  proof (cases "find (\<lambda>t. t \<noteq> [] \<and> prefix t (c # cs)) K")
    case None
    with 2 show ?thesis by (auto simp: pieces.simps(2))
  next
    case (Some t)
    then have "t \<in> set K" by (auto simp: find_Some_iff)
    with 2 Some show ?thesis by (auto simp: pieces.simps(2))
  qed
qed simp

lemma clean_pieces: "\<forall>t \<in> set K. t \<noteq> [] \<Longrightarrow> clean K (pieces K s)"
proof (induction K s rule: pieces.induct)
  case (2 K c cs)
  show ?case
  proof (cases "find (\<lambda>t. t \<noteq> [] \<and> prefix t (c # cs)) K")
    case None
    then have "\<forall>t \<in> set K. \<not> prefix t (c # cs)" using 2 by (auto simp: find_None_iff)
    with 2 None show ?thesis by (simp add: pieces.simps(2))
  next
    case (Some t)
    with 2 show ?thesis by (simp add: pieces.simps(2))
  qed
qed simp

section \<open>Replacing a token\<close>

lemma replace_skip:
  assumes "CHR ''['' \<notin> set x"
  shows "replace_all (CHR ''['' # t) r (x @ s) = x @ replace_all (CHR ''['' # t) r s"
  using assms by (induction x) (auto simp: replace_all.simps(2))

lemma replace_head:
  "t \<noteq> [] \<Longrightarrow> replace_all t r (t @ s) = r @ replace_all t r s"
  by (cases t) (simp_all add: replace_all.simps(2))

lemma replace_other:
  assumes "\<not> prefix t (c # s)" and "t \<noteq> []"
  shows "replace_all t r (c # s) = c # replace_all t r s"
  using assms by (auto simp: replace_all.simps(2) strip_prefix_Some prefix_def split: option.split)

lemma replace_bracketed:
  assumes "token_wf t" and "x = CHR ''['' # l @ [CHR '']'']" and "plain l" and "x \<noteq> t"
  shows "replace_all t r (x @ s) = x @ replace_all t r s"
proof -
  from assms(1) obtain w where w: "t = CHR ''['' # w @ [CHR '']'']" "plain w"
    by (rule token_wf_bracketed)
  have "\<not> prefix t (x @ s)"
    using bracketed_prefix [OF w assms(2,3)] assms(4) by auto
  then have "replace_all t r (x @ s) = CHR ''['' # replace_all t r ((l @ [CHR '']'']) @ s)"
    using replace_other [of t "CHR ''[''" "l @ CHR '']'' # s" r] assms(2) w by simp
  also have "\<dots> = x @ replace_all t r s"
    using replace_skip [of "l @ [CHR '']'']"] assms(2,3) w by (auto simp: plain_def)
  finally show ?thesis .
qed

lemma replace_inert:
  assumes "token_wf t" and "t \<in> set K" and "inert K x"
  shows "replace_all t r (x @ s) = x @ replace_all t r s"
proof (cases "plain x")
  case True
  from assms(1) obtain w where "t = CHR ''['' # w" by (auto simp: token_wf_def)
  with True show ?thesis using replace_skip [of x] by (simp add: plain_def)
next
  case False
  with assms obtain l where "x \<notin> set K" "x = CHR ''['' # l @ [CHR '']'']" "plain l"
    by (auto simp: inert_def)
  with assms(1,2) show ?thesis by (metis replace_bracketed)
qed

lemma replace_render:
  assumes "\<forall>t \<in> set K. token_wf t" and "t \<in> set K" and "clean K ps" and "\<forall>p \<in> set ps. piece_ok K p"
  shows "replace_all t r (render ps) = render (map (subst_token t r) ps)"
  using assms(3,4)
proof (induction ps)
  case (Cons p ps)
  have t: "token_wf t" "t \<noteq> []" using assms(1,2) by (auto simp: token_wf_def)
  from Cons have IH: "replace_all t r (render ps) = render (map (subst_token t r) ps)"
    by (cases p) auto
  show ?case
  proof (cases p)
    case (Ch c)
    with Cons.prems assms(2) have "\<not> prefix t (c # render ps)" by simp
    with IH Ch t show ?thesis by (simp add: replace_other)
  next
    case (Tok t')
    show ?thesis
    proof (cases "t' = t")
      case True
      with Tok IH t show ?thesis by (simp add: replace_head)
    next
      case False
      from Tok Cons.prems assms(1) have "token_wf t'" by simp
      then obtain l where "t' = CHR ''['' # l @ [CHR '']'']" "plain l" by (rule token_wf_bracketed)
      from replace_bracketed [OF t(1) this False] Tok False IH show ?thesis by simp
    qed
  next
    case (Sub x)
    with Cons.prems have "inert K x" by simp
    from replace_inert [OF t(1) assms(2) this] Sub IH show ?thesis by simp
  qed
qed simp

text \<open>No new token arises.\<close>

definition token_tail :: "string list \<Rightarrow> string \<Rightarrow> bool" where
  "token_tail K w \<longleftrightarrow> CHR ''['' \<notin> set w \<and> (w = [] \<or> last w = CHR '']'') \<and> (\<exists>t \<in> set K. suffix w t)"

lemma token_tail_tl: "token_tail K (c # w) \<Longrightarrow> token_tail K w"
  by (cases w) (auto simp: token_tail_def dest: suffix_ConsD)

lemma tail_inert:
  assumes "token_tail K w" and "inert K x" and "prefix w (x @ s)"
  shows "w = []"
proof (rule ccontr)
  assume w: "w \<noteq> []"
  show False
  proof (cases "plain x \<and> (\<forall>t \<in> set K. \<not> sublist x t)")
    case True
    from assms(3) have "prefix w x \<or> prefix x w" by (auto simp: prefix_append)
    then show False
    proof
      assume "prefix w x"
      with w have "last w \<in> set x" using set_mono_prefix last_in_set by blast
      with True assms(1) w show False by (auto simp: token_tail_def plain_def)
    next
      assume "prefix x w"
      moreover obtain t where "t \<in> set K" "suffix w t" using assms(1) by (auto simp: token_tail_def)
      ultimately have "sublist x t" by (meson sublist_order.order_trans prefix_imp_sublist suffix_imp_sublist)
      with True \<open>t \<in> set K\<close> show False by simp
    qed
  next
    case False
    with assms(2) obtain l where "x = CHR ''['' # l @ [CHR '']'']" by (auto simp: inert_def)
    with assms(1,3) w show False by (cases w) (auto simp: token_tail_def)
  qed
qed

lemma tail_survives:
  assumes K: "\<forall>t \<in> set K. token_wf t" and "inert K r"
    and "\<forall>p \<in> set ps. piece_ok K p" and "token_tail K w"
    and "prefix w (render (map (subst_token t r) ps))"
  shows "prefix w (render ps)"
  using assms(3-)
proof (induction ps arbitrary: w)
  case (Cons p ps)
  show ?case
  proof (cases "w = []")
    case False
    show ?thesis
    proof (cases p)
      case (Ch c)
      with False Cons.prems(3) obtain w' where w: "w = c # w'"
        "prefix w' (render (map (subst_token t r) ps))" by (cases w) auto
      with Cons Ch token_tail_tl have "prefix w' (render ps)" by simp
      with Ch w show ?thesis by simp
    next
      case (Tok t')
      show ?thesis
      proof (cases "t' = t")
        case True
        with Tok Cons.prems(3) have "prefix w (r @ render (map (subst_token t r) ps))" by simp
        with tail_inert [OF Cons.prems(2) assms(2)] False show ?thesis by blast
      next
        case neq: False
        from Tok Cons.prems(1) K have "token_wf t'" by simp
        then obtain l where "t' = CHR ''['' # l" by (auto simp: token_wf_def)
        with Tok neq Cons.prems(2,3) False show ?thesis by (cases w) (auto simp: token_tail_def)
      qed
    next
      case (Sub x)
      with Cons.prems(3) have "prefix w (x @ render (map (subst_token t r) ps))" by simp
      with tail_inert [OF Cons.prems(2), of x] Sub Cons.prems(1) False show ?thesis by simp blast
    qed
  qed simp
qed simp

lemma clean_subst:
  assumes K: "\<forall>t \<in> set K. token_wf t" and r: "inert K r"
    and "\<forall>p \<in> set ps. piece_ok K p" and "clean K ps"
  shows "clean K (map (subst_token t r) ps)"
  using assms(3-)
proof (induction ps)
  case (Cons p ps)
  then have IH: "clean K (map (subst_token t r) ps)" by (cases p) auto
  show ?case
  proof (cases p)
    case (Ch c)
    have "\<not> prefix u (c # render (map (subst_token t r) ps))" if u: "u \<in> set K" for u
    proof
      assume pre: "prefix u (c # render (map (subst_token t r) ps))"
      from u K obtain w where w: "u = CHR ''['' # w @ [CHR '']'']" "plain w"
        by (metis token_wf_bracketed)
      have "token_tail K (w @ [CHR '']''])"
        using u w by (auto simp: token_tail_def plain_def suffix_def intro!: bexI [of _ u])
      moreover have "prefix (w @ [CHR '']'']) (render (map (subst_token t r) ps))"
        using pre w by simp
      ultimately have "prefix (w @ [CHR '']'']) (render ps)"
        using tail_survives [OF K r] Cons.prems(1) by simp
      with pre w have "prefix u (c # render ps)" by simp
      with Cons.prems(2) Ch u show False by simp
    qed
    with IH Ch show ?thesis by simp
  qed (use IH in auto)
qed simp

lemma replace_sequence:
  assumes K: "\<forall>t \<in> set K. token_wf t" and "set (map fst kvs) \<subseteq> set K" and "\<forall>r \<in> set (map snd kvs). inert K r"
    and "clean K ps" and "\<forall>p \<in> set ps. piece_ok K p"
  shows "foldl (\<lambda>s (t, r). replace_all t r s) (render ps) kvs = render (map (subst_all kvs) ps)"
  using assms(2-)
proof (induction kvs arbitrary: ps)
  case Nil
  have "map (subst_all []) ps = ps" by (rule map_idI) (case_tac x, auto)
  then show ?case by simp
next
  case (Cons kv kvs)
  obtain t r where kv: "kv = (t, r)" by (cases kv)
  let ?ps = "map (subst_token t r) ps"
  have ok: "\<forall>p \<in> set ?ps. piece_ok K p"
  proof
    fix p assume "p \<in> set ?ps"
    then obtain q where "q \<in> set ps" "p = subst_token t r q" by auto
    with Cons.prems kv show "piece_ok K p" by (cases q) auto
  qed
  have "clean K ?ps" using clean_subst [OF K] Cons.prems kv by simp
  with Cons ok kv have "foldl (\<lambda>s (t, r). replace_all t r s) (render ?ps) kvs = render (map (subst_all kvs) ?ps)"
    by simp
  moreover have "replace_all t r (render ps) = render ?ps"
    using replace_render [OF K] Cons.prems kv by simp
  moreover have "map (subst_all kvs) ?ps = map (subst_all ((t, r) # kvs)) ps"
  proof -
    have "subst_all kvs (subst_token t r p) = subst_all ((t, r) # kvs) p" for p
      by (cases p) auto
    then show ?thesis by simp
  qed
  ultimately show ?case unfolding kv by (simp del: map_map)
qed

text \<open>The whole vault at once.\<close>

definition replace_tokens :: "(string \<times> string) list \<Rightarrow> string \<Rightarrow> string" where
  "replace_tokens kvs s = render (map (subst_all kvs) (pieces (map fst kvs) s))"

theorem replace_sequence_once:
  assumes "\<forall>t \<in> set (map fst kvs). token_wf t" and "\<forall>r \<in> set (map snd kvs). inert (map fst kvs) r"
  shows "foldl (\<lambda>s (t, r). replace_all t r s) s kvs = replace_tokens kvs s"
proof -
  have ne: "\<forall>t \<in> set (map fst kvs). t \<noteq> []" using assms(1) by (auto simp: token_wf_def)
  have "foldl (\<lambda>s (t, r). replace_all t r s) (render (pieces (map fst kvs) s)) kvs = replace_tokens kvs s"
    unfolding replace_tokens_def
    by (rule replace_sequence [OF assms(1) subset_refl assms(2) clean_pieces [OF ne]]) (simp add: pieces_ok)
  then show ?thesis by simp
qed

section \<open>Texts in two parts\<close>

text \<open>No token starts in \<open>a\<close> and ends behind it.\<close>

definition no_cross :: "string list \<Rightarrow> string \<Rightarrow> string \<Rightarrow> bool" where
  "no_cross K a b \<longleftrightarrow> (\<forall>t \<in> set K. \<forall>x. suffix x a \<longrightarrow> x \<noteq> [] \<longrightarrow> prefix t (x @ b) \<longrightarrow> prefix t x)"

lemma no_cross_suffix: "no_cross K (y @ a) b \<Longrightarrow> no_cross K a b"
  by (auto simp: no_cross_def intro: suffix_appendI)

lemma pieces_append:
  "no_cross K a b \<Longrightarrow> pieces K (a @ b) = pieces K a @ pieces K b"
proof (induction K a rule: pieces.induct)
  case (2 K c cs)
  have same: "find (\<lambda>t. t \<noteq> [] \<and> prefix t ((c # cs) @ b)) K = find (\<lambda>t. t \<noteq> [] \<and> prefix t (c # cs)) K"
  proof (rule find_cong [OF refl])
    fix t assume "t \<in> set K"
    with 2(3) have "prefix t ((c # cs) @ b) \<Longrightarrow> prefix t (c # cs)" by (auto simp: no_cross_def)
    then show "(t \<noteq> [] \<and> prefix t ((c # cs) @ b)) = (t \<noteq> [] \<and> prefix t (c # cs))"
      by (auto simp del: append_Cons intro: prefix_prefix)
  qed
  show ?case
  proof (cases "find (\<lambda>t. t \<noteq> [] \<and> prefix t (c # cs)) K")
    case None
    have "no_cross K cs b" using no_cross_suffix [of K "[c]" cs b] 2(3) by simp
    with 2(1) None same show ?thesis by (simp add: pieces.simps(2))
  next
    case (Some t)
    then have p: "prefix t (c # cs)" by (auto simp: find_Some_iff)
    then have d: "drop (length t) ((c # cs) @ b) = drop (length t) (c # cs) @ b"
      using prefix_length_le by (fastforce simp del: append_Cons)
    from p have "t @ drop (length t) (c # cs) = c # cs" by (auto simp: prefix_def)
    with no_cross_suffix [of K t "drop (length t) (c # cs)" b] 2(3)
    have "no_cross K (drop (length t) (c # cs)) b" by simp
    with 2(2) [OF Some] Some same d show ?thesis by (simp add: pieces.simps(2))
  qed
qed simp

lemma replace_tokens_append:
  "no_cross (map fst kvs) a b \<Longrightarrow> replace_tokens kvs (a @ b) = replace_tokens kvs a @ replace_tokens kvs b"
  by (simp add: replace_tokens_def pieces_append)

lemma replace_tokens_Nil [simp]: "replace_tokens kvs [] = []"
  by (simp add: replace_tokens_def)

lemma pieces_empty_keys [simp]: "pieces [] s = map Ch s"
  by (induction s) (auto simp: pieces.simps(2))

lemma replace_tokens_empty [simp]: "replace_tokens [] s = s"
  by (simp add: replace_tokens_def o_def)

text \<open>A text whose pieces are already known.\<close>

lemma replace_tokens_render:
  assumes "\<forall>t \<in> set (map fst kvs). token_wf t" and "\<forall>r \<in> set (map snd kvs). inert (map fst kvs) r"
    and "clean (map fst kvs) ps" and "\<forall>p \<in> set ps. piece_ok (map fst kvs) p"
  shows "replace_tokens kvs (render ps) = render (map (subst_all kvs) ps)"
  using replace_sequence_once [OF assms(1,2)] replace_sequence [OF assms(1) subset_refl assms(2-4)]
  by simp

lemma clean_gap:
  assumes "\<forall>t \<in> set K. token_wf t \<and> \<not> sublist t g" and "clean K ps"
    and "ps = [] \<or> (\<exists>t qs. ps = Tok t # qs \<and> token_wf t)"
  shows "clean K (map Ch g @ ps)"
  using assms(1)
proof (induction g)
  case (Cons c g)
  have "\<not> prefix t (c # g @ render ps)" if t: "t \<in> set K" for t
  proof
    assume p: "prefix t (c # g @ render ps)"
    from t Cons.prems have wf: "token_wf t" and nb: "\<not> sublist t (c # g)" by auto
    from wf obtain w where w: "t = CHR ''['' # w @ [CHR '']'']" "plain w" by (rule token_wf_bracketed)
    have "\<not> prefix t (c # g)" using nb by (auto dest: prefix_imp_sublist)
    with p obtain u us where u: "t = (c # g) @ u # us" "prefix (u # us) (render ps)"
      by (metis append_Cons list.exhaust prefix_append prefix_order.refl append_Nil2)
    then have "ps \<noteq> []" by auto
    with assms(3) u(2) have "u = CHR ''[''" by (auto simp: token_wf_def)
    moreover from u(1) w have "u \<in> set (w @ [CHR '']''])"
      by (metis append_Cons in_set_conv_decomp list.inject)
    ultimately show False using w(2) by (auto simp: plain_def)
  qed
  moreover have "clean K (map Ch g @ ps)"
    using Cons by (auto simp: sublist_Cons_right)
  ultimately show ?case by simp
qed (use assms in simp)

end
