(* ===== verification/Dlp.thy ===== *)
theory Dlp
  imports Token_Text "HOL-Library.Product_Lexorder"
begin

text \<open>
  \<open>fwllm-gateway/src/inspectors/dlp.rs\<close>: masking of sensitive data (\<open>sanitize\<close>) and its
  inverse on replies (\<open>deanonymize\<close>).  A text is its UTF-8 bytes, a span a pair of byte offsets.
  The regex engine is the parameter \<open>find\<close>: the spans \<open>find_iter\<close> reports for the pattern of
  a detector.  The random words that \<open>rand::random\<close> returns are the list \<open>draws\<close>; an exhausted
  list is \<open>None\<close>.  A hash map's iteration order is the order of its list, and the theorems hold
  for every order.
\<close>

section \<open>Detection\<close>

type_synonym finder = "string \<Rightarrow> string \<Rightarrow> (nat \<times> nat) list"

type_synonym vault = "(string, string) hmap"

type_synonym scope = "(string, nat) hmap"

record dlp_state =
  ds_vault :: vault
  ds_scope :: scope

record hit =
  hit_start :: nat
  hit_end :: nat
  hit_order :: nat
  hit_typ :: string

definition detector_types :: "string list" where
  "detector_types = [''EMAIL'', ''PHONE'', ''PASSPORT'', ''SNILS'', ''INN'', ''CARD'', ''PERSON'',
     ''ONLINE_ACCOUNT'', ''PROFILE_URL'', ''SOCIAL_HANDLE'', ''USERNAME'']"

fun collect_hits :: "finder \<Rightarrow> string \<Rightarrow> nat \<Rightarrow> string list \<Rightarrow> hit list" where
  "collect_hits detect text order [] = []"
| "collect_hits detect text order (typ # ts) =
     map (\<lambda>(s, e). \<lparr>hit_start = s, hit_end = e, hit_order = order, hit_typ = typ\<rparr>) (detect typ text)
     @ collect_hits detect text (order + 1) ts"

definition sort_hits :: "hit list \<Rightarrow> hit list" where
  "sort_hits hs = sort_key (\<lambda>h. (hit_start h, hit_order h)) hs"

fun accept_hits :: "nat \<Rightarrow> hit list \<Rightarrow> hit list" where
  "accept_hits last_end [] = []"
| "accept_hits last_end (h # hs) =
     (if hit_start h \<ge> last_end then h # accept_hits (hit_end h) hs else accept_hits last_end hs)"

definition accepted :: "finder \<Rightarrow> string \<Rightarrow> hit list" where
  "accepted detect text = accept_hits 0 (sort_hits (collect_hits detect text 0 detector_types))"

section \<open>Masking\<close>

definition format_token :: "string \<Rightarrow> nat \<Rightarrow> nat \<Rightarrow> string" where
  "format_token typ a b = CHR ''['' # typ @ CHR ''_'' # hex16 a @ hex16 b @ [CHR '']'']"

fun fresh_token :: "string \<Rightarrow> vault \<Rightarrow> (nat \<times> nat) list \<Rightarrow> (string \<times> (nat \<times> nat) list) option" where
  "fresh_token typ v [] = None"
| "fresh_token typ v ((a, b) # ds) =
     (let t = format_token typ a b in
      if hget v t = None then Some (t, ds) else fresh_token typ v ds)"

definition find_value :: "string \<Rightarrow> vault \<Rightarrow> string option" where
  "find_value val v = map_option fst (find (\<lambda>(k, w). w = val) v)"

definition span :: "string \<Rightarrow> nat \<Rightarrow> nat \<Rightarrow> string" where
  "span out s e = drop s (take e out)"

definition replace_range :: "nat \<Rightarrow> nat \<Rightarrow> string \<Rightarrow> string \<Rightarrow> string" where
  "replace_range s e t out = take s out @ t @ drop e out"

definition token_for ::
  "string \<Rightarrow> string \<Rightarrow> vault \<Rightarrow> (nat \<times> nat) list \<Rightarrow> (string \<times> vault \<times> (nat \<times> nat) list) option" where
  "token_for typ val v ds =
     (case find_value val v of
        Some t \<Rightarrow> Some (t, v, ds)
      | None \<Rightarrow> (case fresh_token typ v ds of
          None \<Rightarrow> None
        | Some (t, ds') \<Rightarrow> Some (t, hput t val v, ds')))"

fun apply_hits ::
  "hit list \<Rightarrow> string \<Rightarrow> vault \<Rightarrow> scope \<Rightarrow> (nat \<times> nat) list
     \<Rightarrow> (string \<times> vault \<times> scope \<times> (nat \<times> nat) list) option" where
  "apply_hits [] out v sc ds = Some (out, v, sc, ds)"
| "apply_hits (h # hs) out v sc ds =
     (case token_for (hit_typ h) (span out (hit_start h) (hit_end h)) v ds of
        None \<Rightarrow> None
      | Some (t, v', ds') \<Rightarrow>
          apply_hits hs (replace_range (hit_start h) (hit_end h) t out) v'
            (hput t ((case hget sc t of Some n \<Rightarrow> n | None \<Rightarrow> 0) + 1) sc) ds')"

definition sanitize ::
  "finder \<Rightarrow> string \<Rightarrow> vault \<Rightarrow> scope \<Rightarrow> (nat \<times> nat) list
     \<Rightarrow> (string \<times> vault \<times> scope \<times> (nat \<times> nat) list) option" where
  "sanitize detect text v sc ds = apply_hits (rev (accepted detect text)) text v sc ds"

section \<open>Restoring\<close>

definition label_of :: "string \<Rightarrow> string" where
  "label_of token =
     (case strip_prefix ''['' token of
        None \<Rightarrow> ''[REDACTED]''
      | Some t \<Rightarrow> (case strip_suffix '']'' t of
          None \<Rightarrow> ''[REDACTED]''
        | Some u \<Rightarrow> (case rsplit_once CHR ''_'' u of
            None \<Rightarrow> ''[REDACTED]''
          | Some (typ, _) \<Rightarrow> ''['' @ typ @ '']'')))"

definition replacement :: "scope \<Rightarrow> string \<Rightarrow> string \<times> string \<Rightarrow> string" where
  "replacement sc policy kv =
     (if policy = ''restore'' \<and> hget sc (fst kv) \<noteq> None then snd kv else label_of (fst kv))"

definition deanonymize :: "string \<Rightarrow> vault \<Rightarrow> scope \<Rightarrow> string \<Rightarrow> string" where
  "deanonymize text v sc policy =
     foldl (\<lambda>out kv. replace_all (fst kv) (replacement sc policy kv) out) text v"

section \<open>Accepted hits\<close>

text \<open>
  What the regex engine documents for matches, and what the patterns of this file exclude:
  a match is a non-empty range of the text and contains no square bracket.
\<close>

definition detect_ok :: "finder \<Rightarrow> string \<Rightarrow> bool" where
  "detect_ok detect tx \<longleftrightarrow>
     (\<forall>ty \<in> set detector_types. \<forall>(s, e) \<in> set (detect ty tx).
        s < e \<and> e \<le> length tx \<and> plain (span tx s e))"

abbreviation hit_key :: "hit \<Rightarrow> nat \<times> nat" where
  "hit_key h \<equiv> (hit_start h, hit_order h)"

lemma collect_hits_sound:
  "h \<in> set (collect_hits detect tx n ts) \<Longrightarrow>
   hit_typ h \<in> set ts \<and> (hit_start h, hit_end h) \<in> set (detect (hit_typ h) tx)"
  by (induction detect tx n ts rule: collect_hits.induct) auto

lemma collect_hits_complete:
  assumes "distinct ts" and "i < length ts" and "(s, e) \<in> set (detect (ts ! i) tx)"
  shows "\<lparr>hit_start = s, hit_end = e, hit_order = n + i, hit_typ = ts ! i\<rparr> \<in> set (collect_hits detect tx n ts)"
  using assms
proof (induction detect tx n ts arbitrary: i rule: collect_hits.induct)
  case (2 detect tx n ty ts)
  show ?case
  proof (cases i)
    case 0
    with 2 show ?thesis by (force simp: image_iff)
  next
    case (Suc j)
    with 2 have "\<lparr>hit_start = s, hit_end = e, hit_order = (n + 1) + j, hit_typ = ts ! j\<rparr>
        \<in> set (collect_hits detect tx (n + 1) ts)" by simp
    with Suc show ?thesis by simp
  qed
qed simp

lemma set_accept_hits: "set (accept_hits p hs) \<subseteq> set hs"
  by (induction p hs rule: accept_hits.induct) auto

lemma accepted_sound:
  "h \<in> set (accepted detect tx) \<Longrightarrow>
   hit_typ h \<in> set detector_types \<and> (hit_start h, hit_end h) \<in> set (detect (hit_typ h) tx)"
  using set_accept_hits collect_hits_sound unfolding accepted_def sort_hits_def
  by (metis set_sort subsetD)

text \<open>Spans that follow each other inside \<open>pos .. n\<close>.\<close>

fun spans_ok :: "nat \<Rightarrow> nat \<Rightarrow> hit list \<Rightarrow> bool" where
  "spans_ok pos n [] \<longleftrightarrow> pos \<le> n"
| "spans_ok pos n (h # hs) \<longleftrightarrow>
     pos \<le> hit_start h \<and> hit_start h < hit_end h \<and> hit_end h \<le> n \<and> spans_ok (hit_end h) n hs"

lemma spans_ok_le: "spans_ok pos n hs \<Longrightarrow> pos \<le> n"
  by (induction pos n hs rule: spans_ok.induct) auto

lemma spans_ok_snoc:
  "spans_ok pos n (hs @ [h]) \<longleftrightarrow>
     spans_ok pos (hit_start h) hs \<and> hit_start h < hit_end h \<and> hit_end h \<le> n"
  by (induction pos n hs rule: spans_ok.induct) (auto dest: spans_ok_le)

lemma accept_spans_ok:
  "p \<le> n \<Longrightarrow> \<forall>h \<in> set hs. hit_start h < hit_end h \<and> hit_end h \<le> n \<Longrightarrow> spans_ok p n (accept_hits p hs)"
  by (induction p hs rule: accept_hits.induct) auto

lemma accepted_spans:
  assumes "detect_ok detect tx"
  shows "spans_ok 0 (length tx) (accepted detect tx)"
proof -
  have "\<forall>h \<in> set (sort_hits (collect_hits detect tx 0 detector_types)).
      hit_start h < hit_end h \<and> hit_end h \<le> length tx"
    using assms collect_hits_sound by (fastforce simp: sort_hits_def detect_ok_def)
  then show ?thesis by (simp add: accepted_def accept_spans_ok)
qed

lemma accept_covers:
  assumes "sorted (map hit_key hs)" and "h \<in> set hs"
  shows "h \<in> set (accept_hits p hs) \<or> hit_start h < p \<or>
    (\<exists>g \<in> set (accept_hits p hs). hit_key g \<le> hit_key h \<and> hit_start h < hit_end g)"
  using assms
proof (induction p hs rule: accept_hits.induct)
  case (2 p g hs)
  show ?case
  proof (cases "h = g")
    case False
    with 2 have h: "h \<in> set hs" "hit_key g \<le> hit_key h" "sorted (map hit_key hs)" by auto
    show ?thesis
    proof (cases "hit_start g \<ge> p")
      case True
      with 2(1) h show ?thesis by auto
    next
      case False
      with 2(2) h show ?thesis by auto
    qed
  qed auto
qed simp

lemma accepted_covers:
  assumes "i < length detector_types" and "(s, e) \<in> set (detect (detector_types ! i) tx)"
  obtains g where "g \<in> set (accepted detect tx)" "(hit_start g, hit_order g) \<le> (s, i)"
    "s < hit_end g \<or> (hit_start g = s \<and> hit_end g = e \<and> hit_typ g = detector_types ! i)"
proof -
  let ?h = "\<lparr>hit_start = s, hit_end = e, hit_order = i, hit_typ = detector_types ! i\<rparr>"
  let ?hs = "sort_hits (collect_hits detect tx 0 detector_types)"
  have "distinct detector_types" by (simp add: detector_types_def)
  from collect_hits_complete [OF this assms(1), of s e detect tx 0] assms(2)
  have "?h \<in> set ?hs" by (simp add: sort_hits_def)
  moreover have "sorted (map hit_key ?hs)" by (simp add: sort_hits_def)
  ultimately have "?h \<in> set (accept_hits 0 ?hs) \<or>
      (\<exists>g \<in> set (accept_hits 0 ?hs). hit_key g \<le> hit_key ?h \<and> hit_start ?h < hit_end g)"
    using accept_covers [of ?hs ?h 0] by auto
  then show thesis using that by (fastforce simp: accepted_def)
qed

section \<open>The vault\<close>

definition minted :: "string \<Rightarrow> bool" where
  "minted t \<longleftrightarrow> (\<exists>ty \<in> set detector_types. \<exists>a b. t = format_token ty a b)"

definition vault_ok :: "vault \<Rightarrow> bool" where
  "vault_ok v \<longleftrightarrow> hmap_ok v \<and> distinct (map snd v) \<and>
     (\<forall>(t, val) \<in> set v. minted t \<and> val \<noteq> [] \<and> plain val)"

definition extends :: "vault \<Rightarrow> vault \<Rightarrow> bool" where
  "extends v v' \<longleftrightarrow> (\<forall>t val. hget v t = Some val \<longrightarrow> hget v' t = Some val)"

lemma extends_refl [simp]: "extends v v"
  by (simp add: extends_def)

lemma extends_trans: "extends a b \<Longrightarrow> extends b c \<Longrightarrow> extends a c"
  by (simp add: extends_def)

lemma vault_ok_Nil [simp]: "vault_ok []"
  by (simp add: vault_ok_def)

lemma hex_digit_char: "d < 16 \<Longrightarrow> token_char (hex_digit d)"
  by (auto simp: hex_digit_def token_char_def is_ascii_alphanumeric_def is_digit_def is_lower_def byte_def)

lemma hex16_chars: "c \<in> set (hex16 n) \<Longrightarrow> token_char c \<and> c \<noteq> CHR ''_''"
proof -
  have "d < 16 \<Longrightarrow> hex_digit d \<noteq> CHR ''_''" for d
  proof
    assume "d < 16" and "hex_digit d = CHR ''_''"
    then have "byte (hex_digit d) = 95" by (simp add: byte_def)
    with \<open>d < 16\<close> show False by (auto simp: hex_digit_def byte_def split: if_splits)
  qed
  then show "c \<in> set (hex16 n) \<Longrightarrow> token_char c \<and> c \<noteq> CHR ''_''"
    by (auto simp: hex16_def hex_digit_char)
qed

lemma detector_chars: "ty \<in> set detector_types \<Longrightarrow> c \<in> set ty \<Longrightarrow> token_char c"
  by (auto simp: detector_types_def token_char_def is_ascii_alphanumeric_def is_upper_def byte_def)

lemma minted_wf:
  assumes "minted t"
  shows "token_wf t"
proof -
  from assms obtain ty a b where t: "ty \<in> set detector_types" "t = format_token ty a b"
    by (auto simp: minted_def)
  have "\<forall>c \<in> set (ty @ CHR ''_'' # hex16 a @ hex16 b). token_char c"
    using detector_chars [OF t(1)] hex16_chars by (auto simp: token_char_def [of "CHR ''_''"])
  with t(2) show ?thesis by (auto simp: token_wf_def format_token_def)
qed

lemma minted_length: "minted t \<Longrightarrow> length t \<le> 49"
  by (auto simp: minted_def format_token_def detector_types_def)

lemma label_minted:
  "label_of (format_token ty a b) = ''['' @ ty @ '']''"
proof -
  have "strip_suffix '']'' (ty @ CHR ''_'' # hex16 a @ hex16 b @ '']'') = Some (ty @ CHR ''_'' # hex16 a @ hex16 b)"
    by (simp add: strip_suffix_Some)
  moreover have "CHR ''_'' \<notin> set (hex16 a @ hex16 b)" using hex16_chars by auto
  ultimately show ?thesis
    by (simp add: label_of_def format_token_def rsplit_once_Some)
qed

lemma label_not_minted:
  assumes "ty \<in> set detector_types"
  shows "\<not> minted (''['' @ ty @ '']'')"
proof
  assume "minted (''['' @ ty @ '']'')"
  then obtain ty' a b where t: "ty' \<in> set detector_types" "''['' @ ty @ '']'' = format_token ty' a b"
    by (auto simp: minted_def)
  then have "length (''['' @ ty @ '']'') = length (format_token ty' a b)" by simp
  moreover have "length ty \<le> 14" using assms by (auto simp: detector_types_def)
  ultimately show False by (simp add: format_token_def)
qed

lemma find_value_iff:
  assumes "vault_ok v"
  shows "find_value val v = Some t \<longleftrightarrow> hget v t = Some val"
proof -
  have "hget v t = Some val \<longleftrightarrow> (t, val) \<in> set v"
    using assms by (simp add: vault_ok_def hget_in_set)
  moreover have "distinct (map snd v) \<Longrightarrow> find_value val v = Some t \<longleftrightarrow> (t, val) \<in> set v"
    by (induction v) (force simp: find_value_def image_iff)+
  ultimately show ?thesis using assms by (simp add: vault_ok_def)
qed

lemma find_value_None: "find_value val v = None \<longleftrightarrow> val \<notin> set (map snd v)"
  by (induction v) (auto simp: find_value_def)

lemma fresh_token_new:
  "fresh_token ty v ds = Some (t, ds') \<Longrightarrow> hget v t = None \<and> (\<exists>a b. t = format_token ty a b)"
  by (induction ty v ds rule: fresh_token.induct) (auto simp: Let_def split: if_splits)

lemma hput_new: "hget v t = None \<Longrightarrow> hput t val v = v @ [(t, val)]"
  by (induction v) (auto split: if_splits)

lemma token_for_ok:
  assumes "token_for ty val v ds = Some (t, v', ds')" and v: "vault_ok v"
    and "ty \<in> set detector_types" and "val \<noteq> []" and "plain val"
  shows "vault_ok v' \<and> extends v v' \<and> hget v' t = Some val \<and> (v' = v \<or> hkeys v' = hkeys v @ [t])"
proof (cases "find_value val v")
  case (Some u)
  with assms(1) have "t = u" "v' = v" by (auto simp: token_for_def)
  with Some v find_value_iff [OF v] show ?thesis by simp
next
  case None
  with assms(1) have f: "fresh_token ty v ds = Some (t, ds')" "v' = hput t val v"
    by (auto simp: token_for_def split: option.splits)
  from fresh_token_new [OF f(1)] obtain a b where t: "hget v t = None" "t = format_token ty a b" by auto
  have "minted t" using t(2) assms(3) by (auto simp: minted_def)
  moreover have "t \<notin> set (map fst v)" using t(1) by (force simp: map_of_eq_None_iff)
  ultimately have "vault_ok v'"
    using None v assms(4,5) t(1) f(2) by (auto simp: vault_ok_def hput_new find_value_None hmap_ok_def)
  moreover have "hget v' t = Some val \<and> extends v v'" using t(1) f(2) by (auto simp: extends_def)
  moreover have "hkeys v' = hkeys v @ [t]" using t(1) f(2) by (simp add: hput_new)
  ultimately show ?thesis by simp
qed

section \<open>Masking, seen from the front\<close>

text \<open>
  The text with every accepted span replaced by the token of its value, as pieces from the
  left: \<open>apply_hits\<close>, which works in place from the back, computes this.
\<close>

definition mask_of :: "vault \<Rightarrow> string \<Rightarrow> string" where
  "mask_of v val = (case find_value val v of Some t \<Rightarrow> t | None \<Rightarrow> val)"

fun masked :: "vault \<Rightarrow> string \<Rightarrow> nat \<Rightarrow> hit list \<Rightarrow> nat \<Rightarrow> piece list" where
  "masked v tx pos [] n = map Ch (span tx pos n)"
| "masked v tx pos (h # hs) n =
     map Ch (span tx pos (hit_start h)) @ Tok (mask_of v (span tx (hit_start h) (hit_end h)))
       # masked v tx (hit_end h) hs n"

lemma masked_snoc:
  "masked v tx pos (hs @ [h]) n = masked v tx pos hs (hit_start h)
     @ Tok (mask_of v (span tx (hit_start h) (hit_end h))) # map Ch (span tx (hit_end h) n)"
  by (induction v tx pos hs n rule: masked.induct) auto

lemma span_take: "e \<le> b \<Longrightarrow> b \<le> length tx \<Longrightarrow> span (take b tx @ r) s e = span tx s e"
  by (simp add: span_def min_def)

lemma span_length [simp]: "e \<le> length tx \<Longrightarrow> length (span tx s e) = e - s"
  by (simp add: span_def)

lemma span_split: "s \<le> m \<Longrightarrow> m \<le> e \<Longrightarrow> span tx s m @ span tx m e = span tx s e"
proof -
  assume a: "s \<le> m" "m \<le> e"
  have "drop s (take m x @ drop m x) = drop s (take m x) @ drop m x" for x :: string
    using a by (cases "m \<le> length x") (simp_all only: drop_append length_take min_def, simp_all)
  from this [of "take e tx"] have "drop s (take e tx) = drop s (take m (take e tx)) @ drop m (take e tx)"
    by (simp only: append_take_drop_id)
  with a show ?thesis by (simp add: span_def min_def)
qed

lemma replace_range_take:
  assumes "s \<le> e" and "e \<le> b" and "b \<le> length tx"
  shows "replace_range s e t (take b tx @ r) = take s tx @ t @ span tx e b @ r"
  using assms by (simp add: replace_range_def span_def min_def)

lemma mask_of_kept: "vault_ok v \<Longrightarrow> hget v t = Some val \<Longrightarrow> mask_of v val = t"
  by (simp add: mask_of_def find_value_iff [THEN iffD2])

lemma apply_hits_vault:
  assumes "apply_hits hs out v sc ds = Some (out', v', sc', ds')" and "vault_ok v"
    and "set (hkeys v) \<subseteq> set (hkeys sc)" and "\<forall>h \<in> set hs. hit_typ h \<in> set detector_types"
    and "\<forall>h \<in> set hs. plain (span tx (hit_start h) (hit_end h))"
    and "out = take b tx @ r" and "spans_ok 0 b (rev hs)" and "b \<le> length tx"
  shows "vault_ok v' \<and> extends v v' \<and> set (hkeys v') \<subseteq> set (hkeys sc') \<and>
    out' = render (masked v' tx 0 (rev hs) b) @ r \<and>
    (\<forall>h \<in> set hs. \<exists>t. hget v' t = Some (span tx (hit_start h) (hit_end h)))"
  using assms
proof (induction hs arbitrary: out v sc ds b r)
  case Nil
  then show ?case by (simp add: span_def)
next
  case (Cons h hs)
  let ?val = "span tx (hit_start h) (hit_end h)"
  from Cons.prems(7) have b: "spans_ok 0 (hit_start h) (rev hs)" "hit_start h < hit_end h" "hit_end h \<le> b"
    by (simp_all add: spans_ok_snoc)
  have val: "span out (hit_start h) (hit_end h) = ?val"
    using Cons.prems(6,8) b by (simp add: span_take)
  with Cons.prems(1) obtain t v1 ds1 where tk: "token_for (hit_typ h) ?val v ds = Some (t, v1, ds1)"
    and rest: "apply_hits hs (replace_range (hit_start h) (hit_end h) t out) v1
      (hput t ((case hget sc t of Some n \<Rightarrow> n | None \<Rightarrow> 0) + 1) sc) ds1 = Some (out', v', sc', ds')"
    by (auto split: option.splits)
  have "?val \<noteq> []" using b Cons.prems(8) span_length [of "hit_end h" tx "hit_start h"]
    by (metis diff_is_0_eq le_trans linorder_not_le list.size(3))
  with token_for_ok [OF tk Cons.prems(2)] Cons.prems(4,5)
  have t: "vault_ok v1" "extends v v1" "hget v1 t = Some ?val" "v1 = v \<or> hkeys v1 = hkeys v @ [t]" by auto
  let ?sc = "hput t ((case hget sc t of Some n \<Rightarrow> n | None \<Rightarrow> 0) + 1) sc"
  have sc: "set (hkeys v1) \<subseteq> set (hkeys ?sc)"
  proof -
    have "set (hkeys v1) \<subseteq> insert t (set (hkeys v))" using t(4) by (elim disjE) auto
    moreover have "set (hkeys ?sc) = insert t (set (hkeys sc))" by (simp add: dom_update)
    ultimately show ?thesis using Cons.prems(3) by blast
  qed
  have out: "replace_range (hit_start h) (hit_end h) t out
      = take (hit_start h) tx @ (t @ span tx (hit_end h) b @ r)"
    using Cons.prems(6,8) b by (simp add: replace_range_take)
  have le: "hit_start h \<le> length tx" using b Cons.prems(8) by linarith
  from Cons.IH [OF rest t(1) sc _ _ out b(1) le] Cons.prems(4,5)
  have IH: "vault_ok v'" "extends v1 v'" "set (hkeys v') \<subseteq> set (hkeys sc')"
    "out' = render (masked v' tx 0 (rev hs) (hit_start h)) @ t @ span tx (hit_end h) b @ r"
    "\<forall>h \<in> set hs. \<exists>t. hget v' t = Some (span tx (hit_start h) (hit_end h))" by auto
  have tv: "hget v' t = Some ?val" using IH(2) t(3) by (simp add: extends_def)
  then have "mask_of v' ?val = t" using IH(1) mask_of_kept by blast
  with IH tv extends_trans [OF t(2) IH(2)] show ?case by (auto simp: masked_snoc)
qed

lemma sanitize_ok:
  assumes "sanitize detect tx v sc ds = Some (out, v', sc', ds')" and d: "detect_ok detect tx"
    and "vault_ok v" and "set (hkeys v) \<subseteq> set (hkeys sc)"
  shows "vault_ok v' \<and> extends v v' \<and> set (hkeys v') \<subseteq> set (hkeys sc') \<and>
    out = render (masked v' tx 0 (accepted detect tx) (length tx)) \<and>
    (\<forall>h \<in> set (accepted detect tx). \<exists>t. hget v' t = Some (span tx (hit_start h) (hit_end h)))"
proof -
  have typs: "\<forall>h \<in> set (rev (accepted detect tx)). hit_typ h \<in> set detector_types"
    using accepted_sound by auto
  have pl: "\<forall>h \<in> set (rev (accepted detect tx)). plain (span tx (hit_start h) (hit_end h))"
    using accepted_sound [of _ detect tx] d by (fastforce simp: detect_ok_def)
  show ?thesis
    using apply_hits_vault [OF assms(1) [unfolded sanitize_def] assms(3,4) typs pl, of "length tx" "[]"]
      accepted_spans [OF d] by simp
qed

section \<open>Restoring, all tokens at once\<close>

definition repls :: "scope \<Rightarrow> string \<Rightarrow> vault \<Rightarrow> (string \<times> string) list" where
  "repls sc policy v = map (\<lambda>kv. (fst kv, replacement sc policy kv)) v"

text \<open>No value of the vault occurs inside a token: the random words do not spell a secret.\<close>

definition separate :: "vault \<Rightarrow> bool" where
  "separate v \<longleftrightarrow> (\<forall>(t, w) \<in> set v. \<forall>(t', val) \<in> set v. \<not> sublist val t)"

lemma keys_repls [simp]: "map fst (repls sc policy v) = map fst v"
  by (simp add: repls_def)

lemma repls_wf:
  assumes "vault_ok v"
  shows "\<forall>t \<in> set (map fst (repls sc policy v)). token_wf t"
  using assms minted_wf by (auto simp: vault_ok_def)

lemma repls_inert:
  assumes v: "vault_ok v" and s: "separate v"
  shows "\<forall>r \<in> set (map snd (repls sc policy v)). inert (map fst (repls sc policy v)) r"
proof
  fix r assume "r \<in> set (map snd (repls sc policy v))"
  then obtain t val where kv: "(t, val) \<in> set v" "r = replacement sc policy (t, val)"
    by (auto simp: repls_def)
  show "inert (map fst (repls sc policy v)) r"
  proof (cases "r = val")
    case True
    have "plain val" using kv v by (auto simp: vault_ok_def)
    moreover have "\<forall>u \<in> set (map fst v). \<not> sublist val u" using kv(1) s by (fastforce simp: separate_def)
    ultimately show ?thesis using True by (simp add: inert_def)
  next
    case False
    from kv v obtain ty a b where ty: "ty \<in> set detector_types" "t = format_token ty a b"
      by (fastforce simp: vault_ok_def minted_def)
    with False kv have r: "r = ''['' @ ty @ '']''" by (auto simp: replacement_def label_minted)
    have "\<not> minted r" using label_not_minted [OF ty(1)] r by simp
    then have "r \<notin> set (map fst v)" using v by (auto simp: vault_ok_def)
    moreover have "plain ty"
      using detector_chars [OF ty(1), of "CHR ''[''"] detector_chars [OF ty(1), of "CHR '']''"]
      by (auto simp: plain_def)
    ultimately show ?thesis using r by (auto simp: inert_def)
  qed
qed

lemma deanonymize_foldl:
  "deanonymize tx v sc policy = foldl (\<lambda>s (t, r). replace_all t r s) tx (repls sc policy v)"
  by (simp add: deanonymize_def repls_def foldl_map)

lemma deanonymize_tokens:
  "vault_ok v \<Longrightarrow> separate v \<Longrightarrow> deanonymize tx v sc policy = replace_tokens (repls sc policy v) tx"
  unfolding deanonymize_foldl by (intro replace_sequence_once repls_wf repls_inert)

lemma find_prefix_same:
  assumes "set K = set K'" and "\<forall>t \<in> set K. token_wf t"
  shows "find (\<lambda>t. t \<noteq> [] \<and> prefix t s) K = find (\<lambda>t. t \<noteq> [] \<and> prefix t s) K'"
proof (cases "find (\<lambda>t. t \<noteq> [] \<and> prefix t s) K")
  case None
  then show ?thesis using assms(1) by (metis (no_types, lifting) find_None_iff)
next
  case (Some t)
  then have t: "t \<in> set K" "prefix t s" by (auto simp: find_Some_iff)
  with Some assms(1) obtain u where u: "find (\<lambda>t. t \<noteq> [] \<and> prefix t s) K' = Some u"
    by (metis (mono_tags, lifting) find_None_iff find_Some_iff not_Some_eq nth_mem)
  then have "u \<in> set K'" "prefix u s" by (auto simp: find_Some_iff)
  moreover obtain z where "s = t @ z" using t(2) by (auto simp: prefix_def)
  ultimately have "u = t" using t(1) assms token_prefix_unique [of u t z] by blast
  with Some u show ?thesis by simp
qed

lemma pieces_same_keys:
  assumes "set K = set K'" and "\<forall>t \<in> set K. token_wf t"
  shows "pieces K s = pieces K' s"
  using assms
proof (induction K s rule: pieces.induct)
  case (2 L c cs)
  then show ?case
    using find_prefix_same [OF 2(3,4), of "c # cs"]
    by (simp add: pieces.simps(2) split: option.split)
qed simp

lemma hget_repls:
  "hget (repls sc policy v) t = map_option (\<lambda>val. replacement sc policy (t, val)) (hget v t)"
  by (induction v) (auto simp: repls_def)

lemma sublist_span: "sublist (span tx s e) tx"
  unfolding span_def by (meson sublist_drop sublist_order.order_trans sublist_take)

lemma masked_clean:
  assumes v: "vault_ok v" and K: "\<forall>t \<in> set K. token_wf t \<and> \<not> sublist t tx"
    and "\<forall>h \<in> set hs. \<exists>t. hget v t = Some (span tx (hit_start h) (hit_end h))"
  shows "clean K (masked v tx pos hs n)"
  using assms(3)
proof (induction hs arbitrary: pos)
  have gap: "\<forall>t \<in> set K. token_wf t \<and> \<not> sublist t (span tx a b)" for a b
    using K sublist_span [of tx a b] sublist_order.order_trans by blast
  {
    case Nil
    show ?case using clean_gap [of K "span tx pos n" "[]"] gap by simp
  next
    case (Cons h hs)
    then obtain t where t: "hget v t = Some (span tx (hit_start h) (hit_end h))" by auto
    then have "mask_of v (span tx (hit_start h) (hit_end h)) = t" using v mask_of_kept by blast
    moreover have "token_wf t" using t v minted_wf by (auto simp: vault_ok_def dest!: map_of_SomeD)
    ultimately show ?case
      using Cons clean_gap [OF gap] by simp
  }
qed

lemma masked_restores:
  assumes v: "vault_ok v" and e: "extends v v'" and sub: "set (hkeys v') \<subseteq> set (hkeys sc)"
    and "\<forall>h \<in> set hs. \<exists>t. hget v t = Some (span tx (hit_start h) (hit_end h))"
    and "spans_ok pos n hs"
  shows "render (map (subst_all (repls sc ''restore'' v')) (masked v tx pos hs n)) = span tx pos n \<and>
    (\<forall>p \<in> set (masked v tx pos hs n). piece_ok (map fst v') p)"
  using assms(4,5)
proof (induction hs arbitrary: pos)
  case Nil
  then show ?case by (auto simp: o_def)
next
  case (Cons h hs)
  let ?val = "span tx (hit_start h) (hit_end h)"
  from Cons.prems obtain t where t: "hget v t = Some ?val" by auto
  then have m: "mask_of v ?val = t" using v mask_of_kept by blast
  have t': "hget v' t = Some ?val" using t e by (simp add: extends_def)
  then have "t \<in> set (hkeys v')" by (force dest: map_of_SomeD)
  then have "hget sc t \<noteq> None" using sub by (auto simp: map_of_eq_None_iff)
  then have s: "subst_all (repls sc ''restore'' v') (Tok t) = Sub ?val"
    using t' by (auto simp: hget_repls replacement_def)
  have le: "pos \<le> hit_start h" "hit_start h \<le> hit_end h" "hit_end h \<le> n"
    using Cons.prems(2) spans_ok_le by auto
  have "span tx pos (hit_start h) @ ?val @ span tx (hit_end h) n = span tx pos n"
    using le by (simp add: span_split)
  with Cons s m \<open>t \<in> set (hkeys v')\<close> show ?case by (auto simp: o_def)
qed

section \<open>Enough randomness\<close>

lemma hex_digit_inj:
  assumes "a < 16" and "b < 16" and "hex_digit a = hex_digit b"
  shows "a = b"
proof -
  have v: "byte (hex_digit d) = (if d < 10 then 48 + d else 87 + d)" if "d < 16" for d
    using that by (simp add: hex_digit_def byte_def)
  have "(if a < 10 then 48 + a else 87 + a) = (if b < 10 then 48 + b else 87 + b)"
    using v [OF assms(1)] v [OF assms(2)] assms(3) by simp
  then show ?thesis by (simp split: if_splits)
qed

lemma hex16_nth: "i < 16 \<Longrightarrow> hex16 n ! i = hex_digit (n div 16 ^ (15 - i) mod 16)"
  unfolding hex16_def by (subst nth_map) (simp_all del: upt_rec_numeral)

lemma hex16_inj:
  assumes "a < 2 ^ 64" and "b < 2 ^ 64" and "hex16 a = hex16 b"
  shows "a = b"
proof -
  have d: "a div 16 ^ k mod 16 = b div 16 ^ k mod 16" if "k < 16" for k
  proof (rule hex_digit_inj)
    have "hex16 a ! (15 - k) = hex16 b ! (15 - k)" using assms(3) by simp
    moreover have "15 - (15 - k) = k" using that by simp
    ultimately show "hex_digit (a div 16 ^ k mod 16) = hex_digit (b div 16 ^ k mod 16)"
      by (simp add: hex16_nth)
  qed simp_all
  have "a mod 16 ^ k = b mod 16 ^ k" if "k \<le> 16" for k
    using that
  proof (induction k)
    case (Suc k)
    then show ?case using d [of k] by (simp add: mod_mult2_eq mult.commute [of 16])
  qed simp
  from this [of 16] assms(1,2) show ?thesis by simp
qed

lemma format_token_inj:
  assumes "format_token ty a b = format_token ty' a' b'"
    and "a < 2 ^ 64" "b < 2 ^ 64" "a' < 2 ^ 64" "b' < 2 ^ 64"
  shows "a = a' \<and> b = b'"
proof -
  have "(ty @ [CHR ''_'']) @ hex16 a @ hex16 b = (ty' @ [CHR ''_'']) @ hex16 a' @ hex16 b'"
    using assms(1) by (simp add: format_token_def)
  then have "hex16 a @ hex16 b = hex16 a' @ hex16 b'"
    by (subst (asm) append_eq_append_conv) simp_all
  then have "hex16 a = hex16 a'" "hex16 b = hex16 b'" by simp_all
  with assms show ?thesis using hex16_inj by blast
qed

definition draw_ok :: "nat \<times> nat \<Rightarrow> bool" where
  "draw_ok d \<longleftrightarrow> fst d < 2 ^ 64 \<and> snd d < 2 ^ 64"

text \<open>Draws that some key of the vault was made of.\<close>

definition used_up :: "vault \<Rightarrow> (nat \<times> nat) list \<Rightarrow> nat" where
  "used_up v ds = length (filter (\<lambda>(a, b). \<exists>ty. format_token ty a b \<in> set (hkeys v)) ds)"

lemma used_up_Cons:
  "used_up v (d # ds) = (if \<exists>ty. format_token ty (fst d) (snd d) \<in> set (hkeys v) then 1 else 0) + used_up v ds"
  by (simp add: used_up_def case_prod_unfold)

lemma used_up_le:
  assumes "distinct ds" and "\<forall>d \<in> set ds. draw_ok d"
  shows "used_up v ds \<le> length v"
proof -
  let ?P = "\<lambda>(a, b). \<exists>ty. format_token ty a b \<in> set (hkeys v)"
  let ?f = "\<lambda>d. SOME k. k \<in> set (hkeys v) \<and> (\<exists>ty. k = format_token ty (fst d) (snd d))"
  have f: "?f d \<in> set (hkeys v) \<and> (\<exists>ty. ?f d = format_token ty (fst d) (snd d))" if "?P d" for d
  proof (rule someI_ex)
    show "\<exists>k. k \<in> set (hkeys v) \<and> (\<exists>ty. k = format_token ty (fst d) (snd d))"
      using that by (cases d) (simp del: set_map, blast)
  qed
  have "inj_on ?f (set (filter ?P ds))"
  proof (rule inj_onI)
    fix d d' assume d: "d \<in> set (filter ?P ds)" "d' \<in> set (filter ?P ds)" and e: "?f d = ?f d'"
    from d f [of d] f [of d'] obtain ty ty' where "?f d = format_token ty (fst d) (snd d)"
      "?f d' = format_token ty' (fst d') (snd d')" by auto
    with e have "format_token ty (fst d) (snd d) = format_token ty' (fst d') (snd d')" by simp
    moreover have "draw_ok d" "draw_ok d'" using d assms(2) by auto
    ultimately show "d = d'" using format_token_inj by (metis draw_ok_def prod_eq_iff)
  qed
  moreover have "?f ` set (filter ?P ds) \<subseteq> set (hkeys v)"
  proof (rule image_subsetI)
    fix d assume "d \<in> set (filter ?P ds)"
    then have "?P d" by (simp only: set_filter mem_Collect_eq)
    then show "?f d \<in> set (hkeys v)" using f by blast
  qed
  ultimately have "card (set (filter ?P ds)) \<le> card (set (hkeys v))"
    by (meson List.finite_set card_inj_on_le)
  also have "\<dots> \<le> length v" by (metis card_length length_map)
  finally have "card (set (filter ?P ds)) \<le> length v" .
  moreover have "card (set (filter ?P ds)) = length (filter ?P ds)"
    using assms(1) by (intro distinct_card) simp
  ultimately show ?thesis unfolding used_up_def by (simp only:)
qed

lemma fresh_token_returns:
  assumes "used_up v ds < length ds" and "distinct ds" and "\<forall>d \<in> set ds. draw_ok d"
  shows "\<exists>t ds'. fresh_token ty v ds = Some (t, ds') \<and>
    length ds + used_up v ds' \<le> length ds' + used_up v ds + 1 \<and>
    distinct ds' \<and> set ds' \<subseteq> set ds \<and>
    used_up (hput t val v) ds' = used_up v ds'"
  using assms
proof (induction ds)
  case (Cons d ds)
  obtain a b where d: "d = (a, b)" by (cases d)
  show ?case
  proof (cases "hget v (format_token ty a b)")
    case None
    let ?t = "format_token ty a b"
    have "(\<exists>ty'. format_token ty' x y \<in> set (hkeys (hput ?t val v)))
        \<longleftrightarrow> (\<exists>ty'. format_token ty' x y \<in> set (hkeys v))" if "(x, y) \<in> set ds" for x y
    proof -
      have "(x, y) \<noteq> (a, b)" "draw_ok (x, y)" "draw_ok (a, b)" using that Cons.prems(2,3) d by auto
      then have "format_token ty' x y \<noteq> ?t" for ty' using format_token_inj by (fastforce simp: draw_ok_def)
      then show ?thesis by (simp add: hput_new [OF None])
    qed
    then have "used_up (hput ?t val v) ds = used_up v ds"
      unfolding used_up_def
      by (intro arg_cong [where f = length] filter_cong refl) (simp del: set_map split: prod.split, blast)
    with None d Cons.prems(2) show ?thesis by (auto simp: used_up_Cons)
  next
    case (Some w)
    then have k: "format_token ty a b \<in> set (hkeys v)" by (force dest: map_of_SomeD)
    then have u: "used_up v (d # ds) = Suc (used_up v ds)" using d by (auto simp: used_up_Cons)
    with Cons obtain t ds' where r: "fresh_token ty v ds = Some (t, ds')"
      "length ds + used_up v ds' \<le> length ds' + used_up v ds + 1" "distinct ds'" "set ds' \<subseteq> set ds"
      "used_up (hput t val v) ds' = used_up v ds'" by auto
    have "fresh_token ty v (d # ds) = Some (t, ds')" using r(1) Some d by (simp add: Let_def)
    with r u show ?thesis by (intro exI [of _ t] exI [of _ ds']) auto
  qed
qed simp

lemma apply_hits_returns:
  assumes "used_up v ds + length hs \<le> length ds" and "distinct ds" and "\<forall>d \<in> set ds. draw_ok d"
  shows "apply_hits hs out v sc ds \<noteq> None"
  using assms
proof (induction hs arbitrary: out v sc ds)
  case (Cons h hs)
  let ?val = "span out (hit_start h) (hit_end h)"
  show ?case
  proof (cases "find_value ?val v")
    case (Some t)
    with Cons show ?thesis by (simp add: token_for_def)
  next
    case None
    from Cons.prems have "used_up v ds < length ds" by simp
    from fresh_token_returns [OF this Cons.prems(2,3), of "hit_typ h" ?val]
    obtain t ds' where r: "fresh_token (hit_typ h) v ds = Some (t, ds')"
      "length ds + used_up v ds' \<le> length ds' + used_up v ds + 1" "distinct ds'" "set ds' \<subseteq> set ds"
      "used_up (hput t ?val v) ds' = used_up v ds'" by blast
    have "used_up (hput t ?val v) ds' + length hs \<le> length ds'" using r Cons.prems(1) by simp
    moreover have "\<forall>d \<in> set ds'. draw_ok d" using r(4) Cons.prems(3) by blast
    ultimately show ?thesis using Cons.IH r(1,3) None by (simp add: token_for_def)
  qed
qed simp

lemma sanitize_restores:
  assumes "sanitize detect tx v sc ds = Some (out, v', sc', ds')" and "detect_ok detect tx"
    and "vault_ok v" and "set (hkeys v) \<subseteq> set (hkeys sc)"
    and "vault_ok v2" and "extends v' v2" and "set (hkeys v2) \<subseteq> set (hkeys sc2)"
    and "separate v2" and "\<forall>t \<in> set (hkeys v2). \<not> sublist t tx"
  shows "deanonymize out v2 sc2 ''restore'' = tx"
proof -
  from sanitize_ok [OF assms(1-4)] have v': "vault_ok v'"
    and out: "out = render (masked v' tx 0 (accepted detect tx) (length tx))"
    and hit: "\<forall>h \<in> set (accepted detect tx). \<exists>t. hget v' t = Some (span tx (hit_start h) (hit_end h))"
    by auto
  note spans = accepted_spans [OF assms(2)]
  note res = masked_restores [OF v' assms(6,7) hit spans]
  have K: "\<forall>t \<in> set (hkeys v2). token_wf t \<and> \<not> sublist t tx"
    using assms(9) repls_wf [OF assms(5)] by simp
  show ?thesis
    unfolding out deanonymize_tokens [OF assms(5,8)]
    using replace_tokens_render [OF repls_wf [OF assms(5)] repls_inert [OF assms(5,8)]]
      masked_clean [OF v' K hit] res by (simp add: span_def)
qed

section \<open>Properties\<close>

text \<open>
  (Coverage) The accepted spans are disjoint, in order and inside the text, each is a match
  of its detector, and every match of every detector is accepted or overlaps an accepted span
  that starts no later (and for the same start has a detector of no lower priority).
\<close>

theorem accepted_hits_cover:
  assumes "detect_ok detect tx"
  shows "spans_ok 0 (length tx) (accepted detect tx) \<and>
    (\<forall>h \<in> set (accepted detect tx). (hit_start h, hit_end h) \<in> set (detect (hit_typ h) tx)) \<and>
    (\<forall>i < length detector_types. \<forall>(s, e) \<in> set (detect (detector_types ! i) tx).
       \<exists>g \<in> set (accepted detect tx). (hit_start g, hit_order g) \<le> (s, i) \<and> s < hit_end g)"
proof (intro conjI)
  show "spans_ok 0 (length tx) (accepted detect tx)" using assms by (rule accepted_spans)
  show "\<forall>h \<in> set (accepted detect tx). (hit_start h, hit_end h) \<in> set (detect (hit_typ h) tx)"
    using accepted_sound by blast
  show "\<forall>i < length detector_types. \<forall>(s, e) \<in> set (detect (detector_types ! i) tx).
      \<exists>g \<in> set (accepted detect tx). (hit_start g, hit_order g) \<le> (s, i) \<and> s < hit_end g"
  proof safe
    fix i s e
    assume i: "i < length detector_types" and m: "(s, e) \<in> set (detect (detector_types ! i) tx)"
    then obtain g where g: "g \<in> set (accepted detect tx)" "(hit_start g, hit_order g) \<le> (s, i)"
      "s < hit_end g \<or> (hit_start g = s \<and> hit_end g = e \<and> hit_typ g = detector_types ! i)"
      by (rule accepted_covers)
    have "s < e" using assms i m by (fastforce simp: detect_ok_def)
    with g show "\<exists>g \<in> set (accepted detect tx). (hit_start g, hit_order g) \<le> (s, i) \<and> s < hit_end g" by auto
  qed
qed

text \<open>
  C11: (Masking) When masking returns, the result is the text with exactly the accepted spans
  replaced, from left to right, by the vault's tokens for their values; the vault keeps its
  entries, maps each masked value to one token, and stays well formed.
\<close>

theorem sanitize_masks_spans:
  assumes "sanitize detect tx v sc ds = Some (out, v', sc', ds')" and "detect_ok detect tx"
    and "vault_ok v" and "set (hkeys v) \<subseteq> set (hkeys sc)"
  shows "out = render (masked v' tx 0 (accepted detect tx) (length tx)) \<and>
    vault_ok v' \<and> extends v v' \<and> set (hkeys v') \<subseteq> set (hkeys sc') \<and>
    (\<forall>h \<in> set (accepted detect tx).
       hget v' (mask_of v' (span tx (hit_start h) (hit_end h))) = Some (span tx (hit_start h) (hit_end h)))"
  using sanitize_ok [OF assms] mask_of_kept by fastforce

text \<open>
  C12: (Round trip) Restoring a masked text gives the text back, with the vault of the request
  and with any later state of it, provided that the text contains no token of the vault and no
  secret is spelled by the random part of a token.
\<close>

theorem restore_sanitized:
  assumes "sanitize detect tx v sc ds = Some (out, v', sc', ds')" and "detect_ok detect tx"
    and "vault_ok v" and "set (hkeys v) \<subseteq> set (hkeys sc)"
    and "vault_ok v2" and "extends v' v2" and "set (hkeys v2) \<subseteq> set (hkeys sc2)"
    and "separate v2" and "\<forall>t \<in> set (hkeys v2). \<not> sublist t tx"
  shows "deanonymize out v2 sc2 ''restore'' = tx"
  by (rule sanitize_restores [OF assms])

text \<open>
  (Order) The reply does not depend on the order in which the vault's hash map is walked:
  any two orders of the same entries restore or mask every text alike.
\<close>

theorem deanonymize_order_irrelevant:
  assumes "vault_ok v" and "separate v" and "set v' = set v" and "vault_ok v'"
  shows "deanonymize tx v' sc policy = deanonymize tx v sc policy"
proof -
  have s: "separate v'" using assms(2,3) by (simp add: separate_def)
  have "hget v' t = hget v t" for t
    using assms(1,3,4) by (metis (no_types, lifting) hget_in_set not_Some_eq vault_ok_def)
  then have "subst_all (repls sc policy v') p = subst_all (repls sc policy v) p" for p
    by (cases p) (simp_all add: hget_repls)
  then have "subst_all (repls sc policy v') = subst_all (repls sc policy v)" by (rule ext)
  moreover have "pieces (map fst v') tx = pieces (map fst v) tx"
    using pieces_same_keys [of "map fst v'" "map fst v"] repls_wf [OF assms(4)] assms(3) by simp
  ultimately show ?thesis
    by (simp add: deanonymize_tokens assms s replace_tokens_def)
qed

text \<open>Behind an accepted span the text is copied up to where the next accepted span starts.\<close>

lemma masked_gap:
  assumes "spans_ok pos n hs" and "g \<in> set hs" and "hit_end g \<le> m" and "m \<le> n"
    and "\<forall>x \<in> set hs. \<not> (hit_end g \<le> hit_start x \<and> hit_start x < m)"
  shows "\<exists>pre post. render (masked v tx pos hs n) =
    pre @ mask_of v (span tx (hit_start g) (hit_end g)) @ span tx (hit_end g) m @ post"
  using assms(1,2,5)
proof (induction hs arbitrary: pos)
  case (Cons h hs)
  have ok: "spans_ok (hit_end h) n hs" using Cons.prems(1) by simp
  show ?case
  proof (cases "h = g")
    case True
    have "\<exists>post. render (masked v tx (hit_end g) hs n) = span tx (hit_end g) m @ post"
    proof (cases hs)
      case Nil
      then show ?thesis using span_split [OF assms(3,4), of tx] by (auto intro!: exI [of _ "span tx m n"])
    next
      case (Cons x xs)
      with ok True Cons.prems(3) have "m \<le> hit_start x" by auto
      from span_split [OF assms(3) this, of tx, symmetric] Cons show ?thesis by simp
    qed
    then obtain post where "render (masked v tx (hit_end g) hs n) = span tx (hit_end g) m @ post" ..
    then have "render (masked v tx pos (h # hs) n) = span tx pos (hit_start g) @
        mask_of v (span tx (hit_start g) (hit_end g)) @ span tx (hit_end g) m @ post"
      using True by simp
    then show ?thesis by blast
  next
    case False
    with Cons.IH [OF ok] Cons.prems(2,3) obtain pre post where
      "render (masked v tx (hit_end h) hs n) =
        pre @ mask_of v (span tx (hit_start g) (hit_end g)) @ span tx (hit_end g) m @ post" by auto
    then have "render (masked v tx pos (h # hs) n) =
        (span tx pos (hit_start h) @ mask_of v (span tx (hit_start h) (hit_end h)) @ pre) @
          mask_of v (span tx (hit_start g) (hit_end g)) @ span tx (hit_end g) m @ post"
      by simp
    then show ?thesis by blast
  qed
qed simp

text \<open>
  C38: (Leak) When a match \<open>h\<close> overlaps a match \<open>g\<close> that starts earlier, and \<open>g\<close> itself is not overlapped by
  one before it, then \<open>h\<close> is not masked, whatever the detectors of the two are: behind the token of \<open>g\<close>
  the rest of \<open>h\<close> is sent in the clear, up to its end or to where a third match starts.  So an
  e-mail address, the first detector, leaks where a user name, the last one, starts before it.
\<close>

theorem overlapped_match_leaks:
  assumes "sanitize detect tx v sc ds = Some (out, v', sc', ds')" and "detect_ok detect tx"
    and "vault_ok v" and "set (hkeys v) \<subseteq> set (hkeys sc)"
    and "{g, h} \<subseteq> set (collect_hits detect tx 0 detector_types)"
    and "hit_start g < hit_start h" and "hit_start h < hit_end g" and "hit_end g < m" and "m \<le> hit_end h"
    and "\<forall>x \<in> set (collect_hits detect tx 0 detector_types).
      x \<noteq> g \<longrightarrow> (hit_start x, hit_order x) \<le> (hit_start g, hit_order g) \<longrightarrow> hit_end x \<le> hit_start g"
    and "\<forall>x \<in> set (collect_hits detect tx 0 detector_types). \<not> (hit_end g \<le> hit_start x \<and> hit_start x < m)"
  shows "\<exists>pre token post. out = pre @ token @ span tx (hit_end g) m @ post \<and>
    hget v' token = Some (span tx (hit_start g) (hit_end g))"
proof -
  let ?hits = "collect_hits detect tx 0 detector_types"
  have sub: "set (accepted detect tx) \<subseteq> set ?hits"
    using set_accept_hits [of 0 "sort_hits ?hits"] by (simp add: accepted_def sort_hits_def)
  have "g \<in> set (sort_hits ?hits)" "sorted (map hit_key (sort_hits ?hits))"
    using assms(5) by (simp_all add: sort_hits_def)
  then have "g \<in> set (accepted detect tx) \<or>
      (\<exists>x \<in> set (accepted detect tx). hit_key x \<le> hit_key g \<and> hit_start g < hit_end x)"
    using accept_covers [of "sort_hits ?hits" g 0] by (auto simp: accepted_def)
  then have g: "g \<in> set (accepted detect tx)" using assms(10) sub by (metis linorder_not_le subsetD)
  have "(hit_start h, hit_end h) \<in> set (detect (hit_typ h) tx)" "hit_typ h \<in> set detector_types"
    using assms(5) collect_hits_sound by blast+
  then have "hit_end h \<le> length tx" using assms(2) by (fastforce simp: detect_ok_def)
  then have m: "hit_end g \<le> m" "m \<le> length tx" using assms(8,9) by simp_all
  have "\<forall>x \<in> set (accepted detect tx). \<not> (hit_end g \<le> hit_start x \<and> hit_start x < m)"
    using assms(11) sub by blast
  from masked_gap [OF accepted_spans [OF assms(2)] g m this, of v'] obtain pre post where
    "render (masked v' tx 0 (accepted detect tx) (length tx)) =
      pre @ mask_of v' (span tx (hit_start g) (hit_end g)) @ span tx (hit_end g) m @ post" by blast
  moreover have "hget v' (mask_of v' (span tx (hit_start g) (hit_end g))) = Some (span tx (hit_start g) (hit_end g))"
    using sanitize_ok [OF assms(1-4)] g mask_of_kept by fastforce
  ultimately show ?thesis using sanitize_ok [OF assms(1-4)] by metis
qed

text \<open>
  C27: (Termination) Masking returns: the loop that draws random words until a token is new ends
  once it has seen as many different draws as there are vault entries and accepted spans.
\<close>

theorem sanitize_returns:
  assumes "distinct ds" and "\<forall>d \<in> set ds. draw_ok d"
    and "length v + length (accepted detect tx) \<le> length ds"
  shows "\<exists>out v' sc' ds'. sanitize detect tx v sc ds = Some (out, v', sc', ds')"
proof -
  have "used_up v ds + length (rev (accepted detect tx)) \<le> length ds"
    using used_up_le [OF assms(1,2), of v] assms(3) by simp
  from apply_hits_returns [OF this assms(1,2)] show ?thesis by (auto simp: sanitize_def)
qed

section \<open>Instances\<close>

text \<open>
  The spans that the patterns of \<open>dlp.rs\<close> report in two texts.  In the second, a user name
  starts before the address that contains it.
\<close>

definition demo_text :: string where
  "demo_text = ''mail a@b.ru or 7707083893''"

definition leak_text :: string where
  "leak_text = ''user: abc+def@mail.ru''"

definition demo_detect :: finder where
  "demo_detect ty tx =
     (if tx = demo_text then
        (if ty = ''EMAIL'' then [(5, 11)] else if ty = ''INN'' then [(15, 25)] else [])
      else if tx = leak_text then
        (if ty = ''EMAIL'' then [(6, 21)] else if ty = ''SOCIAL_HANDLE'' then [(13, 21)]
         else if ty = ''USERNAME'' then [(0, 9)] else [])
      else [])"

definition demo_draws :: "(nat \<times> nat) list" where
  "demo_draws = [(5, 2), (3, 4)]"

definition demo_tokens :: "string list" where
  "demo_tokens = [format_token ''INN'' 5 2, format_token ''EMAIL'' 3 4]"

definition demo_vault :: vault where
  "demo_vault = [(format_token ''INN'' 5 2, ''7707083893''), (format_token ''EMAIL'' 3 4, ''a@b.ru'')]"

lemma demo_detect_ok: "detect_ok demo_detect demo_text"
  by code_simp

lemma demo_accepted:
  "accepted demo_detect demo_text =
     [\<lparr>hit_start = 5, hit_end = 11, hit_order = 0, hit_typ = ''EMAIL''\<rparr>,
      \<lparr>hit_start = 15, hit_end = 25, hit_order = 4, hit_typ = ''INN''\<rparr>]"
  by (simp add: accepted_def sort_hits_def demo_detect_def demo_text_def leak_text_def detector_types_def)

lemma format_token_types: "format_token ''EMAIL'' a b \<noteq> format_token ''INN'' a' b'"
  by (simp add: format_token_def)

lemma demo_sanitize:
  "sanitize demo_detect demo_text [] [] demo_draws
     = Some (''mail '' @ format_token ''EMAIL'' 3 4 @ '' or '' @ format_token ''INN'' 5 2,
         demo_vault, [(format_token ''INN'' 5 2, 1), (format_token ''EMAIL'' 3 4, 1)], [])"
  unfolding sanitize_def demo_accepted
  by (simp add: demo_draws_def demo_vault_def demo_text_def token_for_def
      find_value_def span_def replace_range_def Let_def format_token_types [symmetric] format_token_types)

lemma demo_vault_ok: "vault_ok demo_vault"
proof -
  have "minted (format_token ''INN'' 5 2)" "minted (format_token ''EMAIL'' 3 4)"
    by (auto simp: minted_def detector_types_def)
  then show ?thesis
    by (simp add: vault_ok_def demo_vault_def hmap_ok_def format_token_types [symmetric])
qed

lemma not_sublist_char: "c \<in> set a \<Longrightarrow> c \<notin> set b \<Longrightarrow> \<not> sublist a b"
  using set_mono_sublist by blast

lemma not_sublist_length: "length b < length a \<Longrightarrow> \<not> sublist a b"
  using sublist_length_le linorder_not_le by blast

lemma hex16_small: "n < 7 \<Longrightarrow> CHR ''7'' \<notin> set (hex16 n)"
proof
  assume n: "n < 7" and "CHR ''7'' \<in> set (hex16 n)"
  then obtain i where "CHR ''7'' = hex_digit (n div 16 ^ (15 - i) mod 16)" by (auto simp: hex16_def)
  then have "byte (hex_digit (n div 16 ^ (15 - i) mod 16)) = byte CHR ''7''" by simp
  then have "byte (hex_digit (n div 16 ^ (15 - i) mod 16)) = 55" by (simp add: byte_def)
  moreover have "n div 16 ^ (15 - i) mod 16 \<le> n"
    by (meson div_le_dividend le_trans mod_less_eq_dividend)
  ultimately show False using n by (auto simp: hex_digit_def byte_def split: if_splits)
qed

lemma no_at_minted:
  assumes "minted t"
  shows "CHR ''@'' \<notin> set t"
proof -
  obtain w where "t = CHR ''['' # w @ [CHR '']'']" "\<forall>c \<in> set w. token_char c"
    using minted_wf [OF assms] by (auto simp: token_wf_def)
  moreover have "\<not> token_char CHR ''@''" by (simp add: token_char_def char_class_defs)
  ultimately show ?thesis by auto
qed

lemma demo_separate: "separate demo_vault"
proof -
  have "\<not> sublist ''a@b.ru'' t" if "t \<in> set (hkeys demo_vault)" for t
    using that demo_vault_ok no_at_minted by (intro not_sublist_char [of "CHR ''@''"]) (auto simp: vault_ok_def)
  moreover have "\<not> sublist ''7707083893'' t" if "t \<in> set (hkeys demo_vault)" for t
    using that by (intro not_sublist_char [of "CHR ''7''"]) (auto simp: demo_vault_def format_token_def hex16_small)
  ultimately show ?thesis by (auto simp: separate_def demo_vault_def)
qed

lemma demo_no_tokens: "\<forall>t \<in> set (hkeys demo_vault). \<not> sublist t demo_text"
  by (auto simp: demo_vault_def demo_text_def format_token_def intro!: not_sublist_length)

theorem sanitize_returns_witness:
  "\<exists>out v' sc' ds'. sanitize demo_detect demo_text [] [] demo_draws = Some (out, v', sc', ds')"
  by (rule sanitize_returns) (simp_all add: demo_accepted demo_draws_def draw_ok_def)

theorem accepted_hits_cover_witness:
  "\<exists>g \<in> set (accepted demo_detect demo_text). (hit_start g, hit_order g) \<le> (15, 4) \<and> 15 < hit_end g"
  using accepted_hits_cover [OF demo_detect_ok] by (auto simp: demo_accepted)

theorem sanitize_masks_spans_witness:
  "render (masked demo_vault demo_text 0 (accepted demo_detect demo_text) (length demo_text))
     = ''mail '' @ format_token ''EMAIL'' 3 4 @ '' or '' @ format_token ''INN'' 5 2"
  using sanitize_masks_spans [OF demo_sanitize demo_detect_ok] by simp

theorem restore_sanitized_witness:
  "deanonymize (''mail '' @ format_token ''EMAIL'' 3 4 @ '' or '' @ format_token ''INN'' 5 2) demo_vault
     [(format_token ''INN'' 5 2, 1), (format_token ''EMAIL'' 3 4, 1)] ''restore'' = demo_text"
  by (rule restore_sanitized [OF demo_sanitize demo_detect_ok vault_ok_Nil _ demo_vault_ok extends_refl
        _ demo_separate demo_no_tokens]) (simp_all add: demo_vault_def)

theorem deanonymize_order_irrelevant_witness:
  "deanonymize demo_text (rev demo_vault) [] ''mask'' = deanonymize demo_text demo_vault [] ''mask''"
  by (rule deanonymize_order_irrelevant [OF demo_vault_ok demo_separate])
    (use demo_vault_ok in \<open>simp_all add: vault_ok_def hmap_ok_def rev_map [symmetric]\<close>)

lemma leak_hits:
  "collect_hits demo_detect leak_text 0 detector_types =
     [\<lparr>hit_start = 6, hit_end = 21, hit_order = 0, hit_typ = ''EMAIL''\<rparr>,
      \<lparr>hit_start = 13, hit_end = 21, hit_order = 9, hit_typ = ''SOCIAL_HANDLE''\<rparr>,
      \<lparr>hit_start = 0, hit_end = 9, hit_order = 10, hit_typ = ''USERNAME''\<rparr>]"
  by (simp add: demo_detect_def demo_text_def leak_text_def detector_types_def)

lemma leak_sanitize:
  "map_option fst (sanitize demo_detect leak_text [] [] demo_draws)
     = Some (format_token ''USERNAME'' 3 4 @ ''+def'' @ format_token ''SOCIAL_HANDLE'' 5 2)"
proof -
  have "accepted demo_detect leak_text =
     [\<lparr>hit_start = 0, hit_end = 9, hit_order = 10, hit_typ = ''USERNAME''\<rparr>,
      \<lparr>hit_start = 13, hit_end = 21, hit_order = 9, hit_typ = ''SOCIAL_HANDLE''\<rparr>]"
    unfolding accepted_def leak_hits by (simp add: sort_hits_def)
  moreover have "format_token ''USERNAME'' a b \<noteq> format_token ''SOCIAL_HANDLE'' a' b'" for a b a' b'
    by (simp add: format_token_def)
  ultimately show ?thesis
    unfolding sanitize_def
    by (simp add: demo_draws_def leak_text_def token_for_def find_value_def span_def replace_range_def Let_def)
qed

theorem overlapped_match_leaks_witness:
  "\<exists>out v' sc' ds' pre token post. sanitize demo_detect leak_text [] [] demo_draws = Some (out, v', sc', ds') \<and>
     out = pre @ token @ ''+def'' @ post \<and> hget v' token = Some ''user: abc''"
proof -
  obtain out v' sc' ds' where s: "sanitize demo_detect leak_text [] [] demo_draws = Some (out, v', sc', ds')"
    using leak_sanitize by (cases "sanitize demo_detect leak_text [] [] demo_draws") auto
  have "detect_ok demo_detect leak_text" by code_simp
  from overlapped_match_leaks [OF s this vault_ok_Nil,
      of "\<lparr>hit_start = 0, hit_end = 9, hit_order = 10, hit_typ = ''USERNAME''\<rparr>"
         "\<lparr>hit_start = 6, hit_end = 21, hit_order = 0, hit_typ = ''EMAIL''\<rparr>" 13]
  have "\<exists>pre token post. out = pre @ token @ ''+def'' @ post \<and> hget v' token = Some ''user: abc''"
    unfolding leak_hits by (simp add: leak_text_def span_def)
  with s show ?thesis by blast
qed

end
