(* ===== verification/Dlp_Stream.thy ===== *)
theory Dlp_Stream
  imports Dlp
begin

text \<open>
  \<open>StreamRestore\<close> of \<open>fwllm-gateway/src/inspectors/dlp.rs\<close>: restoring tokens in a reply that
  arrives in chunks.  The session keeps back a trailing partial token.  What the session needs
  of the restoring function is the locale \<open>chunk_restorer\<close>; \<open>deanonymize\<close> is shown to provide
  it for every well-formed vault.
\<close>

record stream_restore =
  sr_vault :: vault
  sr_scope :: scope
  sr_policy :: string
  sr_carry :: string

definition new_stream_restore :: "vault \<Rightarrow> scope \<Rightarrow> string \<Rightarrow> stream_restore" where
  "new_stream_restore v sc policy = \<lparr>sr_vault = v, sr_scope = sc, sr_policy = policy, sr_carry = []\<rparr>"

definition stream_text :: "stream_restore \<Rightarrow> string \<Rightarrow> string" where
  "stream_text st tx = deanonymize tx (sr_vault st) (sr_scope st) (sr_policy st)"

text \<open>The split of the buffer into what is emitted and what is carried.\<close>

definition partial_token :: "string \<Rightarrow> nat option" where
  "partial_token buf =
     (case rfind_char CHR ''['' buf of
        Some i \<Rightarrow>
          if CHR '']'' \<notin> set (drop i buf)
             \<and> list_all (\<lambda>c. is_ascii_alphanumeric c \<or> c = CHR ''_'') (drop (i + 1) buf)
          then Some i else None
      | None \<Rightarrow> None)"

definition hold_back :: "string \<Rightarrow> string \<times> string" where
  "hold_back buf =
     (case partial_token buf of
        Some i \<Rightarrow> if i + 1 + 64 \<ge> length buf then (take i buf, drop i buf) else (buf, [])
      | None \<Rightarrow> (buf, []))"

definition feed :: "string \<Rightarrow> stream_restore \<Rightarrow> string \<times> stream_restore" where
  "feed tx st =
     (let buf = sr_carry st @ tx; (em, carry) = hold_back buf
      in (stream_text st em, st\<lparr>sr_carry := carry\<rparr>))"

definition flush :: "stream_restore \<Rightarrow> string \<times> stream_restore" where
  "flush st =
     (if sr_carry st = [] then ([], st)
      else (stream_text st (sr_carry st), st\<lparr>sr_carry := []\<rparr>))"

text \<open>A whole reply: the chunks in order, then the flush at its end.\<close>

fun feed_all :: "string list \<Rightarrow> stream_restore \<Rightarrow> string \<times> stream_restore" where
  "feed_all [] st = ([], st)"
| "feed_all (c # cs) st =
     (let (out, st1) = feed c st; (outs, st2) = feed_all cs st1 in (out @ outs, st2))"

definition streamed :: "string list \<Rightarrow> stream_restore \<Rightarrow> string" where
  "streamed chunks st =
     (let (out, st1) = feed_all chunks st; (tail, st2) = flush st1 in out @ tail)"

section \<open>The interface\<close>

text \<open>
  A restorer may be applied to the parts of a text when no token starts in one part and ends in
  the next; its tokens are bracketed runs of token characters, at most 66 bytes long.
\<close>

locale chunk_restorer =
  fixes restore :: "'v \<Rightarrow> string \<Rightarrow> string"
    and tokens :: "'v \<Rightarrow> string list"
    and ok :: "'v \<Rightarrow> bool"
  assumes restore_append: "ok v \<Longrightarrow> no_cross (tokens v) a b \<Longrightarrow> restore v (a @ b) = restore v a @ restore v b"
    and restore_Nil: "ok v \<Longrightarrow> restore v [] = []"
    and tokens_wf: "ok v \<Longrightarrow> t \<in> set (tokens v) \<Longrightarrow> token_wf t"
    and tokens_short: "ok v \<Longrightarrow> t \<in> set (tokens v) \<Longrightarrow> length t \<le> 66"
begin

lemma partial_token_found:
  assumes "suffix x buf" and "x \<noteq> []" and "strict_prefix x t" and "token_wf t"
  shows "partial_token buf = Some (length buf - length x)"
proof -
  from assms(4) obtain w where w: "t = CHR ''['' # w @ [CHR '']'']" "plain w" "\<forall>c \<in> set w. token_char c"
    by (rule token_wf_bracketed)
  from assms(3) obtain z where z: "t = x @ z" "z \<noteq> []" by (auto simp: strict_prefix_def prefix_def)
  with w assms(2) obtain x' where x: "x = CHR ''['' # x'" "w @ [CHR '']''] = x' @ z" by (cases x) auto
  then obtain z' where "w = x' @ z'" using z(2) by (cases z rule: rev_cases) auto
  then have x': "CHR ''['' \<notin> set x'" "CHR '']'' \<notin> set x'" "\<forall>c \<in> set x'. token_char c"
    using w by (auto simp: plain_def)
  from assms(1) obtain y where b: "buf = y @ CHR ''['' # x'" using x by (auto simp: suffix_def)
  have "rfind_char CHR ''['' buf = Some (length y)" using b x'(1) by (simp add: rfind_char_append)
  then show ?thesis
    using b x x' by (simp add: partial_token_def list_all_iff token_char_def)
qed

lemma hold_back_parts: "hold_back buf = (em, carry) \<Longrightarrow> em @ carry = buf"
  by (auto simp: hold_back_def split: option.splits if_splits)

lemma hold_back_no_cross:
  assumes ok: "ok v" and h: "hold_back buf = (em, carry)"
  shows "no_cross (tokens v) em (carry @ rest)"
  unfolding no_cross_def
proof (intro ballI allI impI)
  fix t x assume t: "t \<in> set (tokens v)" and x: "suffix x em" "x \<noteq> []" and p: "prefix t (x @ carry @ rest)"
  have wf: "token_wf t" using tokens_wf [OF ok t] .
  show "prefix t x"
  proof (rule ccontr)
    assume n: "\<not> prefix t x"
    with p have "prefix x t" by (auto simp: prefix_append)
    with n have s: "strict_prefix x t" by (auto simp: strict_prefix_def)
    show False
    proof (cases "carry = []")
      case True
      then have b: "em = buf" using hold_back_parts [OF h] by simp
      with partial_token_found [OF x s wf] have c: "partial_token buf = Some (length buf - length x)" by simp
      have "length x < length t" using s by (metis prefix_length_less)
      then have "length x \<le> 65" using tokens_short [OF ok t] by simp
      moreover have "length x \<le> length buf" using x(1) b by (simp add: suffix_length_le)
      ultimately have "length buf - length x + 1 + 64 \<ge> length buf" by simp
      then have "hold_back buf = (take (length buf - length x) buf, drop (length buf - length x) buf)"
        unfolding hold_back_def c by (simp del: add_Suc_right)
      then have "length buf \<le> length buf - length x" using h True by simp
      moreover have "0 < length x" using x(2) by simp
      ultimately show False using \<open>length x \<le> length buf\<close> by arith
    next
      case False
      with h obtain i where i: "partial_token buf = Some i" "carry = drop i buf" "em = take i buf"
        by (auto simp: hold_back_def split: option.splits if_splits)
      then have "rfind_char CHR ''['' buf = Some i" by (auto simp: partial_token_def split: option.splits if_splits)
      then have "i < length buf" "buf ! i = CHR ''[''" using rfind_char_Some by blast+
      then have c: "carry = CHR ''['' # drop (Suc i) buf" using i(2) by (metis Cons_nth_drop_Suc)
      from wf obtain w where w: "t = CHR ''['' # w @ [CHR '']'']" "plain w" by (rule token_wf_bracketed)
      from s obtain z where z: "t = x @ z" "z \<noteq> []" by (auto simp: strict_prefix_def prefix_def)
      with p c obtain z' where "z = CHR ''['' # z'" by (cases z) auto
      with z w x(2) have "CHR ''['' \<in> set (w @ [CHR '']''])" by (cases x) auto
      with w(2) show False by (auto simp: plain_def)
    qed
  qed
qed

lemma restore_held:
  assumes "ok v" and "hold_back buf = (em, carry)"
  shows "restore v (buf @ rest) = restore v em @ restore v (carry @ rest)"
  using restore_append [OF assms(1) hold_back_no_cross [OF assms]] hold_back_parts [OF assms(2)]
  by (metis append.assoc)

end

text \<open>What a session restores with, and the vaults it may have.\<close>

definition session_ok :: "vault \<times> scope \<times> string \<Rightarrow> bool" where
  "session_ok = (\<lambda>(v, sc, policy). vault_ok v \<and> separate v)"

interpretation dlp: chunk_restorer "\<lambda>(v, sc, policy) tx. deanonymize tx v sc policy"
  "\<lambda>(v, sc, policy). hkeys v" session_ok
proof unfold_locales
  fix v :: "vault \<times> scope \<times> string" and a b
  assume "session_ok v" and "no_cross (case v of (v, sc, policy) \<Rightarrow> hkeys v) a b"
  then show "(case v of (v, sc, policy) \<Rightarrow> \<lambda>tx. deanonymize tx v sc policy) (a @ b)
      = (case v of (v, sc, policy) \<Rightarrow> \<lambda>tx. deanonymize tx v sc policy) a
        @ (case v of (v, sc, policy) \<Rightarrow> \<lambda>tx. deanonymize tx v sc policy) b"
    by (auto simp: session_ok_def deanonymize_tokens replace_tokens_append split: prod.splits)
next
  fix v :: "vault \<times> scope \<times> string" and t
  assume "session_ok v" and "t \<in> set (case v of (v, sc, policy) \<Rightarrow> hkeys v)"
  then have "minted t" by (auto simp: session_ok_def vault_ok_def)
  then show "token_wf t" and "length t \<le> 66"
    using minted_wf minted_length by (blast, fastforce)
qed (auto simp: session_ok_def deanonymize_tokens)

section \<open>Properties\<close>

lemma feed_all_session:
  "feed_all cs st = (out, st') \<Longrightarrow>
   sr_vault st' = sr_vault st \<and> sr_scope st' = sr_scope st \<and> sr_policy st' = sr_policy st"
  by (induction cs arbitrary: st out) (fastforce simp: feed_def Let_def split: prod.splits)+

lemma feed_all_restores:
  assumes "vault_ok (sr_vault st)" and "separate (sr_vault st)" and "feed_all cs st = (out, st')"
  shows "stream_text st (sr_carry st @ concat cs) = out @ stream_text st (sr_carry st')"
  using assms
proof (induction cs arbitrary: st out)
  case Nil
  then show ?case by simp
next
  case (Cons c cs)
  obtain h k where h: "hold_back (sr_carry st @ c) = (h, k)" by fastforce
  let ?st = "st\<lparr>sr_carry := k\<rparr>"
  obtain outs where r: "feed_all cs ?st = (outs, st')" "out = stream_text st h @ outs"
    using Cons.prems(3) h by (auto simp: feed_def Let_def split: prod.splits)
  have "stream_text ?st (k @ concat cs) = outs @ stream_text ?st (sr_carry st')"
    using Cons.IH [OF _ _ r(1)] Cons.prems(1,2) by simp
  moreover have "stream_text ?st x = stream_text st x" for x by (simp add: stream_text_def)
  moreover have "stream_text st ((sr_carry st @ c) @ concat cs) = stream_text st h @ stream_text st (k @ concat cs)"
    using dlp.restore_held [of "(sr_vault st, sr_scope st, sr_policy st)", OF _ h, of "concat cs"] Cons.prems(1,2)
    by (simp add: session_ok_def stream_text_def)
  ultimately show ?case using r(2) by simp
qed

lemma streaming_restored:
  assumes "vault_ok v" and "separate v"
  shows "streamed chunks (new_stream_restore v sc policy) = deanonymize (concat chunks) v sc policy"
proof -
  let ?st = "new_stream_restore v sc policy"
  obtain out st' where f: "feed_all chunks ?st = (out, st')" by fastforce
  have "stream_text ?st (concat chunks) = out @ stream_text ?st (sr_carry st')"
    using feed_all_restores [OF _ _ f] assms by (simp add: new_stream_restore_def)
  moreover have "stream_text ?st [] = []" "stream_text st' = stream_text ?st"
    using feed_all_session [OF f] assms
    by (simp_all add: stream_text_def new_stream_restore_def deanonymize_tokens fun_eq_iff)
  ultimately show ?thesis
    unfolding streamed_def f flush_def by (auto simp: stream_text_def new_stream_restore_def)
qed

text \<open>
  C6: (Streaming) However a reply is cut into chunks, the pieces emitted by the streaming session
  together with its flush are the restored (or masked) text of the whole reply.
\<close>

theorem streaming_is_batch:
  assumes "vault_ok v" and "separate v"
  shows "streamed chunks (new_stream_restore v sc policy) = deanonymize (concat chunks) v sc policy"
  by (rule streaming_restored [OF assms])

theorem streaming_is_batch_witness:
  "streamed [''to [EMAIL_0'', ''00'', ''0'', ''x'']
     (new_stream_restore demo_vault [(format_token ''EMAIL'' 3 4, 1)] ''restore'')
   = deanonymize ''to [EMAIL_0000x'' demo_vault [(format_token ''EMAIL'' 3 4, 1)] ''restore''"
  using streaming_is_batch [OF demo_vault_ok demo_separate, of "[''to [EMAIL_0'', ''00'', ''0'', ''x'']"] by simp

text \<open>
  (Bounded hold-back) Whatever is fed, a session never keeps back more than 65 bytes, and what
  it has emitted and kept is exactly what it was given when nothing has to be restored.
\<close>

theorem hold_back_bounded:
  "length (sr_carry (snd (feed tx st))) \<le> 65 \<and>
   (sr_vault st = [] \<longrightarrow> fst (feed tx st) @ sr_carry (snd (feed tx st)) = sr_carry st @ tx)"
proof -
  obtain h k where h: "hold_back (sr_carry st @ tx) = (h, k)" by fastforce
  then have "length k \<le> 65" by (auto simp: hold_back_def split: option.splits if_splits)
  moreover have "h @ k = sr_carry st @ tx" using h dlp.hold_back_parts by blast
  ultimately show ?thesis using h by (auto simp: feed_def stream_text_def deanonymize_def)
qed

theorem hold_back_bounded_witness:
  "length (sr_carry (snd (feed ''[EMAIL_'' (new_stream_restore [] [] ''mask'')))) \<le> 65 \<and>
   fst (feed ''[EMAIL_'' (new_stream_restore [] [] ''mask''))
     @ sr_carry (snd (feed ''[EMAIL_'' (new_stream_restore [] [] ''mask''))) = ''[EMAIL_''"
  using hold_back_bounded [of "''[EMAIL_''" "new_stream_restore [] [] ''mask''"]
  by (simp add: new_stream_restore_def)

end
