(* ===== verification/Api.thy ===== *)
theory Api
  imports Json Config
begin

text \<open>
  \<open>fwllm-gateway/src/error.rs\<close>, and the authentication guards of \<open>fwllm-gateway/src/lib.rs\<close>.
  A request's headers are the parameter \<open>headers\<close>: the value \<open>HeaderMap::get\<close> finds for a
  name, when it is visible ASCII.  A response is its status and its JSON body.
\<close>

section \<open>Errors\<close>

record api_error =
  ae_status :: nat
  ae_kind :: string
  ae_message :: string
  ae_code :: "string option"
  ae_details :: "json option"

type_synonym response = "nat \<times> json"

definition err_auth :: "string \<Rightarrow> string \<Rightarrow> api_error" where
  "err_auth message code = \<lparr>ae_status = 401, ae_kind = ''authentication_error'', ae_message = message,
     ae_code = Some code, ae_details = None\<rparr>"

definition err_blocked :: "string \<Rightarrow> string \<Rightarrow> api_error" where
  "err_blocked message reason = \<lparr>ae_status = 403, ae_kind = ''permission_error'', ae_message = message,
     ae_code = Some ''blocked_by_inspector'', ae_details = Some (JObj [(''reason'', JStr reason)])\<rparr>"

definition err_rate_limited :: "string \<Rightarrow> api_error" where
  "err_rate_limited message = \<lparr>ae_status = 429, ae_kind = ''rate_limit_error'', ae_message = message,
     ae_code = None, ae_details = None\<rparr>"

definition err_upstream :: "string \<Rightarrow> api_error" where
  "err_upstream message = \<lparr>ae_status = 502, ae_kind = ''upstream_error'', ae_message = message,
     ae_code = None, ae_details = None\<rparr>"

definition err_invalid_request :: "string \<Rightarrow> api_error" where
  "err_invalid_request message = \<lparr>ae_status = 422, ae_kind = ''invalid_request_error'',
     ae_message = message, ae_code = Some ''invalid_body'', ae_details = None\<rparr>"

definition into_response :: "api_error \<Rightarrow> response" where
  "into_response e =
     (let err = obj_of [(''message'', JStr (ae_message e)), (''type'', JStr (ae_kind e))];
          err = (case ae_code e of Some c \<Rightarrow> obj_insert ''code'' (JStr c) err | None \<Rightarrow> err);
          err = (case ae_details e of Some d \<Rightarrow> obj_insert ''details'' d err | None \<Rightarrow> err)
      in (ae_status e, JObj [(''error'', JObj err)]))"

section \<open>Guards\<close>

type_synonym headers = "string \<Rightarrow> string option"

type_synonym token_table = "(string, string) hmap"

definition bearer_token :: "headers \<Rightarrow> string" where
  "bearer_token headers =
     (let auth = (case headers ''authorization'' of Some v \<Rightarrow> v | None \<Rightarrow> []) in
      case strip_prefix ''Bearer '' auth of Some t \<Rightarrow> trim t | None \<Rightarrow> [])"

definition require_client :: "token_table \<Rightarrow> headers \<Rightarrow> api_error + string" where
  "require_client clients headers =
     (let token = bearer_token headers in
      if token = [] then Inl (err_auth ''missing bearer token'' ''missing_api_key'')
      else if clients = [] \<or> hget clients token = None
      then Inl (err_auth ''invalid API key'' ''invalid_api_key'')
      else Inr (case hget clients token of Some l \<Rightarrow> l | None \<Rightarrow> []))"

definition require_admin :: "token_table \<Rightarrow> token_table \<Rightarrow> headers \<Rightarrow> api_error + string" where
  "require_admin admin_clients clients headers =
     (let token = bearer_token headers in
      if token = [] then Inl (err_auth ''missing bearer token'' ''missing_api_key'')
      else case hget admin_clients token of
        Some label \<Rightarrow> Inr label
      | None \<Rightarrow>
          if hget clients token \<noteq> None
          then Inl \<lparr>ae_status = 403, ae_kind = ''permission_error'',
            ae_message = ''admin privileges required'', ae_code = Some ''admin_required'', ae_details = None\<rparr>
          else Inl (err_auth ''invalid API key'' ''invalid_api_key''))"

text \<open>\<open>metrics_handler\<close>: \<open>None\<close> lets the request read the metrics.\<close>

definition metrics_guard ::
  "token_table \<Rightarrow> token_table \<Rightarrow> token_table \<Rightarrow> headers \<Rightarrow> api_error option" where
  "metrics_guard metrics_tokens admin_clients clients headers =
     (let admin = (case require_admin admin_clients clients headers of Inl e \<Rightarrow> Some e | Inr _ \<Rightarrow> None) in
      case Option.bind (headers ''authorization'') (strip_prefix ''Bearer '') of
        Some auth \<Rightarrow> if hget metrics_tokens (trim auth) \<noteq> None then None else admin
      | None \<Rightarrow> admin)"

section \<open>Properties\<close>

text \<open>
  C24: (Access) A client is let in exactly with a non-empty bearer token of the client table, and
  an administrator exactly with one of the administrator table.  Every refusal is decided by the
  token: without one it is 401 \<open>missing_api_key\<close>; a client's token that is no administrator's
  is answered 403 \<open>admin_required\<close> by an administrator endpoint; every other token 401 \<open>invalid_api_key\<close>.
\<close>

theorem access_by_token:
  "(require_client cl h = Inr c \<longleftrightarrow> bearer_token h \<noteq> [] \<and> hget cl (bearer_token h) = Some c) \<and>
   (require_admin ad cl h = Inr a \<longleftrightarrow> bearer_token h \<noteq> [] \<and> hget ad (bearer_token h) = Some a) \<and>
   (\<forall>e. require_client cl h = Inl e \<longrightarrow> ae_status e = 401 \<and>
      ae_code e = Some (if bearer_token h = [] then ''missing_api_key'' else ''invalid_api_key'')) \<and>
   (\<forall>e. require_admin ad cl h = Inl e \<longrightarrow>
      (ae_status e, ae_code e) =
        (if bearer_token h = [] then (401, Some ''missing_api_key'')
         else if hget cl (bearer_token h) \<noteq> None then (403, Some ''admin_required'')
         else (401, Some ''invalid_api_key'')))"
  by (auto simp: require_client_def require_admin_def Let_def err_auth_def split: option.splits if_splits)

theorem access_by_token_witness:
  "require_client [(''k'', ''alice'')] (\<lambda>n. if n = ''authorization'' then Some ''Bearer k'' else None) = Inr ''alice'' \<and>
   (\<exists>e. require_admin [(''r'', ''root'')] [(''k'', ''alice'')]
      (\<lambda>n. if n = ''authorization'' then Some ''Bearer k'' else None) = Inl e \<and>
      ae_status e = 403 \<and> ae_code e = Some ''admin_required'')"
proof -
  let ?h = "\<lambda>n. if n = ''authorization'' then Some ''Bearer k'' else None"
  have "bearer_token ?h = ''k''"
    by (simp add: bearer_token_def trim_visible visible_def byte_def)
  then show ?thesis
    using access_by_token [of "[(''k'', ''alice'')]" ?h "''alice''" "[(''r'', ''root'')]" "''root''"]
    by (cases "require_admin [(''r'', ''root'')] [(''k'', ''alice'')] ?h") (auto simp: require_admin_def)
qed

end
