(* ===== verification/Chain.thy ===== *)
theory Chain
  imports Injection Dlp_Stream Api
begin

text \<open>
  \<open>fwllm-gateway/src/inspectors/chain.rs\<close>: the inspector chain over a request payload and over a
  reply.  The publish callback is modelled by the list of calls it receives; loading the ONNX
  model is the parameter \<open>load\<close>.  \<open>None\<close> is the exhausted list of random draws, or a panic of
  \<open>msg["content"] = ...\<close> on a message that is no object.
\<close>

type_synonym attack_event = "string \<times> string \<times> string"

record env =
  env_matches :: "string \<Rightarrow> string \<Rightarrow> bool"
  env_to_text :: "json \<Rightarrow> string"
  env_detect :: finder

record chain =
  ch_cfg :: inspectors_config
  ch_ml :: "ml_inspector option"
  ch_publish :: bool

definition no_model_message :: string where
  "no_model_message = ''injection.ml is enabled but no model could be loaded - provide a valid model_dir with model.onnx/tokenizer.json''"

definition chain_from_config ::
  "(string \<Rightarrow> (string \<Rightarrow> (string \<times> f64) option) option) \<Rightarrow> inspectors_config \<Rightarrow> config_error + chain" where
  "chain_from_config load cfg =
     (let ml = inj_ml (insp_injection cfg) in
      if ml_enabled ml
      then (case load (ml_model_dir ml) of
          None \<Rightarrow> Inl (Validation no_model_message)
        | Some p \<Rightarrow> Inr \<lparr>ch_cfg = cfg,
            ch_ml = Some \<lparr>ml_predict = p, ml_limit = f32_of (ml_threshold ml)\<rparr>, ch_publish = False\<rparr>)
      else Inr \<lparr>ch_cfg = cfg, ch_ml = None, ch_publish = False\<rparr>)"

definition chain_from_config_or_default ::
  "(string \<Rightarrow> (string \<Rightarrow> (string \<times> f64) option) option) \<Rightarrow> inspectors_config \<Rightarrow> chain" where
  "chain_from_config_or_default load cfg =
     (case chain_from_config load cfg of Inr c \<Rightarrow> c
      | Inl e \<Rightarrow> \<lparr>ch_cfg = cfg, ch_ml = None, ch_publish = False\<rparr>)"

section \<open>Requests\<close>

definition injection_mode :: "chain \<Rightarrow> string" where
  "injection_mode c = inj_mode (insp_injection (ch_cfg c))"

definition dlp_mode_of :: "chain \<Rightarrow> string" where
  "dlp_mode_of c = dlp_mode (insp_dlp (ch_cfg c))"

definition payload_messages :: "json \<Rightarrow> json list" where
  "payload_messages payload =
     (case Option.bind (jget ''messages'' payload) as_array of Some ms \<Rightarrow> ms | None \<Rightarrow> [])"

text \<open>The classifier on the messages in order; a panic ends the request.\<close>

fun ml_findings :: "ml_inspector \<Rightarrow> json list \<Rightarrow> finding list option" where
  "ml_findings ml [] = Some []"
| "ml_findings ml (m # ms) =
     (case content_of m of None \<Rightarrow> ml_findings ml ms
      | Some content \<Rightarrow>
          (case ml_scan ml content of None \<Rightarrow> None
           | Some None \<Rightarrow> ml_findings ml ms
           | Some (Some finding) \<Rightarrow> map_option (Cons finding) (ml_findings ml ms)))"

definition all_findings :: "env \<Rightarrow> chain \<Rightarrow> json list \<Rightarrow> finding list option" where
  "all_findings e c messages =
     map_option (\<lambda>fs. scan (env_matches e) (env_to_text e) messages @ fs)
       (case ch_ml c of None \<Rightarrow> Some [] | Some ml \<Rightarrow> ml_findings ml messages)"

definition injection_findings :: "env \<Rightarrow> chain \<Rightarrow> json \<Rightarrow> finding list option" where
  "injection_findings e c payload =
     (if injection_mode c = ''off'' then Some [] else all_findings e c (payload_messages payload))"

text \<open>The injection step on the findings: an error, or the calls of the publish callback.\<close>

definition injection_step ::
  "chain \<Rightarrow> string option \<Rightarrow> finding list \<Rightarrow> api_error option \<times> attack_event list" where
  "injection_step c client findings =
     (if injection_mode c = ''off'' then (None, [])
      else case verdict findings (inj_block_gte (insp_injection (ch_cfg c))) of
        None \<Rightarrow> (None, [])
      | Some (rule, severity) \<Rightarrow>
          (if injection_mode c = ''block''
           then Some (err_blocked (''prompt injection detected ('' @ rule @ '', severity='' @ severity @ '')'')
                  ''injection'')
           else None,
           if ch_publish c
           then [(severity, rule, case client of Some i \<Rightarrow> i | None \<Rightarrow> [])] else []))"

definition dlp_blocked :: api_error where
  "dlp_blocked = err_blocked ''sensitive data detected (DLP block mode)'' ''dlp''"

text \<open>The DLP step on the messages in order; an error keeps the messages changed so far.\<close>

record dlp_run =
  run_vault :: vault
  run_scope :: scope
  run_draws :: "(nat \<times> nat) list"

fun dlp_message ::
  "finder \<Rightarrow> string \<Rightarrow> json \<Rightarrow> dlp_run \<Rightarrow> ((api_error + json) \<times> dlp_run) option" where
  "dlp_message detect mode msg run =
     (case content_of msg of
        None \<Rightarrow> Some (Inr msg, run)
      | Some content \<Rightarrow>
          if mode = ''block''
          then (case sanitize detect content [] [] (run_draws run) of
              None \<Rightarrow> None
            | Some (sanitized, _, _, ds) \<Rightarrow>
                Some (if sanitized \<noteq> content then Inl dlp_blocked else Inr msg, run\<lparr>run_draws := ds\<rparr>))
          else if mode = ''mask''
          then (case sanitize detect content (run_vault run) (run_scope run) (run_draws run) of
              None \<Rightarrow> None
            | Some (new_content, v, sc, ds) \<Rightarrow>
                (case jset ''content'' (JStr new_content) msg of
                   None \<Rightarrow> None
                 | Some msg' \<Rightarrow> Some (Inr msg', \<lparr>run_vault = v, run_scope = sc, run_draws = ds\<rparr>)))
          else if mode = ''log''
          then (case sanitize detect content [] [] (run_draws run) of
              None \<Rightarrow> None | Some (_, _, _, ds) \<Rightarrow> Some (Inr msg, run\<lparr>run_draws := ds\<rparr>))
          else Some (Inr msg, run))"

fun dlp_messages ::
  "finder \<Rightarrow> string \<Rightarrow> json list \<Rightarrow> dlp_run
     \<Rightarrow> (api_error option \<times> json list \<times> dlp_run) option" where
  "dlp_messages detect mode [] run = Some (None, [], run)"
| "dlp_messages detect mode (m # ms) run =
     (case dlp_message detect mode m run of
        None \<Rightarrow> None
      | Some (Inl e, run1) \<Rightarrow> Some (Some e, m # ms, run1)
      | Some (Inr m', run1) \<Rightarrow>
          (case dlp_messages detect mode ms run1 of
             None \<Rightarrow> None
           | Some (e, ms', run2) \<Rightarrow> Some (e, m' # ms', run2)))"

record request_outcome =
  out_error :: "api_error option"
  out_dlp :: dlp_state
  out_payload :: json
  out_events :: "attack_event list"
  out_draws :: "(nat \<times> nat) list"

definition put_messages :: "json list \<Rightarrow> json \<Rightarrow> json" where
  "put_messages ms payload =
     (case payload of JObj m \<Rightarrow> JObj (obj_insert ''messages'' (JArr ms) m) | _ \<Rightarrow> payload)"

definition process_request ::
  "env \<Rightarrow> chain \<Rightarrow> string option \<Rightarrow> json \<Rightarrow> (nat \<times> nat) list \<Rightarrow> request_outcome option" where
  "process_request e c client payload draws =
     (case injection_findings e c payload of None \<Rightarrow> None | Some findings \<Rightarrow>
     (case injection_step c client findings of
        (Some err, events) \<Rightarrow> Some \<lparr>out_error = Some err, out_dlp = \<lparr>ds_vault = [], ds_scope = []\<rparr>,
          out_payload = payload, out_events = events, out_draws = draws\<rparr>
      | (None, events) \<Rightarrow>
          (case (if dlp_mode_of c = ''off'' then None
                 else Option.bind (jget ''messages'' payload) as_array) of
             None \<Rightarrow> Some \<lparr>out_error = None, out_dlp = \<lparr>ds_vault = [], ds_scope = []\<rparr>,
               out_payload = payload, out_events = events, out_draws = draws\<rparr>
           | Some ms \<Rightarrow>
               (case dlp_messages (env_detect e) (dlp_mode_of c) ms
                       \<lparr>run_vault = [], run_scope = [], run_draws = draws\<rparr> of
                  None \<Rightarrow> None
                | Some (err, ms', run) \<Rightarrow> Some \<lparr>out_error = err,
                    out_dlp = \<lparr>ds_vault = run_vault run, ds_scope = run_scope run\<rparr>,
                    out_payload = put_messages ms' payload, out_events = events,
                    out_draws = run_draws run\<rparr>))))"

section \<open>Replies\<close>

definition restore_policy :: "chain \<Rightarrow> string" where
  "restore_policy c =
     (if dlp_restore_policy (insp_dlp (ch_cfg c)) = ''restore'' then ''restore'' else ''mask'')"

definition stream_restore_session :: "chain \<Rightarrow> dlp_state \<Rightarrow> stream_restore" where
  "stream_restore_session c ds = new_stream_restore (ds_vault ds) (ds_scope ds) (restore_policy c)"

definition process_response :: "chain \<Rightarrow> string \<Rightarrow> dlp_state \<Rightarrow> string" where
  "process_response c tx ds =
     (if dlp_mode_of c = ''off'' then tx
      else deanonymize tx (ds_vault ds) (ds_scope ds) (restore_policy c))"

section \<open>Lemmas\<close>

definition contents_ok :: "finder \<Rightarrow> json list \<Rightarrow> bool" where
  "contents_ok detect ms \<longleftrightarrow> (\<forall>m \<in> set ms. \<forall>c. content_of m = Some c \<longrightarrow> detect_ok detect c)"

text \<open>What masking does to one message, for every later state of the vault.\<close>

definition restored_by :: "vault \<Rightarrow> string \<Rightarrow> string \<Rightarrow> bool" where
  "restored_by v c c' \<longleftrightarrow>
     (\<forall>v2 sc2. vault_ok v2 \<longrightarrow> extends v v2 \<longrightarrow> set (hkeys v2) \<subseteq> set (hkeys sc2) \<longrightarrow> separate v2 \<longrightarrow>
        (\<forall>t \<in> set (hkeys v2). \<not> sublist t c) \<longrightarrow> deanonymize c' v2 sc2 ''restore'' = c)"

definition message_masked :: "vault \<Rightarrow> json \<Rightarrow> json \<Rightarrow> bool" where
  "message_masked v m m' \<longleftrightarrow>
     (case content_of m of
        None \<Rightarrow> m' = m
      | Some c \<Rightarrow> (\<exists>c'. jset ''content'' (JStr c') m = Some m' \<and> restored_by v c c'))"

lemma restored_by_mono: "extends v v' \<Longrightarrow> restored_by v c c' \<Longrightarrow> restored_by v' c c'"
  unfolding restored_by_def using extends_trans by blast

lemma message_masked_mono: "extends v v' \<Longrightarrow> message_masked v m m' \<Longrightarrow> message_masked v' m m'"
  unfolding message_masked_def using restored_by_mono by (auto split: option.splits)

lemma dlp_messages_mask:
  assumes "dlp_messages detect ''mask'' ms run = Some (err, ms', run')" and "contents_ok detect ms"
    and "vault_ok (run_vault run)" and "set (hkeys (run_vault run)) \<subseteq> set (hkeys (run_scope run))"
  shows "err = None \<and> vault_ok (run_vault run') \<and> extends (run_vault run) (run_vault run') \<and>
    set (hkeys (run_vault run')) \<subseteq> set (hkeys (run_scope run')) \<and>
    list_all2 (message_masked (run_vault run')) ms ms'"
  using assms
proof (induction ms arbitrary: run ms')
  case (Cons m ms)
  obtain r run1 where d: "dlp_message detect ''mask'' m run = Some (r, run1)"
    using Cons.prems(1) by (auto split: option.splits)
  have step: "\<exists>m1. r = Inr m1 \<and> vault_ok (run_vault run1) \<and> extends (run_vault run) (run_vault run1) \<and>
      set (hkeys (run_vault run1)) \<subseteq> set (hkeys (run_scope run1)) \<and> message_masked (run_vault run1) m m1"
  proof (cases "content_of m")
    case None
    with d Cons.prems(3,4) show ?thesis by (auto simp: message_masked_def)
  next
    case (Some c)
    with d obtain c' v sc ds m1
      where s: "sanitize detect c (run_vault run) (run_scope run) (run_draws run) = Some (c', v, sc, ds)"
        and j: "jset ''content'' (JStr c') m = Some m1"
        and r: "r = Inr m1" "run1 = \<lparr>run_vault = v, run_scope = sc, run_draws = ds\<rparr>"
      by (auto split: option.splits)
    have ok: "detect_ok detect c" using Cons.prems(2) Some by (simp add: contents_ok_def)
    have "restored_by v c c'"
      unfolding restored_by_def using sanitize_restores [OF s ok Cons.prems(3,4)] by blast
    with Some j have "message_masked v m m1" by (auto simp: message_masked_def)
    with sanitize_ok [OF s ok Cons.prems(3,4)] r show ?thesis by simp
  qed
  then obtain m1 where m1: "r = Inr m1" "vault_ok (run_vault run1)" "extends (run_vault run) (run_vault run1)"
    "set (hkeys (run_vault run1)) \<subseteq> set (hkeys (run_scope run1))" "message_masked (run_vault run1) m m1"
    by blast
  with Cons.prems(1) d obtain ms1 where r: "dlp_messages detect ''mask'' ms run1 = Some (err, ms1, run')" "ms' = m1 # ms1"
    by (auto split: option.splits)
  have "contents_ok detect ms" using Cons.prems(2) by (simp add: contents_ok_def)
  note IH = Cons.IH [OF r(1) this m1(2,4)]
  then have "extends (run_vault run1) (run_vault run')" by simp
  with IH m1(3,5) r(2) show ?case
    using extends_trans [OF m1(3)] message_masked_mono by simp
qed (simp add: contents_ok_def)

lemma count_bracket_masked:
  assumes "vault_ok v" and "\<forall>h \<in> set hs. \<exists>t. hget v t = Some (span tx (hit_start h) (hit_end h))"
    and "spans_ok pos n hs"
  shows "count_list (render (masked v tx pos hs n)) CHR ''['' = count_list (span tx pos n) CHR ''['' + length hs"
  using assms(2,3)
proof (induction hs arbitrary: pos)
  case (Cons h hs)
  let ?val = "span tx (hit_start h) (hit_end h)"
  from Cons.prems obtain t where t: "hget v t = Some ?val" by auto
  then have tv: "(t, ?val) \<in> set v" by (rule map_of_SomeD)
  with assms(1) have "token_wf t" "plain ?val" using minted_wf by (auto simp: vault_ok_def)
  then obtain w where "t = CHR ''['' # w @ [CHR '']'']" "plain w" by (metis token_wf_bracketed)
  then have ct: "count_list t CHR ''['' = 1" by (simp add: plain_def count_list_0_iff)
  have cv: "count_list ?val CHR ''['' = 0" using \<open>plain ?val\<close> by (simp add: plain_def count_list_0_iff)
  have le: "pos \<le> hit_start h" "hit_start h \<le> hit_end h" "hit_end h \<le> n"
    using Cons.prems(2) spans_ok_le by auto
  have sp: "span tx pos n = span tx pos (hit_start h) @ ?val @ span tx (hit_end h) n"
    using le by (simp add: span_split)
  have "mask_of v ?val = t" using assms(1) t mask_of_kept by blast
  with Cons ct cv show ?case unfolding sp by simp
qed simp

lemma sanitize_changes:
  assumes "sanitize detect tx [] [] ds = Some (out, v, sc, ds')" and "detect_ok detect tx"
  shows "out \<noteq> tx \<longleftrightarrow> accepted detect tx \<noteq> []"
proof -
  from sanitize_ok [OF assms vault_ok_Nil]
  have v: "vault_ok v" and o: "out = render (masked v tx 0 (accepted detect tx) (length tx))"
    and h: "\<forall>h \<in> set (accepted detect tx). \<exists>t. hget v t = Some (span tx (hit_start h) (hit_end h))"
    by simp_all
  from count_bracket_masked [OF v h accepted_spans [OF assms(2)]]
  have "count_list out CHR ''['' = count_list tx CHR ''['' + length (accepted detect tx)"
    by (simp add: o span_def)
  moreover have "accepted detect tx = [] \<Longrightarrow> out = tx" by (simp add: o span_def)
  ultimately show ?thesis by auto
qed

lemma dlp_messages_block:
  assumes "dlp_messages detect ''block'' ms run = Some (err, ms', run')" and "contents_ok detect ms"
  shows "ms' = ms \<and> run_vault run' = run_vault run \<and> run_scope run' = run_scope run \<and>
    (err = None \<longleftrightarrow> (\<forall>m \<in> set ms. \<forall>c. content_of m = Some c \<longrightarrow> accepted detect c = [])) \<and>
    (err \<noteq> None \<longrightarrow> err = Some dlp_blocked)"
  using assms
proof (induction ms arbitrary: run ms')
  case (Cons m ms)
  have ok: "contents_ok detect ms" using Cons.prems(2) by (simp add: contents_ok_def)
  show ?case
  proof (cases "content_of m")
    case None
    with Cons.prems(1) obtain ms1 where r: "dlp_messages detect ''block'' ms run = Some (err, ms1, run')" "ms' = m # ms1"
      by (auto split: option.splits)
    from Cons.IH [OF r(1) ok] None r(2) show ?thesis by (cases err) auto
  next
    case (Some c)
    with Cons.prems(1) obtain out v sc ds where s: "sanitize detect c [] [] (run_draws run) = Some (out, v, sc, ds)"
      by (auto split: option.splits)
    have "detect_ok detect c" using Cons.prems(2) Some by (simp add: contents_ok_def)
    note ch = sanitize_changes [OF s this]
    show ?thesis
    proof (cases "out = c")
      case True
      with Cons.prems(1) Some s obtain ms1 where
        r: "dlp_messages detect ''block'' ms (run\<lparr>run_draws := ds\<rparr>) = Some (err, ms1, run')" "ms' = m # ms1"
        by (auto split: option.splits)
      from Cons.IH [OF r(1) ok] Some ch True r(2) show ?thesis by (cases err) auto
    next
      case False
      with Cons.prems(1) Some s ch show ?thesis by (auto split: option.splits)
    qed
  qed
qed simp

lemma dlp_message_error: "dlp_message detect mode m run = Some (Inl e, run') \<Longrightarrow> e = dlp_blocked"
  by (auto split: option.splits if_splits)

lemma dlp_messages_error: "dlp_messages detect mode ms run = Some (Some e, ms', run') \<Longrightarrow> e = dlp_blocked"
proof (induction ms arbitrary: run ms')
  case (Cons m ms)
  then show ?case
    by (auto simp del: dlp_message.simps dest: dlp_message_error split: option.splits sum.splits)
qed simp

lemma put_messages_read:
  "Option.bind (jget ''messages'' payload) as_array = Some ms \<Longrightarrow>
   payload_messages (put_messages ms' payload) = ms'"
  by (cases payload) (auto simp: payload_messages_def put_messages_def)

text \<open>The two ways a request passes the injection step.\<close>

lemma process_request_passed:
  assumes "process_request e c client payload ds = Some r" and "injection_findings e c payload = Some fs"
    and "fst (injection_step c client fs) = None" and "dlp_mode_of c \<noteq> ''off''"
  obtains "Option.bind (jget ''messages'' payload) as_array = None" "out_error r = None"
      "out_payload r = payload" "out_dlp r = \<lparr>ds_vault = [], ds_scope = []\<rparr>"
  | ms err ms' run where "Option.bind (jget ''messages'' payload) as_array = Some ms"
      "dlp_messages (env_detect e) (dlp_mode_of c) ms \<lparr>run_vault = [], run_scope = [], run_draws = ds\<rparr>
         = Some (err, ms', run)"
      "out_error r = err" "out_payload r = put_messages ms' payload"
      "out_dlp r = \<lparr>ds_vault = run_vault run, ds_scope = run_scope run\<rparr>"
  using assms by (auto simp: process_request_def split: prod.splits option.splits)

section \<open>Properties\<close>

lemma request_restored:
  assumes "process_request e c client payload ds = Some r" and "out_error r = None"
    and "dlp_mode_of c = ''mask''" and "restore_policy c = ''restore''"
    and "contents_ok (env_detect e) (payload_messages payload)" and "separate (ds_vault (out_dlp r))"
    and "\<forall>m \<in> set (payload_messages payload). \<forall>tx. content_of m = Some tx \<longrightarrow>
      (\<forall>t \<in> set (hkeys (ds_vault (out_dlp r))). \<not> sublist t tx)"
  shows "list_all2 (\<lambda>m m'. (\<forall>k. k \<noteq> ''content'' \<longrightarrow> jget k m' = jget k m) \<and>
      (\<forall>tx. content_of m = Some tx \<longrightarrow>
        (\<exists>tx'. content_of m' = Some tx' \<and> process_response c tx' (out_dlp r) = tx)))
    (payload_messages payload) (payload_messages (out_payload r))"
proof -
  obtain fs where fs: "injection_findings e c payload = Some fs"
    using assms(1) by (auto simp: process_request_def split: option.splits)
  have inj: "fst (injection_step c client fs) = None"
    using assms(1,2) fs by (auto simp: process_request_def split: prod.splits option.splits)
  have mode: "dlp_mode_of c \<noteq> ''off''" using assms(3) by simp
  show ?thesis
  proof (rule process_request_passed [OF assms(1) fs inj mode])
    assume "Option.bind (jget ''messages'' payload) as_array = None" and "out_payload r = payload"
    then show ?thesis by (simp add: payload_messages_def)
  next
    fix ms err ms' run
    assume ms: "Option.bind (jget ''messages'' payload) as_array = Some ms"
      and run: "dlp_messages (env_detect e) (dlp_mode_of c) ms
         \<lparr>run_vault = [], run_scope = [], run_draws = ds\<rparr> = Some (err, ms', run)"
      and out: "out_payload r = put_messages ms' payload"
      and dl: "out_dlp r = \<lparr>ds_vault = run_vault run, ds_scope = run_scope run\<rparr>"
    have pm: "payload_messages payload = ms" using ms by (simp add: payload_messages_def)
    from dlp_messages_mask [OF run [unfolded assms(3)]] assms(5) pm
    have v: "vault_ok (run_vault run)" "set (hkeys (run_vault run)) \<subseteq> set (hkeys (run_scope run))"
      and all: "list_all2 (message_masked (run_vault run)) ms ms'" by simp_all
    have "list_all2 (\<lambda>m m'. (\<forall>k. k \<noteq> ''content'' \<longrightarrow> jget k m' = jget k m) \<and>
        (\<forall>tx. content_of m = Some tx \<longrightarrow>
          (\<exists>tx'. content_of m' = Some tx' \<and> process_response c tx' (out_dlp r) = tx))) ms ms'"
      using all
    proof (rule list.rel_mono_strong)
      fix m m' assume m: "m \<in> set ms" "message_masked (run_vault run) m m'"
      show "(\<forall>k. k \<noteq> ''content'' \<longrightarrow> jget k m' = jget k m) \<and>
        (\<forall>tx. content_of m = Some tx \<longrightarrow>
          (\<exists>tx'. content_of m' = Some tx' \<and> process_response c tx' (out_dlp r) = tx))"
      proof (cases "content_of m")
        case None
        with m show ?thesis by (simp add: message_masked_def)
      next
        case (Some tx)
        with m obtain tx' where j: "jset ''content'' (JStr tx') m = Some m'"
          and rb: "restored_by (run_vault run) tx tx'" by (auto simp: message_masked_def)
        have "\<forall>t \<in> set (hkeys (run_vault run)). \<not> sublist t tx" "separate (run_vault run)"
          using assms(6,7) m(1) Some pm dl by auto
        then have "deanonymize tx' (run_vault run) (run_scope run) ''restore'' = tx"
          using rb v by (simp add: restored_by_def)
        then have "process_response c tx' (out_dlp r) = tx"
          using assms(3,4) dl by (simp add: process_response_def)
        moreover have "content_of m' = Some tx'" using jset_Some_jget [OF j] by (simp add: content_of_def)
        ultimately show ?thesis using jset_other [OF j] Some by auto
      qed
    qed
    with pm put_messages_read [OF ms] out show ?thesis by simp
  qed
qed

text \<open>
  (Masked request) In mask mode every message keeps its other fields, and the masked content
  that is sent upstream is restored to the original by the reply step of the same request,
  provided that the messages contain no token and no secret is spelled by a token.
\<close>

theorem masked_request_restores:
  assumes "process_request e c client payload ds = Some r" and "out_error r = None"
    and "dlp_mode_of c = ''mask''" and "restore_policy c = ''restore''"
    and "contents_ok (env_detect e) (payload_messages payload)" and "separate (ds_vault (out_dlp r))"
    and "\<forall>m \<in> set (payload_messages payload). \<forall>tx. content_of m = Some tx \<longrightarrow>
      (\<forall>t \<in> set (hkeys (ds_vault (out_dlp r))). \<not> sublist t tx)"
  shows "list_all2 (\<lambda>m m'. (\<forall>k. k \<noteq> ''content'' \<longrightarrow> jget k m' = jget k m) \<and>
      (\<forall>tx. content_of m = Some tx \<longrightarrow>
        (\<exists>tx'. content_of m' = Some tx' \<and> process_response c tx' (out_dlp r) = tx)))
    (payload_messages payload) (payload_messages (out_payload r))"
  by (rule request_restored [OF assms])

text \<open>
  (Block mode) In block mode a request that passes the injection step is refused exactly when
  some message has a detected span, always with the same 403 error, and no message is changed.
\<close>

theorem block_mode_decides:
  assumes "process_request e c client payload ds = Some r" and "dlp_mode_of c = ''block''"
    and "injection_findings e c payload = Some fs" and "fst (injection_step c client fs) = None"
    and "contents_ok (env_detect e) (payload_messages payload)"
  shows "(out_error r = None \<longleftrightarrow> (\<forall>m \<in> set (payload_messages payload). \<forall>tx.
      content_of m = Some tx \<longrightarrow> accepted (env_detect e) tx = [])) \<and>
    (out_error r \<noteq> None \<longrightarrow> out_error r = Some dlp_blocked) \<and>
    payload_messages (out_payload r) = payload_messages payload"
proof (rule process_request_passed [OF assms(1,3,4)])
  show "dlp_mode_of c \<noteq> ''off''" using assms(2) by simp
next
  assume "Option.bind (jget ''messages'' payload) as_array = None" "out_error r = None" "out_payload r = payload"
  then show ?thesis by (simp add: payload_messages_def)
next
  fix ms err ms' run
  assume ms: "Option.bind (jget ''messages'' payload) as_array = Some ms"
    and run: "dlp_messages (env_detect e) (dlp_mode_of c) ms
       \<lparr>run_vault = [], run_scope = [], run_draws = ds\<rparr> = Some (err, ms', run)"
    and out: "out_error r = err" "out_payload r = put_messages ms' payload"
  have pm: "payload_messages payload = ms" using ms by (simp add: payload_messages_def)
  from dlp_messages_block [OF run [unfolded assms(2)]] assms(5) pm out put_messages_read [OF ms]
  show ?thesis by (cases err) auto
qed

definition without_injection :: "chain \<Rightarrow> chain" where
  "without_injection c = c\<lparr>ch_cfg := (ch_cfg c)\<lparr>insp_injection := (insp_injection (ch_cfg c))\<lparr>inj_mode := ''off''\<rparr>\<rparr>\<rparr>"

lemma without_injection_simps [simp]:
  "injection_mode (without_injection c) = ''off''" "dlp_mode_of (without_injection c) = dlp_mode_of c"
  by (simp_all add: without_injection_def injection_mode_def dlp_mode_of_def)

text \<open>A request that the injection step lets pass goes on as if the inspector were off.\<close>

lemma passed_as_off:
  assumes "process_request e c client payload ds = Some r" and "injection_findings e c payload = Some fs"
    and "injection_step c client fs = (None, evs)"
  shows "out_events r = evs \<and>
    process_request e (without_injection c) client payload ds = Some (r\<lparr>out_events := []\<rparr>)"
proof -
  have off: "injection_findings e (without_injection c) payload = Some []"
    "injection_step (without_injection c) client [] = (None, [])"
    by (simp_all add: injection_findings_def injection_step_def)
  define ms where "ms = (if dlp_mode_of c = ''off'' then None else Option.bind (jget ''messages'' payload) as_array)"
  show ?thesis
  proof (cases ms)
    case None
    then show ?thesis
      using assms off by (auto simp: process_request_def ms_def [symmetric])
  next
    case (Some xs)
    show ?thesis
      using assms off Some
      by (auto simp: process_request_def ms_def [symmetric] split: option.splits)
  qed
qed

text \<open>
  C26: (Injection gate) With a verdict exactly one attack event is published, without one or with the
  inspector off none.  With a verdict in block mode the request is refused with 403 and its payload is
  untouched.  In every other case the outcome, with its payload, vault, draws and any refusal, is the one the
  chain has with the injection inspector off, so that the only other refusal is the DLP's.
\<close>

theorem injection_gate:
  assumes "process_request e c client payload ds = Some r"
  shows "\<exists>findings. injection_findings e c payload = Some findings \<and>
   (let found = (if injection_mode c = ''off'' then None
         else verdict findings (inj_block_gte (insp_injection (ch_cfg c))))
    in out_events r = (case found of Some (rule, severity) \<Rightarrow>
           if ch_publish c then [(severity, rule, case client of Some i \<Rightarrow> i | None \<Rightarrow> [])] else [] | None \<Rightarrow> []) \<and>
       (if found \<noteq> None \<and> injection_mode c = ''block''
        then out_payload r = payload \<and> out_dlp r = \<lparr>ds_vault = [], ds_scope = []\<rparr> \<and> out_draws r = ds \<and>
          (\<exists>err. out_error r = Some err \<and> ae_status err = 403 \<and> err \<noteq> dlp_blocked)
        else process_request e (without_injection c) client payload ds = Some (r\<lparr>out_events := []\<rparr>) \<and>
          out_error r \<in> {None, Some dlp_blocked}))"
proof -
  obtain fs where fs: "injection_findings e c payload = Some fs"
    using assms by (auto simp: process_request_def split: option.splits)
  obtain err evs where Pair: "injection_step c client fs = (err, evs)" by fastforce
  have dlp: "err = None \<Longrightarrow> out_error r \<in> {None, Some dlp_blocked} \<and> out_events r = evs \<and>
      process_request e (without_injection c) client payload ds = Some (r\<lparr>out_events := []\<rparr>)"
  proof -
    assume "err = None"
    with Pair have st: "injection_step c client fs = (None, evs)" by simp
    have "out_error r \<in> {None, Some dlp_blocked}"
      using assms st fs dlp_messages_error by (fastforce simp: process_request_def split: option.splits)
    with passed_as_off [OF assms fs st] show ?thesis by blast
  qed
  have blocked: "err = Some x \<Longrightarrow> out_events r = evs \<and> out_error r = Some x \<and> out_payload r = payload \<and>
      out_dlp r = \<lparr>ds_vault = [], ds_scope = []\<rparr> \<and> out_draws r = ds" for x
    using assms Pair fs by (auto simp: process_request_def)
  define found where "found = (if injection_mode c = ''off'' then None
    else verdict fs (inj_block_gte (insp_injection (ch_cfg c))))"
  have step: "injection_step c client fs =
      (case found of None \<Rightarrow> (None, [])
       | Some (rule, severity) \<Rightarrow>
          (if injection_mode c = ''block''
           then Some (err_blocked (''prompt injection detected ('' @ rule @ '', severity='' @ severity @ '')'')
                  ''injection'')
           else None,
           if ch_publish c then [(severity, rule, case client of Some i \<Rightarrow> i | None \<Rightarrow> [])] else []))"
    by (simp add: injection_step_def found_def)
  have "injection_findings e c payload = Some fs \<and>
     out_events r = (case found of Some (rule, severity) \<Rightarrow>
         if ch_publish c then [(severity, rule, case client of Some i \<Rightarrow> i | None \<Rightarrow> [])] else [] | None \<Rightarrow> []) \<and>
     (if found \<noteq> None \<and> injection_mode c = ''block''
      then out_payload r = payload \<and> out_dlp r = \<lparr>ds_vault = [], ds_scope = []\<rparr> \<and> out_draws r = ds \<and>
        (\<exists>err. out_error r = Some err \<and> ae_status err = 403 \<and> err \<noteq> dlp_blocked)
      else process_request e (without_injection c) client payload ds = Some (r\<lparr>out_events := []\<rparr>) \<and>
        out_error r \<in> {None, Some dlp_blocked})"
  proof (cases found)
    case None
    with Pair step have "err = None" "evs = []" by simp_all
    with dlp fs None show ?thesis by simp
  next
    case (Some f)
    obtain rule severity where f: "f = (rule, severity)" by fastforce
    show ?thesis
    proof (cases "injection_mode c = ''block''")
      case True
      with Pair step Some f have "err = Some (err_blocked (''prompt injection detected ('' @ rule @ '', severity='' @ severity @ '')'') ''injection'')"
        "evs = (if ch_publish c then [(severity, rule, case client of Some i \<Rightarrow> i | None \<Rightarrow> [])] else [])" by simp_all
      with blocked fs Some f True show ?thesis by (simp add: err_blocked_def dlp_blocked_def)
    next
      case False
      with Pair step Some f have "err = None"
        "evs = (if ch_publish c then [(severity, rule, case client of Some i \<Rightarrow> i | None \<Rightarrow> [])] else [])" by simp_all
      with dlp fs Some f False show ?thesis by simp
    qed
  qed
  then show ?thesis unfolding found_def Let_def by blast
qed

section \<open>Instances\<close>

definition demo_env :: env where
  "demo_env = \<lparr>env_matches = demo_matches, env_to_text = (\<lambda>v. []), env_detect = demo_detect\<rparr>"

definition demo_chain :: "string \<Rightarrow> string \<Rightarrow> chain" where
  "demo_chain imode dmode = \<lparr>ch_cfg = inspectors_default\<lparr>
     insp_dlp := \<lparr>dlp_mode = dmode, dlp_restore_policy = ''restore'', dlp_profile = ''ru_152''\<rparr>,
     insp_injection := injection_default\<lparr>inj_mode := imode\<rparr>\<rparr>, ch_ml = None, ch_publish = True\<rparr>"

definition demo_payload :: "string \<Rightarrow> json" where
  "demo_payload tx = JObj [(''messages'', JArr [JObj [(''content'', JStr tx), (''role'', JStr ''user'')]])]"

lemma demo_chain_simps [simp]:
  "injection_mode (demo_chain i d) = i" "dlp_mode_of (demo_chain i d) = d"
  "restore_policy (demo_chain i d) = ''restore''" "ch_publish (demo_chain i d)" "ch_ml (demo_chain i d) = None"
  "inj_block_gte (insp_injection (ch_cfg (demo_chain i d))) = ''high''"
  by (simp_all add: demo_chain_def injection_mode_def dlp_mode_of_def restore_policy_def
      injection_default_def inspectors_default_def)

lemma demo_payload_messages [simp]:
  "payload_messages (demo_payload tx) = [JObj [(''content'', JStr tx), (''role'', JStr ''user'')]]"
  "jget ''messages'' (demo_payload tx) = Some (JArr [JObj [(''content'', JStr tx), (''role'', JStr ''user'')]])"
  by (simp_all add: demo_payload_def payload_messages_def)

definition demo_masked :: string where
  "demo_masked = ''mail '' @ format_token ''EMAIL'' 3 4 @ '' or '' @ format_token ''INN'' 5 2"

definition demo_scope :: scope where
  "demo_scope = [(format_token ''INN'' 5 2, 1), (format_token ''EMAIL'' 3 4, 1)]"

definition demo_outcome :: request_outcome where
  "demo_outcome = \<lparr>out_error = None, out_dlp = \<lparr>ds_vault = demo_vault, ds_scope = demo_scope\<rparr>,
     out_payload = demo_payload demo_masked, out_events = [], out_draws = []\<rparr>"

lemma demo_mask_run:
  "process_request demo_env (demo_chain ''off'' ''mask'') None (demo_payload demo_text) demo_draws = Some demo_outcome"
proof -
  have s: "sanitize demo_detect demo_text [] [] demo_draws = Some (demo_masked, demo_vault, demo_scope, [])"
    by (simp only: demo_sanitize demo_masked_def demo_scope_def)
  have "content_of (JObj [(''content'', JStr demo_text), (''role'', JStr ''user'')]) = Some demo_text"
    by (simp add: content_of_def)
  with s show ?thesis
    by (simp add: process_request_def injection_findings_def injection_step_def demo_env_def demo_outcome_def put_messages_def)
      (simp add: demo_payload_def)
qed

lemma demo_contents: "contents_ok demo_detect (payload_messages (demo_payload demo_text))"
  using demo_detect_ok by (simp add: contents_ok_def content_of_def)

theorem masked_request_restores_witness:
  "\<exists>tx'. content_of (JObj [(''content'', JStr demo_masked), (''role'', JStr ''user'')]) = Some tx' \<and>
     process_response (demo_chain ''off'' ''mask'') tx' (out_dlp demo_outcome) = demo_text"
proof -
  have "separate (ds_vault (out_dlp demo_outcome))" using demo_separate by (simp add: demo_outcome_def)
  moreover have "\<forall>m \<in> set (payload_messages (demo_payload demo_text)). \<forall>tx. content_of m = Some tx \<longrightarrow>
      (\<forall>t \<in> set (hkeys (ds_vault (out_dlp demo_outcome))). \<not> sublist t tx)"
    using demo_no_tokens by (simp add: demo_outcome_def content_of_def)
  moreover have "out_error demo_outcome = None" by (simp add: demo_outcome_def)
  ultimately have "list_all2 (\<lambda>m m'. (\<forall>k. k \<noteq> ''content'' \<longrightarrow> jget k m' = jget k m) \<and>
      (\<forall>tx. content_of m = Some tx \<longrightarrow> (\<exists>tx'. content_of m' = Some tx' \<and>
        process_response (demo_chain ''off'' ''mask'') tx' (out_dlp demo_outcome) = tx)))
      (payload_messages (demo_payload demo_text)) (payload_messages (out_payload demo_outcome))"
    using masked_request_restores [OF demo_mask_run] demo_contents by (simp add: demo_env_def)
  then show ?thesis by (simp add: demo_outcome_def content_of_def)
qed

definition blocked_outcome :: request_outcome where
  "blocked_outcome = \<lparr>out_error = Some dlp_blocked, out_dlp = \<lparr>ds_vault = [], ds_scope = []\<rparr>,
     out_payload = demo_payload demo_text, out_events = [], out_draws = []\<rparr>"

lemma demo_block_run:
  "process_request demo_env (demo_chain ''off'' ''block'') None (demo_payload demo_text) demo_draws = Some blocked_outcome"
proof -
  have s: "sanitize demo_detect demo_text [] [] demo_draws = Some (demo_masked, demo_vault, demo_scope, [])"
    by (simp only: demo_sanitize demo_masked_def demo_scope_def)
  have c: "content_of (JObj [(''content'', JStr demo_text), (''role'', JStr ''user'')]) = Some demo_text"
    by (simp add: content_of_def)
  have "demo_masked \<noteq> demo_text"
    using sanitize_changes [OF s demo_detect_ok] by (simp add: demo_accepted)
  with s c show ?thesis
    by (simp add: process_request_def injection_findings_def injection_step_def demo_env_def blocked_outcome_def put_messages_def)
      (simp add: demo_payload_def)
qed

theorem block_mode_decides_witness:
  "\<not> (\<forall>m \<in> set (payload_messages (demo_payload demo_text)). \<forall>tx.
      content_of m = Some tx \<longrightarrow> accepted (env_detect demo_env) tx = [])"
proof -
  have "contents_ok (env_detect demo_env) (payload_messages (demo_payload demo_text))"
    using demo_contents by (simp add: demo_env_def)
  from block_mode_decides [OF demo_block_run _ _ _ this, of "[]"] show ?thesis
    by (simp add: injection_findings_def injection_step_def blocked_outcome_def)
qed

definition attacked_outcome :: request_outcome where
  "attacked_outcome = \<lparr>out_error = Some (err_blocked ''prompt injection detected (jailbreak_persona, severity=high)'' ''injection''),
     out_dlp = \<lparr>ds_vault = [], ds_scope = []\<rparr>, out_payload = demo_payload ''jailbreak'',
     out_events = [(''high'', ''jailbreak_persona'', ''alice'')], out_draws = []\<rparr>"

lemma demo_verdict:
  "\<exists>fs. injection_findings demo_env (demo_chain ''block'' ''mask'') (demo_payload ''jailbreak'') = Some fs \<and>
     verdict fs ''high'' = Some (''jailbreak_persona'', ''high'')"
proof -
  have "scan demo_matches (\<lambda>v. []) [JObj [(''content'', JStr ''jailbreak''), (''role'', JStr ''user'')]]
      = [(''jailbreak_persona'', ''high'')]" by code_simp
  then show ?thesis
    by (simp add: injection_findings_def all_findings_def demo_env_def verdict_def rank_def severity_order_def)
qed

lemma demo_attack_run:
  "process_request demo_env (demo_chain ''block'' ''mask'') (Some ''alice'') (demo_payload ''jailbreak'') [] = Some attacked_outcome"
  using demo_verdict by (auto simp: process_request_def injection_step_def attacked_outcome_def)

theorem injection_gate_witness:
  "out_events attacked_outcome = [(''high'', ''jailbreak_persona'', ''alice'')] \<and>
   (\<exists>err. out_error attacked_outcome = Some err \<and> ae_status err = 403 \<and> err \<noteq> dlp_blocked)"
  using injection_gate [OF demo_attack_run] demo_verdict by auto

end
