(* ===== verification/Chat_Request.thy ===== *)
theory Chat_Request
  imports Api
begin

text \<open>
  The body of \<open>POST /v1/chat/completions\<close> in \<open>fwllm-gateway/src/lib.rs\<close>: its data, the contract
  validation, the payload that is built for the provider, and the usage numbers read from a
  reply or estimated from the texts.  Deserialising the body is the caller's parameter.
\<close>

section \<open>Data\<close>

record chat_message =
  cm_role :: string
  cm_content :: "string option"
  cm_name :: "string option"
  cm_tool_calls :: "json option"

record chat_request =
  cr_model :: string
  cr_messages :: "chat_message list"
  cr_stream :: bool
  cr_temperature :: "f64 option"
  cr_top_p :: "f64 option"
  cr_max_tokens :: "int option"
  cr_stop :: "json option"
  cr_metadata :: "json option"
  cr_stream_options :: "json option"

text \<open>What \<open>json!\<close> makes of an optional string, an \<open>i64\<close> and an optional value.\<close>

definition jopt :: "string option \<Rightarrow> json" where
  "jopt s = (case s of Some x \<Rightarrow> JStr x | None \<Rightarrow> JNull)"

definition jint :: "int \<Rightarrow> json" where
  "jint n = (if n < 0 then JNeg n else JPos (nat n))"

definition jfloat :: "f64 \<Rightarrow> json" where
  "jfloat x = (case x of Fin n \<Rightarrow> JFloat x | _ \<Rightarrow> JNull)"

section \<open>Validation\<close>

definition in_range :: "int \<Rightarrow> int \<Rightarrow> f64 \<Rightarrow> bool" where
  "in_range lo hi x \<longleftrightarrow> f64_le (f64_of_int lo) x \<and> f64_le x (f64_of_int hi)"

definition stop_ok :: "json \<Rightarrow> bool" where
  "stop_ok stop \<longleftrightarrow> is_jstring stop \<or>
     (case as_array stop of Some a \<Rightarrow> list_all is_jstring a | None \<Rightarrow> False)"

definition validate_chat :: "chat_request \<Rightarrow> api_error option" where
  "validate_chat body =
     (if cr_messages body = [] then Some (err_invalid_request ''messages must contain at least 1 item'')
      else if (case cr_temperature body of Some t \<Rightarrow> \<not> in_range 0 2 t | None \<Rightarrow> False)
      then Some (err_invalid_request ''temperature must be within 0..2'')
      else if (case cr_top_p body of Some p \<Rightarrow> \<not> in_range 0 1 p | None \<Rightarrow> False)
      then Some (err_invalid_request ''top_p must be within 0..1'')
      else if (case cr_max_tokens body of Some m \<Rightarrow> m < 1 | None \<Rightarrow> False)
      then Some (err_invalid_request ''max_tokens must be >= 1'')
      else if (case cr_stop body of Some s \<Rightarrow> \<not> stop_ok s | None \<Rightarrow> False)
      then Some (err_invalid_request ''stop must be a string or array of strings'')
      else None)"

section \<open>The payload\<close>

definition message_payload :: "chat_message \<Rightarrow> json" where
  "message_payload m =
     (let msg = obj_insert ''content'' (jopt (cm_content m)) (obj_insert ''role'' (JStr (cm_role m)) []);
          msg = (case cm_name m of Some n \<Rightarrow> obj_insert ''name'' (JStr n) msg | None \<Rightarrow> msg);
          msg = (case cm_tool_calls m of Some t \<Rightarrow> obj_insert ''tool_calls'' t msg | None \<Rightarrow> msg)
      in JObj msg)"

text \<open>The struct as \<open>serde\<close> writes it, for the audit row of a request that is not routed.\<close>

definition message_json :: "chat_message \<Rightarrow> json" where
  "message_json m = JObj (obj_of
     [(''role'', JStr (cm_role m)), (''content'', jopt (cm_content m)), (''name'', jopt (cm_name m)),
      (''tool_calls'', case cm_tool_calls m of Some t \<Rightarrow> t | None \<Rightarrow> JNull)])"

definition put_opt :: "string \<Rightarrow> json option \<Rightarrow> json_map \<Rightarrow> json_map" where
  "put_opt k v m = (case v of Some w \<Rightarrow> obj_insert k w m | None \<Rightarrow> m)"

definition with_usage :: "json option \<Rightarrow> json" where
  "with_usage options =
     JObj (obj_or_insert ''include_usage'' (JBool True)
       (case Option.bind options as_object of Some o' \<Rightarrow> o' | None \<Rightarrow> []))"

definition build_payload :: "string \<Rightarrow> chat_request \<Rightarrow> json" where
  "build_payload concrete body =
     (let p = obj_of [(''model'', JStr concrete), (''messages'', JArr (map message_payload (cr_messages body))),
                      (''stream'', JBool (cr_stream body))];
          p = put_opt ''temperature'' (map_option jfloat (cr_temperature body)) p;
          p = put_opt ''top_p'' (map_option jfloat (cr_top_p body)) p;
          p = put_opt ''max_tokens'' (map_option jint (cr_max_tokens body)) p;
          p = put_opt ''stop'' (cr_stop body) p;
          p = (case cr_stream_options body of
                 Some options \<Rightarrow> if is_jobject options then obj_insert ''stream_options'' options p else p
               | None \<Rightarrow> p);
          p = (if cr_stream body then obj_insert ''stream_options'' (with_usage (map_of p ''stream_options'')) p else p)
      in JObj p)"

section \<open>Usage\<close>

definition estimate_usage :: "string \<Rightarrow> string \<Rightarrow> nat \<times> nat" where
  "estimate_usage prompt completion = (chars_count prompt div 4, chars_count completion div 4)"

definition prompt_text :: "json \<Rightarrow> string" where
  "prompt_text payload =
     (case Option.bind (jget ''messages'' payload) as_array of
        Some ms \<Rightarrow> join [CHR 0x0A] (contents_of ms) | None \<Rightarrow> [])"

definition request_text :: "chat_request \<Rightarrow> string" where
  "request_text body = join [CHR 0x0A] (List.map_filter cm_content (cr_messages body))"

text \<open>The numbers of a non-empty usage object.\<close>

definition usage_count :: "string \<Rightarrow> json_map \<Rightarrow> nat" where
  "usage_count k usage = (case Option.bind (map_of usage k) as_u64 of Some n \<Rightarrow> n | None \<Rightarrow> 0)"

definition given_usage :: "json option \<Rightarrow> (nat \<times> nat) option" where
  "given_usage u =
     (case Option.bind u as_object of
        Some usage \<Rightarrow> if usage = [] then None
          else Some (usage_count ''prompt_tokens'' usage, usage_count ''completion_tokens'' usage)
      | None \<Rightarrow> None)"

definition reply_texts :: "json \<Rightarrow> string list" where
  "reply_texts completion =
     (case Option.bind (jget ''choices'' completion) as_array of
        Some cs \<Rightarrow> List.map_filter (\<lambda>ch. Option.bind (Option.bind (jget ''message'' ch) (jget ''content'')) as_str) cs
      | None \<Rightarrow> [])"

text \<open>The usage of a completion: given, or estimated from the two texts.\<close>

definition completion_usage :: "json \<Rightarrow> json \<Rightarrow> nat \<times> nat \<times> string" where
  "completion_usage payload completion =
     (case given_usage (jget ''usage'' completion) of
        Some (p, d) \<Rightarrow> (p, d, ''upstream'')
      | None \<Rightarrow>
          (let (p, d) = estimate_usage (prompt_text payload) (join [CHR 0x0A] (reply_texts completion))
           in (p, d, ''estimated'')))"

text \<open>\<open>n as i64\<close> of a \<open>u64\<close>.\<close>

definition u64_as_i64 :: "nat \<Rightarrow> int" where
  "u64_as_i64 n = wrap64 (int n)"

section \<open>The first choice's message\<close>

definition first_content :: "json \<Rightarrow> json" where
  "first_content completion =
     jindex ''content'' (jindex ''message'' (jnth 0 (jindex ''choices'' completion)))"

text \<open>\<open>completion["choices"][0]["message"]["content"] = w\<close>, where the path exists.\<close>

definition put_first_content :: "json \<Rightarrow> json \<Rightarrow> json" where
  "put_first_content w completion =
     (case completion of
        JObj m \<Rightarrow>
          (case map_of m ''choices'' of
             Some (JArr (JObj ch # rest)) \<Rightarrow>
               (case map_of ch ''message'' of
                  Some (JObj msg) \<Rightarrow>
                    JObj (obj_insert ''choices''
                      (JArr (JObj (obj_insert ''message'' (JObj (obj_insert ''content'' w msg)) ch) # rest)) m)
                | _ \<Rightarrow> completion)
           | _ \<Rightarrow> completion)
      | _ \<Rightarrow> completion)"

section \<open>Lemmas\<close>

lemma map_of_put_opt [simp]: "map_of (put_opt k v m) k' = (if k' = k \<and> v \<noteq> None then v else map_of m k')"
  by (auto simp: put_opt_def split: option.splits)

lemma content_message_payload [simp]: "content_of (message_payload m) = cm_content m"
  by (auto simp: content_of_def message_payload_def jopt_def Let_def split: option.splits)

lemma contents_of_payload:
  "contents_of (map message_payload ms) = List.map_filter cm_content ms"
  by (induction ms) (auto simp: contents_of_def map_filter_simps split: option.split)

lemma build_payload_messages:
  "jget ''messages'' (build_payload concrete body) = Some (JArr (map message_payload (cr_messages body)))"
  by (auto simp: build_payload_def obj_of_def Let_def split: option.splits)

lemma prompt_text_payload: "prompt_text (build_payload concrete body) = request_text body"
  by (simp add: prompt_text_def build_payload_messages contents_of_payload request_text_def)

lemma estimate_empty: "estimate_usage [] c = (0, chars_count c div 4)"
  by (simp add: estimate_usage_def)

lemma prompt_text_null [simp]: "prompt_text JNull = []"
  by (simp add: prompt_text_def)

lemma put_first_content_read:
  "as_str (first_content completion) = Some s \<Longrightarrow> first_content (put_first_content w completion) = w"
  by (auto simp: first_content_def put_first_content_def jindex_def jnth_def
      split: json.splits option.splits list.splits if_splits)

text \<open>The entries of the payload.\<close>

definition client_options :: "chat_request \<Rightarrow> json_map" where
  "client_options body = (case Option.bind (cr_stream_options body) as_object of Some m \<Rightarrow> m | None \<Rightarrow> [])"

definition forwarded_options :: "chat_request \<Rightarrow> json option" where
  "forwarded_options body =
     (if cr_stream body then Some (JObj (obj_or_insert ''include_usage'' (JBool True) (client_options body)))
      else if Option.bind (cr_stream_options body) as_object = None then None
      else Some (JObj (client_options body)))"

lemma is_jobject_cases: "is_jobject v \<longleftrightarrow> (\<exists>m. v = JObj m)"
  by (cases v) (auto simp: is_jobject_def)

lemma client_option: "Option.bind (cr_stream_options body) (jget k) = map_of (client_options body) k"
  by (cases "cr_stream_options body"; simp add: client_options_def jget_def; cases "the (cr_stream_options body)"; simp)

lemma payload_entry:
  assumes "build_payload concrete body = JObj p"
  shows "map_of p k =
    (if k = ''stream_options'' then forwarded_options body
     else if k = ''stop'' then cr_stop body
     else if k = ''max_tokens'' then map_option jint (cr_max_tokens body)
     else if k = ''top_p'' then map_option jfloat (cr_top_p body)
     else if k = ''temperature'' then map_option jfloat (cr_temperature body)
     else if k = ''stream'' then Some (JBool (cr_stream body))
     else if k = ''messages'' then Some (JArr (map message_payload (cr_messages body)))
     else if k = ''model'' then Some (JStr concrete) else None)"
proof -
  define base where "base = put_opt ''stop'' (cr_stop body)
    (put_opt ''max_tokens'' (map_option jint (cr_max_tokens body))
      (put_opt ''top_p'' (map_option jfloat (cr_top_p body))
        (put_opt ''temperature'' (map_option jfloat (cr_temperature body))
          (obj_of [(''model'', JStr concrete), (''messages'', JArr (map message_payload (cr_messages body))),
             (''stream'', JBool (cr_stream body))]))))"
  have base: "map_of base k =
    (if k = ''stop'' then cr_stop body
     else if k = ''max_tokens'' then map_option jint (cr_max_tokens body)
     else if k = ''top_p'' then map_option jfloat (cr_top_p body)
     else if k = ''temperature'' then map_option jfloat (cr_temperature body)
     else if k = ''stream'' then Some (JBool (cr_stream body))
     else if k = ''messages'' then Some (JArr (map message_payload (cr_messages body)))
     else if k = ''model'' then Some (JStr concrete) else None)" for k
    by (simp add: base_def obj_of_def del: obj_insert.simps)
  define opts where "opts = (case cr_stream_options body of
      Some options \<Rightarrow> if is_jobject options then obj_insert ''stream_options'' options base else base
    | None \<Rightarrow> base)"
  have opts: "map_of opts k = (if k = ''stream_options''
      then (if Option.bind (cr_stream_options body) as_object = None then None else Some (JObj (client_options body)))
      else map_of base k)" for k
  proof (cases "cr_stream_options body")
    case None
    then show ?thesis using base [of "''stream_options''"] by (simp add: opts_def)
  next
    case (Some v)
    then show ?thesis using base [of "''stream_options''"]
      by (cases v) (simp_all add: opts_def is_jobject_def client_options_def del: obj_insert.simps)
  qed
  have "p = (if cr_stream body then obj_insert ''stream_options'' (with_usage (map_of opts ''stream_options'')) opts else opts)"
    using assms unfolding build_payload_def Let_def base_def [symmetric] opts_def [symmetric]
    by (simp del: obj_insert.simps)
  then have p: "map_of p k = (if cr_stream body \<and> k = ''stream_options''
      then Some (with_usage (map_of opts ''stream_options'')) else map_of opts k)"
    by simp
  have u: "with_usage (map_of opts ''stream_options'') =
      JObj (obj_or_insert ''include_usage'' (JBool True) (client_options body))"
    unfolding opts by (auto simp: with_usage_def client_options_def)
  show ?thesis
  proof (cases "k = ''stream_options''")
    case True
    then show ?thesis unfolding p u by (simp add: opts forwarded_options_def)
  next
    case False
    then show ?thesis unfolding p by (simp add: opts base)
  qed
qed

section \<open>Properties\<close>

text \<open>What the payload has to say of a message.\<close>

definition message_field :: "chat_message \<Rightarrow> string \<Rightarrow> json option" where
  "message_field m k =
     (if k = ''role'' then Some (JStr (cm_role m))
      else if k = ''content'' then Some (case cm_content m of Some c \<Rightarrow> JStr c | None \<Rightarrow> JNull)
      else if k = ''name'' then map_option JStr (cm_name m)
      else if k = ''tool_calls'' then cm_tool_calls m else None)"

lemma message_entry: "\<exists>msg. message_payload m = JObj msg \<and> map_of msg = message_field m"
  by (cases "cm_name m"; cases "cm_tool_calls m")
    (simp_all add: fun_eq_iff message_field_def message_payload_def jopt_def del: obj_insert.simps)

lemma message_entries:
  "\<exists>msgs. map message_payload ms = map JObj msgs \<and> list_all2 (\<lambda>m msg. map_of msg = message_field m) ms msgs"
proof (induction ms)
  case (Cons m ms)
  then obtain msgs where "map message_payload ms = map JObj msgs"
    "list_all2 (\<lambda>m msg. map_of msg = message_field m) ms msgs" by blast
  moreover obtain msg where "message_payload m = JObj msg" "map_of msg = message_field m"
    using message_entry by blast
  ultimately show ?case by (intro exI [of _ "msg # msgs"]) simp
qed simp

text \<open>
  C28: (Upstream contract) The payload carries the routed model, the stream flag, the client's
  temperature, top_p, max_tokens and stop where it gave them, and every message in order with its
  role, content, name and tool calls, and nothing else: metadata never leaves.  A streaming payload
  always has stream options: the client's own, with its choice of \<open>include_usage\<close>, or usage switched
  on; another payload has them only as the client gave them.
\<close>

theorem payload_contract:
  assumes "build_payload concrete body = JObj p"
  shows "(\<forall>k. k \<noteq> ''messages'' \<longrightarrow> k \<noteq> ''stream_options'' \<longrightarrow> map_of p k =
      (if k = ''model'' then Some (JStr concrete)
       else if k = ''stream'' then Some (JBool (cr_stream body))
       else if k = ''temperature'' then map_option jfloat (cr_temperature body)
       else if k = ''top_p'' then map_option jfloat (cr_top_p body)
       else if k = ''max_tokens'' then map_option jint (cr_max_tokens body)
       else if k = ''stop'' then cr_stop body else None)) \<and>
    (\<exists>msgs. map_of p ''messages'' = Some (JArr (map JObj msgs)) \<and>
      list_all2 (\<lambda>m msg. map_of msg = message_field m) (cr_messages body) msgs) \<and>
    (if cr_stream body
     then \<exists>opts. map_of p ''stream_options'' = Some (JObj opts) \<and>
       (\<forall>k. map_of opts k =
         (case Option.bind (cr_stream_options body) (jget k) of
            Some v \<Rightarrow> Some v | None \<Rightarrow> if k = ''include_usage'' then Some (JBool True) else None))
     else map_of p ''stream_options'' =
       (case cr_stream_options body of Some (JObj opts) \<Rightarrow> Some (JObj opts) | _ \<Rightarrow> None))"
proof -
  note e = payload_entry [OF assms]
  have "map_of (obj_or_insert ''include_usage'' (JBool True) (client_options body)) k =
      (case Option.bind (cr_stream_options body) (jget k) of
         Some v \<Rightarrow> Some v | None \<Rightarrow> if k = ''include_usage'' then Some (JBool True) else None)" for k
    by (auto simp: map_of_obj_or_insert client_option split: option.splits)
  then have on: "cr_stream body \<Longrightarrow> \<exists>opts. map_of p ''stream_options'' = Some (JObj opts) \<and>
       (\<forall>k. map_of opts k =
         (case Option.bind (cr_stream_options body) (jget k) of
            Some v \<Rightarrow> Some v | None \<Rightarrow> if k = ''include_usage'' then Some (JBool True) else None))"
    by (simp add: e forwarded_options_def)
  have off: "\<not> cr_stream body \<Longrightarrow> map_of p ''stream_options'' =
      (case cr_stream_options body of Some (JObj opts) \<Rightarrow> Some (JObj opts) | _ \<Rightarrow> None)"
    by (simp add: e forwarded_options_def client_options_def split: option.split json.split)
  have "if cr_stream body
     then \<exists>opts. map_of p ''stream_options'' = Some (JObj opts) \<and>
       (\<forall>k. map_of opts k =
         (case Option.bind (cr_stream_options body) (jget k) of
            Some v \<Rightarrow> Some v | None \<Rightarrow> if k = ''include_usage'' then Some (JBool True) else None))
     else map_of p ''stream_options'' =
       (case cr_stream_options body of Some (JObj opts) \<Rightarrow> Some (JObj opts) | _ \<Rightarrow> None)"
    using on off by (simp split del: if_split add: if_bool_eq_conj)
  moreover obtain msgs where ms: "map message_payload (cr_messages body) = map JObj msgs"
    "list_all2 (\<lambda>m msg. map_of msg = message_field m) (cr_messages body) msgs"
    using message_entries by blast
  have "map_of p ''messages'' = Some (JArr (map JObj msgs))"
    by (simp add: e ms(1))
  with ms(2) have "\<exists>msgs. map_of p ''messages'' = Some (JArr (map JObj msgs)) \<and>
      list_all2 (\<lambda>m msg. map_of msg = message_field m) (cr_messages body) msgs" by blast
  moreover have "\<forall>k. k \<noteq> ''messages'' \<longrightarrow> k \<noteq> ''stream_options'' \<longrightarrow> map_of p k =
      (if k = ''model'' then Some (JStr concrete)
       else if k = ''stream'' then Some (JBool (cr_stream body))
       else if k = ''temperature'' then map_option jfloat (cr_temperature body)
       else if k = ''top_p'' then map_option jfloat (cr_top_p body)
       else if k = ''max_tokens'' then map_option jint (cr_max_tokens body)
       else if k = ''stop'' then cr_stop body else None)"
    unfolding e by auto
  ultimately show ?thesis by (intro conjI)
qed

definition demo_chat :: chat_request where
  "demo_chat = \<lparr>cr_model = ''gpt'', cr_messages = [\<lparr>cm_role = ''user'', cm_content = Some ''hello there'',
     cm_name = None, cm_tool_calls = None\<rparr>], cr_stream = True, cr_temperature = None, cr_top_p = None,
     cr_max_tokens = Some 50, cr_stop = None, cr_metadata = Some (JStr ''secret''), cr_stream_options = None\<rparr>"

theorem payload_contract_witness:
  "\<exists>p. build_payload ''m'' demo_chat = JObj p \<and> map_of p ''model'' = Some (JStr ''m'') \<and> ''metadata'' \<notin> dom (map_of p) \<and>
    (\<exists>opts. map_of p ''stream_options'' = Some (JObj opts) \<and> map_of opts ''include_usage'' = Some (JBool True))"
proof -
  obtain p where p: "build_payload ''m'' demo_chat = JObj p"
    by (simp add: build_payload_def Let_def)
  note c = payload_contract [OF p]
  from c [THEN conjunct1] have "map_of p ''model'' = Some (JStr ''m'')" "map_of p ''metadata'' = None" by simp_all
  moreover have "if True then \<exists>opts. map_of p ''stream_options'' = Some (JObj opts) \<and>
       (\<forall>k. map_of opts k = (if k = ''include_usage'' then Some (JBool True) else None)) else False"
    using c [THEN conjunct2, THEN conjunct2] by (simp add: demo_chat_def)
  ultimately show ?thesis using p by (auto simp: domIff)
qed

end
