(* ===== verification/Audit_Log.thy ===== *)
theory Audit_Log
  imports Api Calendar
begin

text \<open>
  \<open>fwllm-gateway/src/audit.rs\<close> and the handler \<open>admin_audit\<close> of \<open>lib.rs\<close>.  The table is the
  list of its rows in the order of their ids; the \<open>SELECT\<close> of \<open>search\<close> is the list function its
  text states.  Whether SQLite stores a row is the argument \<open>stored\<close>, and the three regular
  expressions of the redaction are the parameter \<open>redact_re\<close> (\<open>replace_all\<close> of a named pattern).
  The table itself, its migration and the workers that share it are the theory \<open>Audit_Store\<close>.
\<close>

record audit_record =
  ar_ts :: string
  ar_client :: string
  ar_provider :: string
  ar_model :: string
  ar_code :: string
  ar_prompt_tokens :: int
  ar_completion_tokens :: int
  ar_messages :: string
  ar_response :: string
  ar_usage_source :: string
  ar_request_id :: string

record audit_log =
  al_enabled :: bool
  al_dlp_redact :: bool
  al_rows :: "audit_record list"
  al_errors :: nat

definition max_audit_text_chars :: nat where
  "max_audit_text_chars = 8000"

text \<open>The marker starts with the three bytes of the ellipsis character.\<close>

definition truncation_mark :: string where
  "truncation_mark = map char_of [226, 128, 166 :: nat] @ ''[truncated]''"

definition truncate_audit_text :: "string \<Rightarrow> string" where
  "truncate_audit_text tx =
     (if chars_count tx \<le> max_audit_text_chars then tx
      else chars_take max_audit_text_chars tx @ truncation_mark)"

definition redact :: "(string \<Rightarrow> string \<Rightarrow> string) \<Rightarrow> audit_log \<Rightarrow> string \<Rightarrow> string" where
  "redact redact_re lg tx =
     (if \<not> al_dlp_redact lg then tx
      else redact_re ''PHONE'' (redact_re ''CARD'' (redact_re ''EMAIL'' tx)))"

definition audit_write ::
  "(string \<Rightarrow> string \<Rightarrow> string) \<Rightarrow> nat \<Rightarrow> bool \<Rightarrow> string \<Rightarrow> string \<Rightarrow> string \<Rightarrow> string \<Rightarrow> int \<Rightarrow> int
     \<Rightarrow> string \<Rightarrow> string \<Rightarrow> string \<Rightarrow> string \<Rightarrow> audit_log \<Rightarrow> audit_log" where
  "audit_write redact_re secs stored client provider model code prompt completion messages response
     source request_id lg =
     (if \<not> al_enabled lg then lg
      else if \<not> stored then lg\<lparr>al_errors := al_errors lg + 1\<rparr>
      else lg\<lparr>al_rows := al_rows lg @
        [\<lparr>ar_ts = iso_of_secs secs, ar_client = client, ar_provider = provider, ar_model = model,
          ar_code = code, ar_prompt_tokens = prompt, ar_completion_tokens = completion,
          ar_messages = truncate_audit_text (redact redact_re lg messages),
          ar_response = truncate_audit_text (redact redact_re lg response),
          ar_usage_source = source, ar_request_id = request_id\<rparr>]\<rparr>)"

definition audit_search :: "string option \<Rightarrow> string option \<Rightarrow> nat \<Rightarrow> audit_log \<Rightarrow> audit_record list" where
  "audit_search client code limit lg =
     take (min 1000 (max 1 limit))
       (filter (\<lambda>r. (case client of Some c \<Rightarrow> ar_client r = c | None \<Rightarrow> True)
           \<and> (case code of Some k \<Rightarrow> ar_code r = k | None \<Rightarrow> True))
         (rev (al_rows lg)))"

text \<open>\<open>admin_audit\<close>: the query parameters are a map, \<open>parse_usize\<close> is \<open>str::parse\<close>.\<close>

definition admin_audit ::
  "token_table \<Rightarrow> token_table \<Rightarrow> (string \<Rightarrow> nat option) \<Rightarrow> headers \<Rightarrow> (string \<Rightarrow> string option)
     \<Rightarrow> audit_log option \<Rightarrow> api_error + audit_record list" where
  "admin_audit admin_clients clients parse_usize headers params audit =
     (case (case require_admin admin_clients clients headers of
              Inr i \<Rightarrow> Inr (i, True)
            | Inl _ \<Rightarrow> (case require_client clients headers of Inr i \<Rightarrow> Inr (i, False) | Inl e \<Rightarrow> Inl e)) of
        Inl e \<Rightarrow> Inl e
      | Inr (client_id, is_admin) \<Rightarrow>
          (case audit of None \<Rightarrow> Inr []
           | Some lg \<Rightarrow>
               Inr (audit_search (if is_admin then params ''client'' else Some client_id) (params ''code'')
                 (case Option.bind (params ''limit'') parse_usize of Some n \<Rightarrow> n | None \<Rightarrow> 100) lg)))"

section \<open>Properties\<close>

text \<open>
  (Bounded rows) A stored row carries at most 8,012 characters of messages and of response,
  and a text of at most 8,000 characters is stored as it is.
\<close>

theorem audit_text_bounded:
  "chars_count (truncate_audit_text tx) \<le> max_audit_text_chars + 12 \<and>
   (chars_count tx \<le> max_audit_text_chars \<longrightarrow> truncate_audit_text tx = tx) \<and>
   prefix (chars_take max_audit_text_chars tx) (truncate_audit_text tx)"
proof -
  have "chars_count truncation_mark = 12"
    by (simp add: truncation_mark_def chars_count_def utf8_cont_def byte_def)
  then show ?thesis
    using chars_count_take_le [of max_audit_text_chars tx] prefix_chars_take [of max_audit_text_chars tx]
    by (simp add: truncate_audit_text_def)
qed

theorem audit_text_bounded_witness:
  "truncate_audit_text ''hello'' = ''hello''"
  using audit_text_bounded [of "''hello''"]
  by (simp add: chars_count_def max_audit_text_chars_def utf8_cont_def byte_def)

text \<open>
  C25: (Self audit) Whatever parameters a caller sends, the audit endpoint answers only holders of
  a client or administrator token, and shows a caller who is no administrator no row but its own.
\<close>

theorem audit_rows_visible:
  assumes "admin_audit ad cl parse h params lg = Inr rows"
  shows "(\<exists>who. require_admin ad cl h = Inr who) \<or>
    (\<exists>who. require_client cl h = Inr who \<and> (\<forall>r \<in> set rows. ar_client r = who))"
  using assms
  by (auto simp: admin_audit_def audit_search_def dest!: in_set_takeD
      split: sum.splits option.splits)

text \<open>
  (Search) A search returns at most a thousand rows, the newest first, all of them matching the
  filters; and every matching row when there are no more than the limit.
\<close>

theorem audit_search_newest:
  "length (audit_search c k limit lg) \<le> 1000 \<and>
   (\<exists>more. audit_search c k limit lg @ more = rev (filter (\<lambda>r.
       (case c of Some x \<Rightarrow> ar_client r = x | None \<Rightarrow> True) \<and>
       (case k of Some x \<Rightarrow> ar_code r = x | None \<Rightarrow> True)) (al_rows lg)) \<and>
     (more \<noteq> [] \<longrightarrow> length (audit_search c k limit lg) = min 1000 (max 1 limit)))"
proof -
  let ?all = "filter (\<lambda>r. (case c of Some x \<Rightarrow> ar_client r = x | None \<Rightarrow> True) \<and>
       (case k of Some x \<Rightarrow> ar_code r = x | None \<Rightarrow> True)) (rev (al_rows lg))"
  have full: "drop n xs \<noteq> [] \<Longrightarrow> length (take n xs) = n" for n and xs :: "audit_record list" by simp
  have "audit_search c k limit lg @ drop (min 1000 (max 1 limit)) ?all = ?all"
    by (simp add: audit_search_def)
  moreover have "drop (min 1000 (max 1 limit)) ?all \<noteq> [] \<longrightarrow>
      length (audit_search c k limit lg) = min 1000 (max 1 limit)"
    unfolding audit_search_def using full by blast
  moreover have "length (audit_search c k limit lg) \<le> 1000"
    unfolding audit_search_def length_take by linarith
  ultimately show ?thesis unfolding rev_filter by blast
qed

definition demo_row :: "string \<Rightarrow> audit_record" where
  "demo_row c = \<lparr>ar_ts = [], ar_client = c, ar_provider = [], ar_model = [], ar_code = ''ok'',
     ar_prompt_tokens = 1, ar_completion_tokens = 2, ar_messages = [], ar_response = [],
     ar_usage_source = [], ar_request_id = []\<rparr>"

definition demo_log :: audit_log where
  "demo_log = \<lparr>al_enabled = True, al_dlp_redact = False, al_rows = [demo_row ''alice'', demo_row ''bob''],
     al_errors = 0\<rparr>"

definition demo_headers :: headers where
  "demo_headers n = (if n = ''authorization'' then Some ''Bearer k'' else None)"

lemma demo_bearer: "bearer_token demo_headers = ''k''"
  by (simp add: bearer_token_def demo_headers_def trim_visible visible_def byte_def)

lemma demo_self_audit:
  "admin_audit [] [(''k'', ''alice'')] (\<lambda>s. None) demo_headers (\<lambda>p. if p = ''client'' then Some ''bob'' else None)
     (Some demo_log) = Inr [demo_row ''alice'']"
  by (simp add: admin_audit_def require_admin_def require_client_def demo_bearer Let_def audit_search_def
      demo_log_def demo_row_def)

theorem audit_rows_visible_witness:
  "(\<exists>who. require_admin [] [(''k'', ''alice'')] demo_headers = Inr who) \<or>
   (\<exists>who. require_client [(''k'', ''alice'')] demo_headers = Inr who \<and> ar_client (demo_row ''alice'') = who)"
  using audit_rows_visible [OF demo_self_audit] by simp

theorem audit_search_newest_witness:
  "audit_search None None 1 demo_log = [demo_row ''bob''] \<and>
   (\<exists>more. audit_search None None 1 demo_log @ more = [demo_row ''bob'', demo_row ''alice''])"
  using audit_search_newest [of None None 1 demo_log]
  by (auto simp: audit_search_def demo_log_def)

end
