(* ===== verification/Router.thy ===== *)
theory Router
  imports Config Calendar
begin

text \<open>
  \<open>fwllm-gateway/src/router.rs\<close>: the policy engine.  Its state is the struct
  \<open>PolicyEngine\<close>; the clock is read once per operation and is the argument \<open>now\<close>.
  \<open>resolve\<close> takes \<open>&mut self\<close> because it drops an expired override, so it returns the
  engine as well.
\<close>

section \<open>Data\<close>

definition severity_table :: "(string \<times> nat) list" where
  "severity_table = [(''low'', 0), (''medium'', 1), (''high'', 2), (''critical'', 3)]"

definition severity_rank :: "string \<Rightarrow> nat" where
  "severity_rank name = (case map_of severity_table name of Some r \<Rightarrow> r | None \<Rightarrow> 0)"

datatype routing_error = Blocked string | BudgetExhausted string

record policy_engine =
  pe_routing :: routing_config
  override_provider :: "string option"
  override_until :: f64
  blocked_sources :: "(string, f64) hmap"
  attack_times :: "(string, f64 list) hmap"
  provider_tokens :: "(string \<times> string, int) hmap"

definition new_engine :: "routing_config \<Rightarrow> policy_engine" where
  "new_engine routing = \<lparr>pe_routing = routing, override_provider = None,
     override_until = f64_of_int 0, blocked_sources = [], attack_times = [], provider_tokens = []\<rparr>"

text \<open>\<open>day_string\<close> of \<open>router.rs\<close>, the second copy of the formula in \<open>metering.rs\<close>.\<close>

definition router_day_string :: "f64 \<Rightarrow> string" where
  "router_day_string unix_secs =
     (let secs = f64_to_i64 unix_secs;
          days = secs div 86400;
          (year, m, d) = civil_of_days days
      in zero_padded 4 year @ zero_padded 2 m @ zero_padded 2 d)"

text \<open>Both copies name the same bucket.\<close>

lemma router_day_string_eq: "router_day_string = day_string"
  by (simp add: fun_eq_iff router_day_string_def day_string_def)

section \<open>Operations\<close>

fun first_unknown :: "string list \<Rightarrow> string list \<Rightarrow> string option" where
  "first_unknown known [] = None"
| "first_unknown known (n # ns) = (if n \<notin> set known then Some n else first_unknown known ns)"

definition validate_routing :: "routing_config \<Rightarrow> string list \<Rightarrow> string option" where
  \<comment> \<open>\<open>None\<close> is \<open>Ok(())\<close>, \<open>Some msg\<close> is \<open>Err(msg)\<close>\<close>
  "validate_routing routing known =
     (case first_unknown known (rt_default_chain routing) of
        Some name \<Rightarrow>
          Some (''routing.default_chain references unknown provider '' @ quoted name)
      | None \<Rightarrow>
          (case af_switch_to (rt_attack_failover routing) of
             Some target \<Rightarrow>
               if target \<notin> set known
               then Some (''attack_failover.switch_to references unknown provider '' @ quoted target)
               else None
           | None \<Rightarrow> None))"

definition record_tokens :: "policy_engine \<Rightarrow> string \<Rightarrow> int \<Rightarrow> string \<Rightarrow> policy_engine" where
  "record_tokens e provider total_tokens day =
     e\<lparr>provider_tokens :=
         hput (provider, day)
           (i64_add (case hget (provider_tokens e) (provider, day) of Some v \<Rightarrow> v | None \<Rightarrow> 0) total_tokens)
           (provider_tokens e)\<rparr>"

definition record_tokens_today :: "f64 \<Rightarrow> policy_engine \<Rightarrow> string \<Rightarrow> int \<Rightarrow> policy_engine" where
  "record_tokens_today now e provider total_tokens = record_tokens e provider total_tokens (router_day_string now)"

definition attack_window :: "f64 \<Rightarrow> policy_engine \<Rightarrow> string \<Rightarrow> f64 list" where
  \<comment> \<open>the client's entry after \<open>retain\<close> and \<open>push\<close>\<close>
  "attack_window now e client =
     (let window_start =
            f64_sub now (f64_of_int (int (af_window_seconds (rt_attack_failover (pe_routing e)))));
          entry = (case hget (attack_times e) client of Some l \<Rightarrow> l | None \<Rightarrow> [])
      in filter (\<lambda>ts. f64_ge ts window_start) entry @ [now])"

definition on_attack_detected :: "f64 \<Rightarrow> policy_engine \<Rightarrow> string \<Rightarrow> string \<Rightarrow> policy_engine" where
  "on_attack_detected now e severity client =
     (let af = rt_attack_failover (pe_routing e) in
      if \<not> af_enabled af \<or> severity_rank severity < severity_rank (af_min_severity af) then e
      else
        (let entry = attack_window now e client in
         if length entry < af_count af then e\<lparr>attack_times := hput client entry (attack_times e)\<rparr>
         else
           (let e1 = e\<lparr>attack_times := hput client [] (attack_times e)\<rparr>;
                e2 = (if af_block_source af \<and> client \<noteq> []
                      then e1\<lparr>blocked_sources :=
                                hput client
                                  (f64_add now (f64_of_int (int (af_block_ttl_seconds af))))
                                  (blocked_sources e1)\<rparr>
                      else e1)
            in (case af_switch_to af of
                  Some target \<Rightarrow>
                    e2\<lparr>override_provider := Some target,
                       override_until :=
                         f64_add now (f64_of_int (int (af_cooldown_seconds af)))\<rparr>
                | None \<Rightarrow> e2))))"

definition tokens_today :: "policy_engine \<Rightarrow> string \<Rightarrow> string \<Rightarrow> f64" where
  "tokens_today e provider day =
     f64_of_int (case hget (provider_tokens e) (provider, day) of Some v \<Rightarrow> v | None \<Rightarrow> 0)"

definition violates_rule :: "policy_engine \<Rightarrow> string \<Rightarrow> string \<Rightarrow> routing_rule \<Rightarrow> bool" where
  "violates_rule e provider day rule =
     (if (case cond_provider (rule_when rule) of Some p \<Rightarrow> p \<noteq> provider | None \<Rightarrow> False) then False
      else if (case cond_tokens_today (rule_when rule) of
                 Some th \<Rightarrow> \<not> threshold_matches th (tokens_today e provider day)
               | None \<Rightarrow> False) then False
      else True)"

definition concrete_model :: "(string, string) hmap option \<Rightarrow> string \<Rightarrow> string \<Rightarrow> string" where
  "concrete_model mapping requested provider =
     (case Option.bind mapping (\<lambda>m. hget m provider) of Some c \<Rightarrow> c | None \<Rightarrow> requested)"

text \<open>The candidate chain, and the engine after an expired override is dropped.\<close>

definition chain_or_default :: "policy_engine \<Rightarrow> string list" where
  "chain_or_default e =
     (if rt_default_chain (pe_routing e) = [] then [''default'']
      else rt_default_chain (pe_routing e))"

definition apply_override :: "f64 \<Rightarrow> policy_engine \<Rightarrow> string list \<times> policy_engine" where
  "apply_override now e =
     (case override_provider e of
        None \<Rightarrow> (chain_or_default e, e)
      | Some provider \<Rightarrow>
          if f64_lt now (override_until e) then (remdups_adj (provider # chain_or_default e), e)
          else (chain_or_default e, e\<lparr>override_provider := None\<rparr>))"

fun resolve_loop ::
  "policy_engine \<Rightarrow> string \<Rightarrow> (string, string) hmap option \<Rightarrow> string \<Rightarrow> string list
     \<Rightarrow> (string \<times> string) option" where
  "resolve_loop e day mapping requested [] = None"
| "resolve_loop e day mapping requested (c # cs) =
     (case filter (violates_rule e c day) (rt_rules (pe_routing e)) of
        [] \<Rightarrow> Some (c, concrete_model mapping requested c)
      | rule # _ \<Rightarrow>
          (case act_switch_to (rule_action rule) of
             Some target \<Rightarrow> Some (target, concrete_model mapping requested target)
           | None \<Rightarrow>
               if act_next_in_chain (rule_action rule)
               then resolve_loop e day mapping requested cs
               else resolve_loop e day mapping requested cs))"

text \<open>
  \<open>{:?}\<close> of a \<open>Vec<String>\<close>, for the message only.  Code points beyond ASCII are printed
  as they are (Rust escapes the unprintable ones among them).
\<close>

definition debug_char :: "char \<Rightarrow> string" where
  "debug_char c =
     (if byte c = 34 \<or> byte c = 92 then [CHR 0x5C, c]
      else if byte c = 0 then [CHR 0x5C, CHR ''0'']
      else if byte c = 9 then [CHR 0x5C, CHR ''t'']
      else if byte c = 10 then [CHR 0x5C, CHR ''n'']
      else if byte c = 13 then [CHR 0x5C, CHR ''r'']
      else if byte c < 32 \<or> byte c = 127
      then [CHR 0x5C] @ ''u{'' @ (if byte c < 16 then [] else [hex_digit (byte c div 16)])
             @ [hex_digit (byte c mod 16)] @ ''}''
      else [c])"

definition debug_str :: "string \<Rightarrow> string" where
  "debug_str s = [CHR 0x22] @ concat (map debug_char s) @ [CHR 0x22]"

definition debug_strings :: "string list \<Rightarrow> string" where
  "debug_strings ss = ''['' @ join '', '' (map debug_str ss) @ '']''"

definition exhausted_message :: "string list \<Rightarrow> string" where
  "exhausted_message candidates =
     ''all providers in chain '' @ debug_strings candidates @ '' exceeded budget/rules''"

definition resolve ::
  "f64 \<Rightarrow> policy_engine \<Rightarrow> string \<Rightarrow> string
     \<Rightarrow> (routing_error + string \<times> string) \<times> policy_engine" where
  "resolve now e requested client =
     (if f64_gt (case hget (blocked_sources e) client of Some u \<Rightarrow> u | None \<Rightarrow> f64_of_int 0) now
      then (Inl (Blocked ''request source is temporarily blocked''), e)
      else
        (let (candidates, e') = apply_override now e;
             day = router_day_string now;
             mapping = hget (rt_model_mapping (pe_routing e')) requested
         in (case resolve_loop e' day mapping requested candidates of
               Some r \<Rightarrow> (Inr r, e')
             | None \<Rightarrow> (Inl (BudgetExhausted (exhausted_message candidates)), e'))))"

section \<open>Validation\<close>

lemma first_unknown_None: "first_unknown known ns = None \<longleftrightarrow> set ns \<subseteq> set known"
  by (induction known ns rule: first_unknown.induct) auto

lemma validate_routing_None:
  "validate_routing r known = None \<longleftrightarrow>
     set (rt_default_chain r) \<subseteq> set known \<and>
     (\<forall>t. af_switch_to (rt_attack_failover r) = Some t \<longrightarrow> t \<in> set known)"
  by (auto simp: validate_routing_def first_unknown_None split: option.splits if_splits
      simp flip: first_unknown_None)

section \<open>Rules and the candidate loop\<close>

lemma violates_rule_iff:
  "violates_rule e provider day rule \<longleftrightarrow>
     (\<forall>p. cond_provider (rule_when rule) = Some p \<longrightarrow> p = provider) \<and>
     (\<forall>th. cond_tokens_today (rule_when rule) = Some th \<longrightarrow>
        threshold_matches th (tokens_today e provider day))"
  by (auto simp: violates_rule_def split: option.splits)

definition violated :: "policy_engine \<Rightarrow> string \<Rightarrow> string \<Rightarrow> routing_rule list" where
  "violated e day c = filter (violates_rule e c day) (rt_rules (pe_routing e))"

text \<open>What the first violated rule does to a candidate.\<close>

definition passes_over :: "policy_engine \<Rightarrow> string \<Rightarrow> string \<Rightarrow> bool" where
  "passes_over e day c \<longleftrightarrow>
     (\<exists>r rs. violated e day c = r # rs \<and> act_switch_to (rule_action r) = None)"

definition serves :: "policy_engine \<Rightarrow> string \<Rightarrow> string \<Rightarrow> string \<Rightarrow> bool" where
  "serves e day c p \<longleftrightarrow>
     (violated e day c = [] \<and> p = c) \<or>
     (\<exists>r rs. violated e day c = r # rs \<and> act_switch_to (rule_action r) = Some p)"

lemma resolve_loop_Cons:
  "resolve_loop e day mapping requested (c # cs) =
     (case violated e day c of
        [] \<Rightarrow> Some (c, concrete_model mapping requested c)
      | r # rs \<Rightarrow>
          (case act_switch_to (rule_action r) of
             Some t \<Rightarrow> Some (t, concrete_model mapping requested t)
           | None \<Rightarrow> resolve_loop e day mapping requested cs))"
  by (simp add: violated_def split: list.split)

lemma passes_or_serves: "passes_over e day c \<longleftrightarrow> (\<nexists>p. serves e day c p)"
  by (cases "violated e day c") (auto simp: passes_over_def serves_def)

lemma serves_unique: "serves e day c p \<Longrightarrow> serves e day c q \<Longrightarrow> p = q"
  by (auto simp: serves_def)

lemma resolve_loop_step:
  "passes_over e day c \<Longrightarrow>
     resolve_loop e day mapping requested (c # cs) = resolve_loop e day mapping requested cs"
  "serves e day c p \<Longrightarrow>
     resolve_loop e day mapping requested (c # cs) = Some (p, concrete_model mapping requested p)"
  unfolding resolve_loop_Cons by (auto simp: passes_over_def serves_def)

declare resolve_loop.simps(2) [simp del]

lemma resolve_loop_None:
  "resolve_loop e day mapping requested cs = None \<longleftrightarrow> (\<forall>c \<in> set cs. passes_over e day c)"
proof (induction cs)
  case Nil
  show ?case by simp
next
  case (Cons c cs)
  show ?case
  proof (cases "passes_over e day c")
    case True
    with Cons show ?thesis by (simp add: resolve_loop_step(1))
  next
    case False
    then obtain p where "serves e day c p" by (auto simp: passes_or_serves)
    with False show ?thesis by (simp add: resolve_loop_step(2))
  qed
qed

lemma first_served_Cons:
  assumes "\<And>q. \<not> serves e day c q" and "passes_over e day c"
  shows "(\<exists>pre c' post. c # cs = pre @ c' # post \<and> (\<forall>x \<in> set pre. passes_over e day x) \<and>
        serves e day c' p \<and> Q)
      \<longleftrightarrow> (\<exists>pre c' post. cs = pre @ c' # post \<and> (\<forall>x \<in> set pre. passes_over e day x) \<and>
        serves e day c' p \<and> Q)" (is "?L \<longleftrightarrow> ?R")
proof
  assume ?L
  then obtain pre c' post where d: "c # cs = pre @ c' # post"
    and r: "\<forall>x \<in> set pre. passes_over e day x" "serves e day c' p" Q by blast
  with assms(1) obtain pre' where "pre = c # pre'" by (cases pre) auto
  with d r show ?R
    by (intro exI [of _ pre'] exI [of _ c'] exI [of _ post]) simp
next
  assume ?R
  then obtain pre c' post where "cs = pre @ c' # post" "\<forall>x \<in> set pre. passes_over e day x"
    "serves e day c' p" Q by blast
  with assms(2) show ?L
    by (intro exI [of _ "c # pre"] exI [of _ c'] exI [of _ post]) simp
qed

lemma first_served_here:
  assumes "\<not> passes_over e day c"
  shows "(\<exists>pre c' post. c # cs = pre @ c' # post \<and> (\<forall>x \<in> set pre. passes_over e day x) \<and>
        serves e day c' p \<and> Q) \<longleftrightarrow> serves e day c p \<and> Q" (is "?L \<longleftrightarrow> ?R")
proof
  assume ?L
  then obtain pre c' post where d: "c # cs = pre @ c' # post"
    and r: "\<forall>x \<in> set pre. passes_over e day x" "serves e day c' p" Q by blast
  with assms have "pre = []" by (cases pre) auto
  with d r show ?R by simp
next
  assume ?R
  then show ?L by (intro exI [of _ "[]"] exI [of _ c] exI [of _ cs]) simp
qed

lemma resolve_loop_Some:
  "resolve_loop e day mapping requested cs = Some (p, m) \<longleftrightarrow>
     (\<exists>pre c post. cs = pre @ c # post \<and> (\<forall>x \<in> set pre. passes_over e day x) \<and>
        serves e day c p \<and> m = concrete_model mapping requested p)"
proof (induction cs)
  case Nil
  show ?case by simp
next
  case (Cons c cs)
  show ?case
  proof (cases "passes_over e day c")
    case True
    then have "\<not> serves e day c q" for q by (auto simp: passes_or_serves)
    then have "(\<exists>pre c' post. c # cs = pre @ c' # post \<and> (\<forall>x \<in> set pre. passes_over e day x) \<and>
        serves e day c' p \<and> m = concrete_model mapping requested p)
      \<longleftrightarrow> (\<exists>pre c' post. cs = pre @ c' # post \<and> (\<forall>x \<in> set pre. passes_over e day x) \<and>
        serves e day c' p \<and> m = concrete_model mapping requested p)"
      using True by (rule first_served_Cons)
    with True Cons show ?thesis by (simp add: resolve_loop_step(1))
  next
    case False
    then obtain q where q: "serves e day c q" by (auto simp: passes_or_serves)
    have "(\<exists>pre c' post. c # cs = pre @ c' # post \<and> (\<forall>x \<in> set pre. passes_over e day x) \<and>
        serves e day c' p \<and> m = concrete_model mapping requested p)
      \<longleftrightarrow> serves e day c p \<and> m = concrete_model mapping requested p"
      using False by (rule first_served_here)
    also have "\<dots> \<longleftrightarrow> q = p \<and> m = concrete_model mapping requested p"
      using q serves_unique by blast
    finally show ?thesis using q by (auto simp: resolve_loop_step(2))
  qed
qed

section \<open>Resolution\<close>

lemma apply_override_routing: "apply_override now e = (cs, e') \<Longrightarrow> pe_routing e' = pe_routing e"
  by (auto simp: apply_override_def split: option.splits if_splits)

lemma apply_override_frame:
  "apply_override now e = (cs, e') \<Longrightarrow>
     blocked_sources e' = blocked_sources e \<and> attack_times e' = attack_times e \<and>
     provider_tokens e' = provider_tokens e \<and>
     (override_provider e' = override_provider e \<or> override_provider e' = None)"
  by (auto simp: apply_override_def split: option.splits if_splits)

lemma violates_rule_cong:
  "provider_tokens e' = provider_tokens e \<Longrightarrow> violates_rule e' = violates_rule e"
proof -
  assume "provider_tokens e' = provider_tokens e"
  then have t: "tokens_today e' = tokens_today e" by (simp add: fun_eq_iff tokens_today_def)
  show ?thesis unfolding violates_rule_def [abs_def] t by (rule refl)
qed

lemma violated_apply_override:
  "apply_override now e = (cs, e') \<Longrightarrow> violated e' = violated e"
  using apply_override_routing [of now e cs e'] apply_override_frame [of now e cs e']
    violates_rule_cong [of e' e]
  by (simp add: violated_def [abs_def])

lemma serves_apply_override: "apply_override now e = (cs, e') \<Longrightarrow> serves e' = serves e"
  by (simp add: serves_def violated_apply_override fun_eq_iff)

lemma passes_apply_override: "apply_override now e = (cs, e') \<Longrightarrow> passes_over e' = passes_over e"
  by (simp add: passes_over_def violated_apply_override fun_eq_iff)

definition source_blocked :: "f64 \<Rightarrow> policy_engine \<Rightarrow> string \<Rightarrow> bool" where
  "source_blocked now e client \<longleftrightarrow>
     f64_lt now (case hget (blocked_sources e) client of Some u \<Rightarrow> u | None \<Rightarrow> f64_of_int 0)"

lemma resolve_blocked:
  "source_blocked now e client \<Longrightarrow>
     resolve now e requested client =
       (Inl (Blocked ''request source is temporarily blocked''), e)"
  by (simp add: resolve_def source_blocked_def)

lemma resolve_unblocked:
  assumes "\<not> source_blocked now e client" and "apply_override now e = (cs, e')"
  shows "resolve now e requested client =
    ((case resolve_loop e' (router_day_string now) (hget (rt_model_mapping (pe_routing e)) requested)
             requested cs of
        Some r \<Rightarrow> Inr r | None \<Rightarrow> Inl (BudgetExhausted (exhausted_message cs))), e')"
  using assms apply_override_routing [OF assms(2)]
  by (simp add: resolve_def source_blocked_def Let_def split: option.split)

lemma set_apply_override:
  "apply_override now e = (cs, e') \<Longrightarrow>
     set cs \<subseteq> set (chain_or_default e) \<union> set_option (override_provider e) \<and>
     set (chain_or_default e) \<subseteq> set cs"
  by (auto simp: apply_override_def split: option.splits if_splits)

lemma resolve_Inr:
  assumes "resolve now e requested client = (Inr (p, m), e')"
  obtains pre c post where "\<not> source_blocked now e client"
    and "apply_override now e = (pre @ c # post, e')"
    and "\<forall>x \<in> set pre. passes_over e (router_day_string now) x"
    and "serves e (router_day_string now) c p"
    and "m = concrete_model (hget (rt_model_mapping (pe_routing e)) requested) requested p"
proof -
  obtain cs e1 where ov: "apply_override now e = (cs, e1)" by fastforce
  have nb: "\<not> source_blocked now e client"
    using assms by (auto simp: resolve_blocked)
  from assms have e1: "e1 = e'" and "resolve_loop e1 (router_day_string now)
      (hget (rt_model_mapping (pe_routing e)) requested) requested cs = Some (p, m)"
    by (auto simp: resolve_unblocked [OF nb ov] split: option.splits)
  then obtain pre c post where "cs = pre @ c # post" "\<forall>x \<in> set pre. passes_over e (router_day_string now) x"
    "serves e (router_day_string now) c p"
    "m = concrete_model (hget (rt_model_mapping (pe_routing e)) requested) requested p"
    using serves_apply_override [OF ov] passes_apply_override [OF ov]
    by (auto simp: resolve_loop_Some)
  with that nb ov e1 show thesis by blast
qed

lemma resolve_exhausted_iff:
  "(\<exists>msg. fst (resolve now e requested client) = Inl (BudgetExhausted msg)) \<longleftrightarrow>
     \<not> source_blocked now e client \<and>
     (\<forall>c \<in> set (fst (apply_override now e)). passes_over e (router_day_string now) c)"
proof (cases "source_blocked now e client")
  case True
  then show ?thesis by (simp add: resolve_blocked)
next
  case False
  obtain cs e1 where ov: "apply_override now e = (cs, e1)" by fastforce
  show ?thesis
    using False passes_apply_override [OF ov]
      resolve_loop_None [of e1 "router_day_string now"
        "hget (rt_model_mapping (pe_routing e)) requested" requested cs]
    by (auto simp: resolve_unblocked [OF False ov] ov simp del: not_None_eq split: option.splits)
qed

section \<open>Attack failover\<close>

abbreviation failover :: "policy_engine \<Rightarrow> attack_failover_config" where
  "failover e \<equiv> rt_attack_failover (pe_routing e)"

definition attack_counts :: "policy_engine \<Rightarrow> string \<Rightarrow> bool" where
  "attack_counts e sev \<longleftrightarrow>
     af_enabled (failover e) \<and> severity_rank (af_min_severity (failover e)) \<le> severity_rank sev"

lemma on_attack_ignored: "\<not> attack_counts e sev \<Longrightarrow> on_attack_detected now e sev client = e"
  by (auto simp: attack_counts_def on_attack_detected_def Let_def)

lemma on_attack_below:
  "attack_counts e sev \<Longrightarrow> length (attack_window now e client) < af_count (failover e) \<Longrightarrow>
     on_attack_detected now e sev client =
       e\<lparr>attack_times := hput client (attack_window now e client) (attack_times e)\<rparr>"
  by (simp add: attack_counts_def on_attack_detected_def Let_def)

definition block_until :: "f64 \<Rightarrow> policy_engine \<Rightarrow> f64" where
  "block_until now e = f64_add now (f64_of_int (int (af_block_ttl_seconds (failover e))))"

definition failover_until :: "f64 \<Rightarrow> policy_engine \<Rightarrow> f64" where
  "failover_until now e = f64_add now (f64_of_int (int (af_cooldown_seconds (failover e))))"

lemma on_attack_trigger:
  assumes "attack_counts e sev" and "af_count (failover e) \<le> length (attack_window now e client)"
  shows "on_attack_detected now e sev client =
    e\<lparr>attack_times := hput client [] (attack_times e),
      blocked_sources :=
        (if af_block_source (failover e) \<and> client \<noteq> []
         then hput client (block_until now e) (blocked_sources e) else blocked_sources e),
      override_provider :=
        (case af_switch_to (failover e) of Some t \<Rightarrow> Some t | None \<Rightarrow> override_provider e),
      override_until :=
        (case af_switch_to (failover e) of Some t \<Rightarrow> failover_until now e
         | None \<Rightarrow> override_until e)\<rparr>"
  using assms
  by (auto simp: attack_counts_def on_attack_detected_def Let_def block_until_def
      failover_until_def split: option.split)

lemmas on_attack_cases = on_attack_ignored on_attack_below on_attack_trigger

lemma on_attack_routing [simp]: "pe_routing (on_attack_detected now e sev client) = pe_routing e"
  by (auto simp: on_attack_detected_def Let_def split: option.split)

lemma on_attack_tokens [simp]:
  "provider_tokens (on_attack_detected now e sev client) = provider_tokens e"
  by (auto simp: on_attack_detected_def Let_def split: option.split)

lemma on_attack_other_client:
  assumes "other \<noteq> client"
  shows "hget (blocked_sources (on_attack_detected now e sev client)) other =
      hget (blocked_sources e) other"
    and "hget (attack_times (on_attack_detected now e sev client)) other =
      hget (attack_times e) other"
  using assms by (auto simp: on_attack_detected_def Let_def split: option.split)

lemma block_needs_count:
  assumes "blocked_sources (on_attack_detected now e sev client) \<noteq> blocked_sources e"
  shows "attack_counts e sev \<and> af_block_source (failover e) \<and> client \<noteq> [] \<and>
    af_count (failover e) \<le> length (attack_window now e client)"
  using assms
  by (cases "attack_counts e sev"; cases "af_count (failover e) \<le> length (attack_window now e client)")
    (auto simp: on_attack_cases split: if_splits)

text \<open>Every entry of the window, the new event aside, is recent.\<close>

definition in_window :: "policy_engine \<Rightarrow> f64 \<Rightarrow> f64 \<Rightarrow> bool" where
  "in_window e now ts \<longleftrightarrow>
     f64_ge ts (f64_sub now (f64_of_int (int (af_window_seconds (failover e)))))"

lemma attack_window_alt:
  "attack_window now e client =
     filter (in_window e now) (case hget (attack_times e) client of Some l \<Rightarrow> l | None \<Rightarrow> []) @ [now]"
  by (simp add: attack_window_def in_window_def [abs_def] Let_def)

subsection \<open>A run of attacks by one client\<close>

definition attack_run :: "string \<Rightarrow> policy_engine \<Rightarrow> (f64 \<times> string) list \<Rightarrow> policy_engine" where
  "attack_run client e evs = foldl (\<lambda>e (t, sev). on_attack_detected t e sev client) e evs"

lemma attack_run_simps [simp]:
  "attack_run client e [] = e"
  "attack_run client e (ev # evs) =
     attack_run client (on_attack_detected (fst ev) e (snd ev) client) evs"
  by (simp_all add: attack_run_def split_beta)

lemma attack_run_append:
  "attack_run client e (evs @ evs') = attack_run client (attack_run client e evs) evs'"
  by (simp add: attack_run_def)

text \<open>All attacks count, and each earlier one is still in the window of each later one.\<close>

definition burst :: "policy_engine \<Rightarrow> f64 list \<Rightarrow> (f64 \<times> string) list \<Rightarrow> bool" where
  "burst e old evs \<longleftrightarrow>
     (\<forall>ev \<in> set evs. attack_counts e (snd ev)) \<and>
     sorted_wrt (\<lambda>x y. in_window e y x) (old @ map fst evs)"

lemma burst_cong: "pe_routing e' = pe_routing e \<Longrightarrow> burst e' old evs = burst e old evs"
  by (simp add: burst_def attack_counts_def in_window_def)

lemma attack_run_below:
  assumes "burst e old evs" and "hget (attack_times e) client = Some old \<or>
      hget (attack_times e) client = None \<and> old = []"
    and "length old + length evs < af_count (failover e)"
  shows "\<exists>hist. attack_run client e evs = e\<lparr>attack_times := hist\<rparr> \<and>
    (evs = [] \<or> hget hist client = Some (old @ map fst evs)) \<and> (evs = [] \<longrightarrow> hist = attack_times e)"
  using assms
proof (induction evs arbitrary: e old)
  case Nil
  show ?case by (intro exI [of _ "attack_times e"]) simp
next
  case (Cons ev evs)
  let ?t = "fst ev"
  have old: "(case hget (attack_times e) client of Some l \<Rightarrow> l | None \<Rightarrow> []) = old"
    using Cons.prems(2) by auto
  have w: "attack_window ?t e client = old @ [?t]"
    using Cons.prems(1) unfolding attack_window_alt old
    by (auto simp: burst_def sorted_wrt_append filter_id_conv)
  define e1 where "e1 = e\<lparr>attack_times := hput client (old @ [?t]) (attack_times e)\<rparr>"
  have "on_attack_detected ?t e (snd ev) client = e1"
    using Cons.prems(1,3) by (simp add: on_attack_below w burst_def e1_def)
  moreover have "burst e1 (old @ [?t]) evs"
    using Cons.prems(1) by (subst burst_cong [of e1 e]) (simp_all add: e1_def burst_def)
  moreover have "hget (attack_times e1) client = Some (old @ [?t])" by (simp add: e1_def)
  moreover have "length (old @ [?t]) + length evs < af_count (failover e1)"
    using Cons.prems(3) by (simp add: e1_def)
  ultimately obtain hist where "attack_run client e (ev # evs) = e1\<lparr>attack_times := hist\<rparr>"
    and "evs = [] \<or> hget hist client = Some (old @ [?t] @ map fst evs)"
    and "evs = [] \<longrightarrow> hist = attack_times e1"
    using Cons.IH [of e1 "old @ [?t]"] by auto
  then show ?case by (intro exI [of _ hist]) (auto simp: e1_def)
qed

lemma attack_run_trigger:
  assumes b: "burst e [] evs" and none: "hget (attack_times e) client = None"
    and n: "length evs = af_count (failover e)" and ne: "evs \<noteq> []"
    and bs: "af_block_source (failover e)" and cl: "client \<noteq> []"
  shows "hget (blocked_sources (attack_run client e evs)) client =
    Some (block_until (fst (last evs)) e)"
proof -
  obtain evs' ev where evs: "evs = evs' @ [ev]" using ne by (cases evs rule: rev_cases) auto
  have "burst e [] evs'" using b by (auto simp: burst_def evs sorted_wrt_append)
  then obtain hist where run: "attack_run client e evs' = e\<lparr>attack_times := hist\<rparr>"
    and hist: "evs' = [] \<or> hget hist client = Some (map fst evs')" "evs' = [] \<longrightarrow> hist = attack_times e"
    using attack_run_below [of e "[]" evs' client] none n by (auto simp: evs)
  let ?e1 = "e\<lparr>attack_times := hist\<rparr>"
  have old: "(case hget (attack_times ?e1) client of Some l \<Rightarrow> l | None \<Rightarrow> []) = map fst evs'"
    using hist none by (cases evs') auto
  have "attack_window (fst ev) ?e1 client = map fst evs' @ [fst ev]"
    using b unfolding attack_window_alt old
    by (auto simp: burst_def evs sorted_wrt_append filter_id_conv in_window_def)
  then have "hget (blocked_sources (on_attack_detected (fst ev) ?e1 (snd ev) client)) client =
      Some (block_until (fst ev) ?e1)"
    using b n bs cl by (subst on_attack_trigger) (auto simp: burst_def evs attack_counts_def)
  then show ?thesis
    by (simp add: evs attack_run_append run block_until_def)
qed

section \<open>Reachable engines\<close>

inductive engine_step :: "policy_engine \<Rightarrow> policy_engine \<Rightarrow> bool" where
  attack: "engine_step e (on_attack_detected now e sev client)"
| tokens: "engine_step e (record_tokens_today now e provider n)"
| resolve: "engine_step e (snd (resolve now e requested client))"

inductive engine_reach :: "routing_config \<Rightarrow> policy_engine \<Rightarrow> bool" for r where
  init: "engine_reach r (new_engine r)"
| step: "engine_reach r e \<Longrightarrow> engine_step e e' \<Longrightarrow> engine_reach r e'"

lemma snd_resolve:
  "snd (resolve now e requested client) =
     (if source_blocked now e client then e else snd (apply_override now e))"
  by (cases "apply_override now e") (auto simp: resolve_blocked resolve_unblocked)

text \<open>
  The maps stay well formed, no client's attack list reaches the trigger count, an override is
  always the configured failover target, and the configuration never changes.
\<close>

definition engine_inv :: "routing_config \<Rightarrow> policy_engine \<Rightarrow> bool" where
  "engine_inv r e \<longleftrightarrow>
     pe_routing e = r \<and>
     hmap_ok (blocked_sources e) \<and> hmap_ok (attack_times e) \<and> hmap_ok (provider_tokens e) \<and>
     (\<forall>c l. hget (attack_times e) c = Some l \<longrightarrow>
        l = [] \<or> length l < af_count (rt_attack_failover r)) \<and>
     (\<forall>p. override_provider e = Some p \<longrightarrow> af_switch_to (rt_attack_failover r) = Some p)"

lemma engine_inv_new: "engine_inv r (new_engine r)"
  by (simp add: engine_inv_def new_engine_def)

lemma engine_inv_attack: "engine_inv r e \<Longrightarrow> engine_inv r (on_attack_detected now e sev client)"
  by (cases "attack_counts e sev"; cases "af_count (failover e) \<le> length (attack_window now e client)")
    (auto simp: on_attack_cases engine_inv_def split: option.split)

lemma engine_inv_tokens: "engine_inv r e \<Longrightarrow> engine_inv r (record_tokens_today now e p n)"
  by (simp add: engine_inv_def record_tokens_today_def record_tokens_def)

lemma engine_inv_resolve: "engine_inv r e \<Longrightarrow> engine_inv r (snd (resolve now e requested client))"
  by (auto simp: snd_resolve apply_override_def engine_inv_def split: option.splits)

lemma engine_reach_inv: "engine_reach r e \<Longrightarrow> engine_inv r e"
proof (induction rule: engine_reach.induct)
  case init
  show ?case by (rule engine_inv_new)
next
  case (step e e')
  from step.hyps(2) step.IH show ?case
    by (cases rule: engine_step.cases)
      (auto intro: engine_inv_attack engine_inv_tokens engine_inv_resolve)
qed

section \<open>Token counters\<close>

lemma tokens_today_record:
  assumes "in_i64 (v + n)" and "hget (provider_tokens e) (p, day) = Some v \<or>
      hget (provider_tokens e) (p, day) = None \<and> v = 0"
  shows "tokens_today (record_tokens e p n day) p day = f64_of_int (v + n)"
  using assms by (auto simp: tokens_today_def record_tokens_def i64_add_exact)

lemma tokens_today_record_other:
  "(p', day') \<noteq> (p, day) \<Longrightarrow>
     tokens_today (record_tokens e p n day) p' day' = tokens_today e p' day'"
  by (auto simp: tokens_today_def record_tokens_def)

text \<open>
  A rule with only lower bounds that a provider violates today stays violated while usage is
  recorded, as long as the counter stays in the range binary64 represents exactly.
\<close>

definition lower_bounds_only :: "routing_rule \<Rightarrow> bool" where
  "lower_bounds_only rule \<longleftrightarrow>
     (\<forall>th. cond_tokens_today (rule_when rule) = Some th \<longrightarrow> th_lt th = None \<and> th_lte th = None)"

definition token_count :: "policy_engine \<Rightarrow> string \<Rightarrow> string \<Rightarrow> int" where
  "token_count e p day = (case hget (provider_tokens e) (p, day) of Some v \<Rightarrow> v | None \<Rightarrow> 0)"

lemma f64_exact_in_i64: "f64_exact k \<Longrightarrow> in_i64 k"
  by (auto simp: f64_exact_def in_i64_def i64_min_def i64_max_def)

lemma violated_rule_stays:
  assumes "violates_rule e provider day rule" and "lower_bounds_only rule" and "0 \<le> n"
    and "f64_exact (token_count e p day')" and "f64_exact (token_count e p day' + n)"
  shows "violates_rule (record_tokens e p n day') provider day rule"
proof (cases "(provider, day) = (p, day')")
  case False
  then have "tokens_today (record_tokens e p n day') provider day = tokens_today e provider day"
    by (rule tokens_today_record_other)
  with assms(1) show ?thesis by (simp add: violates_rule_iff)
next
  case True
  let ?v = "token_count e p day'"
  have "tokens_today (record_tokens e p n day') p day' = f64_of_int (?v + n)"
    using assms(5) by (intro tokens_today_record)
      (auto simp: token_count_def f64_exact_in_i64 split: option.split)
  moreover have "tokens_today e p day' = f64_of_int ?v"
    by (simp add: tokens_today_def token_count_def)
  moreover have "f64_le (f64_of_int ?v) (f64_of_int (?v + n))"
    using assms(3-5) by (simp add: f64_of_int_le)
  ultimately show ?thesis
    using assms(1,2) True threshold_matches_mono
    by (auto simp: violates_rule_iff lower_bounds_only_def)
qed

section \<open>Properties\<close>

text \<open>
  C13: a successful \<open>resolve\<close> serves the first candidate of the (override-prefixed) chain that
  its first violated rule does not pass over, the client is not blocked, and the model name is
  the mapped one; a candidate that violates no rule serves itself.
\<close>

theorem resolve_first_admissible:
  assumes "resolve now e requested client = (Inr (p, m), e')"
  shows "\<not> source_blocked now e client \<and>
    (\<exists>pre c post. fst (apply_override now e) = pre @ c # post \<and>
       (\<forall>x \<in> set pre. passes_over e (router_day_string now) x) \<and>
       serves e (router_day_string now) c p) \<and>
    m = concrete_model (hget (rt_model_mapping (pe_routing e)) requested) requested p"
proof -
  from assms obtain pre c post where "\<not> source_blocked now e client"
    "apply_override now e = (pre @ c # post, e')"
    "\<forall>x \<in> set pre. passes_over e (router_day_string now) x"
    "serves e (router_day_string now) c p"
    "m = concrete_model (hget (rt_model_mapping (pe_routing e)) requested) requested p"
    by (rule resolve_Inr)
  then show ?thesis by auto
qed

definition demo_rule :: routing_rule where
  "demo_rule = \<lparr>rule_name = ''off'', rule_when = \<lparr>cond_provider = Some ''a'', cond_tokens_today = None\<rparr>,
     rule_action = \<lparr>act_next_in_chain = True, act_switch_to = None\<rparr>\<rparr>"

definition demo_routing :: routing_config where
  "demo_routing = routing_default\<lparr>rt_default_chain := [''a'', ''b''],
     rt_model_mapping := [(''gpt'', [(''b'', ''gpt-b'')])], rt_rules := [demo_rule],
     rt_attack_failover := \<lparr>af_enabled = True, af_count = 2, af_window_seconds = 300,
       af_min_severity = ''high'', af_switch_to = Some ''b'', af_block_source = True,
       af_block_ttl_seconds = 600, af_cooldown_seconds = 300\<rparr>\<rparr>"

lemma severity_rank_simps [simp]:
  "severity_rank ''low'' = 0" "severity_rank ''medium'' = 1" "severity_rank ''high'' = 2"
  "severity_rank ''critical'' = 3"
  by (simp_all add: severity_rank_def severity_table_def)

lemmas demo_defs = demo_routing_def demo_rule_def new_engine_def routing_default_def

lemma demo_resolve:
  "resolve (f64_of_int 1000) (new_engine demo_routing) ''gpt'' ''alice'' =
     (Inr (''b'', ''gpt-b''), new_engine demo_routing)"
  by (simp add: resolve_def apply_override_def chain_or_default_def concrete_model_def
      resolve_loop_Cons violated_def violates_rule_def f64_of_int_simps demo_defs)

theorem resolve_first_admissible_witness:
  "\<not> source_blocked (f64_of_int 1000) (new_engine demo_routing) ''alice''"
  using resolve_first_admissible [OF demo_resolve] by blast

text \<open>
  As many counted attacks as the configured \<open>count\<close>, each still inside the window when the
  next arrives, block their source: every \<open>resolve\<close> of that client before the end of the
  block is refused, whatever model it asks for.
\<close>

theorem burst_blocks_source:
  assumes "burst e [] evs" and "hget (attack_times e) client = None"
    and "length evs = af_count (failover e)" and "evs \<noteq> []"
    and "af_block_source (failover e)" and "client \<noteq> []"
    and "f64_lt now (block_until (fst (last evs)) e)"
  shows "resolve now (attack_run client e evs) requested client =
    (Inl (Blocked ''request source is temporarily blocked''), attack_run client e evs)"
proof -
  have "hget (blocked_sources (attack_run client e evs)) client =
      Some (block_until (fst (last evs)) e)"
    by (rule attack_run_trigger [OF assms(1-6)])
  with assms(7) have "source_blocked now (attack_run client e evs) client"
    by (simp add: source_blocked_def)
  then show ?thesis by (rule resolve_blocked)
qed

theorem burst_blocks_source_witness:
  "fst (resolve (f64_of_int 1500)
     (attack_run ''mallory'' (new_engine demo_routing)
        [(f64_of_int 1000, ''high''), (f64_of_int 1100, ''critical'')]) ''gpt'' ''mallory'') =
   Inl (Blocked ''request source is temporarily blocked'')"
  by (subst burst_blocks_source)
    (simp_all add: burst_def attack_counts_def in_window_def block_until_def f64_of_int_simps demo_defs)

text \<open>
  Fewer counted attacks than \<open>count\<close> never block or switch anything: the run only
  remembers their times.
\<close>

theorem short_burst_harmless:
  assumes "burst e [] evs" and "hget (attack_times e) client = None"
    and "length evs < af_count (failover e)"
  shows "blocked_sources (attack_run client e evs) = blocked_sources e \<and>
    override_provider (attack_run client e evs) = override_provider e \<and>
    override_until (attack_run client e evs) = override_until e \<and>
    (evs \<noteq> [] \<longrightarrow> hget (attack_times (attack_run client e evs)) client = Some (map fst evs))"
  using attack_run_below [OF assms(1), of client] assms(2,3) by auto

theorem short_burst_harmless_witness:
  "blocked_sources (attack_run ''mallory'' (new_engine demo_routing) [(f64_of_int 1000, ''high'')]) = []"
  using short_burst_harmless [of "new_engine demo_routing" "[(f64_of_int 1000, ''high'')]" "''mallory''"]
  by (simp add: burst_def attack_counts_def demo_defs)

text \<open>
  Blocking is justified and isolated: if an attack event changes the block list, it
  counted, blocking is on, and at least \<open>count\<close> events of that client are in its window; no
  other client's block or history changes.
\<close>

theorem block_justified_and_isolated:
  "(blocked_sources (on_attack_detected now e sev client) \<noteq> blocked_sources e \<longrightarrow>
      attack_counts e sev \<and> af_block_source (failover e) \<and> client \<noteq> [] \<and>
      af_count (failover e) \<le> length (attack_window now e client) \<and>
      (\<forall>ts \<in> set (butlast (attack_window now e client)). in_window e now ts)) \<and>
   (\<forall>other. other \<noteq> client \<longrightarrow>
      hget (blocked_sources (on_attack_detected now e sev client)) other = hget (blocked_sources e) other \<and>
      hget (attack_times (on_attack_detected now e sev client)) other = hget (attack_times e) other)"
  using block_needs_count [of now e sev client] on_attack_other_client [of _ client now e sev]
  by (auto simp: attack_window_alt)

theorem block_justified_and_isolated_witness:
  "hget (blocked_sources (on_attack_detected (f64_of_int 5) (new_engine demo_routing) ''high'' ''m'')) ''n'' = None"
  using block_justified_and_isolated [of "f64_of_int 5" "new_engine demo_routing" "''high''" "''m''"]
  by (simp add: demo_defs)

text \<open>
  In every reachable engine a resolved provider is a configured one, provided the
  configuration passed \<open>validate_routing\<close>, has a chain, and its rules only switch to
  configured providers (which \<open>validate_routing\<close> does not check).
\<close>

theorem resolve_known_provider:
  assumes "engine_reach r e" and "validate_routing r known = None" and "rt_default_chain r \<noteq> []"
    and "\<forall>rule \<in> set (rt_rules r). \<forall>t. act_switch_to (rule_action rule) = Some t \<longrightarrow> t \<in> set known"
    and "fst (resolve now e requested client) = Inr (p, m)"
  shows "p \<in> set known"
proof -
  have inv: "engine_inv r e" by (rule engine_reach_inv [OF assms(1)])
  obtain e' where "resolve now e requested client = (Inr (p, m), e')"
    using assms(5) by (cases "resolve now e requested client") simp
  then obtain pre c post where ov: "apply_override now e = (pre @ c # post, e')"
    and s: "serves e (router_day_string now) c p"
    by (rule resolve_Inr) 
  have "c \<in> set (chain_or_default e) \<union> set_option (override_provider e)"
    using set_apply_override [OF ov] by auto
  then have "c \<in> set known"
    using inv assms(2,3)
    by (auto simp: validate_routing_None engine_inv_def chain_or_default_def)
  moreover have "set (violated e (router_day_string now) c) \<subseteq> set (rt_rules r)"
    using inv by (auto simp: violated_def engine_inv_def)
  ultimately show ?thesis
    using s assms(4) by (auto simp: serves_def)
qed

theorem resolve_known_provider_witness: "''b'' \<in> set [''a'', ''b'']"
  by (rule resolve_known_provider [OF engine_reach.init, where r = demo_routing and
        now = "f64_of_int 1000" and requested = "''gpt''" and client = "''alice''" and m = "''gpt-b''"])
    (simp_all add: demo_resolve, simp_all add: validate_routing_None demo_defs)

definition stray_routing :: routing_config where
  "stray_routing = routing_default\<lparr>rt_default_chain := [''a''],
     rt_rules := [demo_rule\<lparr>rule_action := \<lparr>act_next_in_chain = False, act_switch_to = Some ''ghost''\<rparr>\<rparr>]\<rparr>"

text \<open>
  Without the condition on the rules the routed provider can be unknown: a configuration
  that passes \<open>validate_routing\<close> resolves to a provider that is not configured.
\<close>

theorem unvalidated_switch_target:
  "validate_routing stray_routing [''a''] = None \<and>
   fst (resolve (f64_of_int 1000) (new_engine stray_routing) ''gpt'' ''alice'') = Inr (''ghost'', ''gpt'') \<and>
   ''ghost'' \<notin> set [''a'']"
  by (simp add: validate_routing_None stray_routing_def resolve_def apply_override_def
      chain_or_default_def concrete_model_def resolve_loop_Cons violated_def violates_rule_def
      f64_of_int_simps demo_defs attack_failover_default_def)

text \<open>
  Every reachable engine keeps its maps well formed, holds fewer attack times per client
  than the trigger count, and overrides only to the configured failover target.
\<close>

theorem reachable_engine_invariant:
  assumes "engine_reach r e"
  shows "engine_inv r e"
  using assms by (rule engine_reach_inv)

theorem reachable_engine_invariant_witness:
  "engine_inv demo_routing
     (on_attack_detected (f64_of_int 5) (new_engine demo_routing) ''high'' ''m'')"
  by (rule reachable_engine_invariant [OF engine_reach.step [OF engine_reach.init engine_step.attack]])

text \<open>
  A budget rule with only lower bounds that a provider violates today stays violated while
  usage is recorded, so an exhausted provider is not silently readmitted.
\<close>

theorem exhausted_budget_stays:
  assumes "violates_rule e provider day rule" and "lower_bounds_only rule" and "0 \<le> n"
    and "f64_exact (token_count e p day')" and "f64_exact (token_count e p day' + n)"
  shows "violates_rule (record_tokens e p n day') provider day rule"
  using assms by (rule violated_rule_stays)

definition budget_rule :: routing_rule where
  "budget_rule = demo_rule\<lparr>rule_when := \<lparr>cond_provider = Some ''a'',
     cond_tokens_today = Some \<lparr>th_gt = Some (f64_of_int 50), th_gte = None, th_lt = None, th_lte = None\<rparr>\<rparr>\<rparr>"

theorem exhausted_budget_stays_witness:
  "violates_rule (record_tokens (record_tokens (new_engine demo_routing) ''a'' 60 ''20240101'')
      ''a'' 7 ''20240101'') ''a'' ''20240101'' budget_rule"
  by (rule exhausted_budget_stays)
    (simp_all add: violates_rule_def budget_rule_def demo_defs record_tokens_def tokens_today_def
      token_count_def lower_bounds_only_def threshold_matches_def i64_add_exact in_i64_def
      i64_min_def i64_max_def f64_of_int_simps)

definition clear_next :: "routing_rule \<Rightarrow> routing_rule" where
  "clear_next rule = rule\<lparr>rule_action := (rule_action rule)\<lparr>act_next_in_chain := False\<rparr>\<rparr>"

definition clear_engine :: "policy_engine \<Rightarrow> policy_engine" where
  "clear_engine e = e\<lparr>pe_routing := (pe_routing e)\<lparr>rt_rules := map clear_next (rt_rules (pe_routing e))\<rparr>\<rparr>"

lemma violates_clear_next: "violates_rule (clear_engine e) c day (clear_next r) = violates_rule e c day r"
  by (simp add: violates_rule_iff clear_next_def clear_engine_def tokens_today_def)

lemma rules_clear_engine:
  "rt_rules (pe_routing (clear_engine e)) = map clear_next (rt_rules (pe_routing e))"
  by (simp add: clear_engine_def)

lemma violated_clear_engine: "violated (clear_engine e) day c = map clear_next (violated e day c)"
  by (simp add: violated_def rules_clear_engine filter_map o_def violates_clear_next)

lemma resolve_loop_clear:
  "resolve_loop (clear_engine e) day mapping requested cs = resolve_loop e day mapping requested cs"
  by (induction cs)
    (auto simp: resolve_loop_Cons violated_clear_engine clear_next_def split: list.split option.split)

lemma apply_override_clear:
  "apply_override now (clear_engine e) = (fst (apply_override now e), clear_engine (snd (apply_override now e)))"
  by (auto simp: apply_override_def clear_engine_def chain_or_default_def split: option.split)

text \<open>
  The flag \<open>next_in_chain\<close> has no effect: clearing it in every rule changes no outcome of
  \<open>resolve\<close>, so a rule with neither \<open>next_in_chain\<close> nor \<open>switch_to\<close> also moves on.
\<close>

theorem next_in_chain_irrelevant:
  "resolve now (clear_engine e) requested client =
     (fst (resolve now e requested client), clear_engine (snd (resolve now e requested client)))"
proof (cases "source_blocked now e client")
  case True
  then have "source_blocked now (clear_engine e) client"
    by (simp add: source_blocked_def clear_engine_def)
  with True show ?thesis by (simp add: resolve_blocked)
next
  case False
  then have nb: "\<not> source_blocked now (clear_engine e) client"
    by (simp add: source_blocked_def clear_engine_def)
  obtain cs e1 where ov: "apply_override now e = (cs, e1)" by fastforce
  then have "apply_override now (clear_engine e) = (cs, clear_engine e1)"
    by (simp add: apply_override_clear)
  moreover have "rt_model_mapping (pe_routing (clear_engine e)) = rt_model_mapping (pe_routing e)"
    by (simp add: clear_engine_def)
  ultimately show ?thesis
    by (simp add: resolve_unblocked [OF nb] resolve_unblocked [OF False ov] resolve_loop_clear)
qed

end
