(* ===== verification/Metering_Ledger.thy ===== *)
theory Metering_Ledger
  imports Metering
begin

text \<open>
  What \<open>Metering\<close> promises over a whole day of traffic: a ledger lists the reservations that
  are open and those that are settled (with the usage they were settled with), a step relation
  interleaves admissions, refusals, settlements, repeated settlements and quota checks in any
  order, and the store's counters are shown to be the ledger's sums.  The invariant is proved
  once for a backend that keeps the contract and does not fail (\<open>reliable_backend\<close>);
  the in-memory store is one.
\<close>

section \<open>The ledger\<close>

record 's ledger =
  lg_store :: 's
  lg_open :: "reservation list"
  lg_spent :: "(reservation \<times> int) list"
  lg_volume :: int

definition start_ledger :: "'s \<Rightarrow> 's ledger" where
  "start_ledger s = \<lparr>lg_store = s, lg_open = [], lg_spent = [], lg_volume = 0\<rparr>"

text \<open>The reserve as a number, and what a reservation holds in a bucket while it is open.\<close>

definition reserve_of :: "reservation \<Rightarrow> int" where
  "reserve_of r = prompt_est r + completion_cap r"

definition token_buckets :: "string \<Rightarrow> reservation \<Rightarrow> string list" where
  "token_buckets day r =
     [c_tokens_of (rsv_client r) day, p_tokens_of (rsv_provider r) day, m_tokens_of (rsv_model r) day]"

definition req_buckets :: "string \<Rightarrow> reservation \<Rightarrow> string list" where
  "req_buckets day r = [c_req_of (rsv_client r) day, p_req_of (rsv_provider r) day]"

definition held :: "string \<Rightarrow> string \<Rightarrow> reservation \<Rightarrow> int \<Rightarrow> int" where
  "held day k r amount =
     (if k \<in> set (token_buckets day r) then amount
      else if k \<in> set (req_buckets day r) then 1 else 0)"

definition balance :: "string \<Rightarrow> 's ledger \<Rightarrow> string \<Rightarrow> int" where
  "balance day l k = (\<Sum>r\<leftarrow>lg_open l. held day k r (reserve_of r))
     + (\<Sum>(r, a)\<leftarrow>lg_spent l. held day k r a)"

text \<open>By how much settled reservations of a token bucket used more than they had reserved.\<close>

definition overshoot :: "string \<Rightarrow> 's ledger \<Rightarrow> string \<Rightarrow> int" where
  "overshoot day l k =
     (\<Sum>(r, a)\<leftarrow>lg_spent l. if k \<in> set (token_buckets day r) then max 0 (a - reserve_of r) else 0)"

definition rids :: "'s ledger \<Rightarrow> string list" where
  "rids l = map rsv_id (lg_open l) @ map (rsv_id \<circ> fst) (lg_spent l)"

text \<open>What an admission asks for: the volume bounds every sum the store forms.\<close>

definition asked :: "metering \<Rightarrow> int \<Rightarrow> int option \<Rightarrow> int" where
  "asked m est cap =
     max 0 est + max 0 (case cap of Some c \<Rightarrow> c | None \<Rightarrow> mt_completion_reserve m) + 1"

section \<open>Traffic of one day\<close>

inductive ledger_step :: "'s store_ops \<Rightarrow> metering \<Rightarrow> string \<Rightarrow> 's ledger \<Rightarrow> 's ledger \<Rightarrow> bool"
  for ops m day where
  Admitted: "day_string now = day \<Longrightarrow>
    admit ops now r1 r2 m client provider model est cap (lg_store l) = (Inr r, s) \<Longrightarrow>
    rsv_id r \<notin> set (rids l) \<Longrightarrow>
    ledger_step ops m day l
      (l\<lparr>lg_store := s, lg_open := r # lg_open l, lg_volume := lg_volume l + asked m est cap\<rparr>)"
| Refused: "day_string now = day \<Longrightarrow>
    admit ops now r1 r2 m client provider model est cap (lg_store l) = (Inl e, s) \<Longrightarrow>
    ledger_step ops m day l (l\<lparr>lg_store := s, lg_volume := lg_volume l + asked m est cap\<rparr>)"
| Settled: "day_string now = day \<Longrightarrow> r \<in> set (lg_open l) \<Longrightarrow> 0 \<le> prompt \<Longrightarrow> 0 \<le> completion \<Longrightarrow>
    ledger_step ops m day l
      (l\<lparr>lg_store := settle ops now r prompt completion (lg_store l),
         lg_open := remove1 r (lg_open l), lg_spent := (r, prompt + completion) # lg_spent l,
         lg_volume := lg_volume l + prompt + completion\<rparr>)"
| Resettled: "day_string now = day \<Longrightarrow> r \<in> fst ` set (lg_spent l) \<Longrightarrow>
    ledger_step ops m day l (l\<lparr>lg_store := settle ops now r prompt completion (lg_store l)\<rparr>)"
| Client_checked: "check_client ops now m client (lg_store l) = (c, s) \<Longrightarrow>
    ledger_step ops m day l (l\<lparr>lg_store := s\<rparr>)"
| Provider_checked: "check_provider ops now m provider (lg_store l) = (c, s) \<Longrightarrow>
    ledger_step ops m day l (l\<lparr>lg_store := s\<rparr>)"

inductive traffic :: "'s store_ops \<Rightarrow> metering \<Rightarrow> string \<Rightarrow> 's ledger \<Rightarrow> 's ledger \<Rightarrow> bool"
  for ops m day l0 where
  Start: "traffic ops m day l0 l0"
| Next: "traffic ops m day l0 l \<Longrightarrow> ledger_step ops m day l l' \<Longrightarrow> traffic ops m day l0 l'"

lemma traffic_trans:
  "traffic ops m day l1 l2 \<Longrightarrow> traffic ops m day l0 l1 \<Longrightarrow> traffic ops m day l0 l2"
  by (induction rule: traffic.induct) (auto intro: traffic.intros)

text \<open>The quota a bucket is under, if any.\<close>

definition limited :: "metering \<Rightarrow> string \<Rightarrow> (string \<times> int) set" where
  "limited m day =
     (\<Union>c. {(c_tokens_of c day, limit_arg (mt_client_tokens m)),
            (c_req_of c day, limit_arg (mt_client_requests m)),
            (p_tokens_of c day, limit_arg (mt_provider_tokens m))})"

definition ledger_ok :: "('s \<Rightarrow> string \<Rightarrow> int) \<Rightarrow> ('s \<Rightarrow> string set) \<Rightarrow> metering \<Rightarrow> string \<Rightarrow> 's ledger \<Rightarrow> bool" where
  "ledger_ok used fins m day l \<longleftrightarrow>
     used (lg_store l) = balance day l \<and>
     fins (lg_store l) = (\<lambda>(r, a). rsv_key (rsv_id r)) ` set (lg_spent l) \<and>
     distinct (rids l) \<and>
     (\<forall>r \<in> set (lg_open l) \<union> fst ` set (lg_spent l). 0 \<le> prompt_est r \<and> 0 \<le> completion_cap r) \<and>
     (\<forall>(r, a) \<in> set (lg_spent l). 0 \<le> a) \<and>
     (\<forall>k. balance day l k \<le> lg_volume l) \<and>
     (\<forall>(k, limit) \<in> limited m day. 0 \<le> limit \<longrightarrow> used (lg_store l) k \<le> limit + overshoot day l k)"

lemma ledger_okD:
  assumes "ledger_ok used fins m day l"
  shows "used (lg_store l) = balance day l"
    and "fins (lg_store l) = (\<lambda>(r, a). rsv_key (rsv_id r)) ` set (lg_spent l)"
    and "distinct (rids l)"
    and "r \<in> set (lg_open l) \<Longrightarrow> 0 \<le> prompt_est r \<and> 0 \<le> completion_cap r"
    and "r \<in> fst ` set (lg_spent l) \<Longrightarrow> 0 \<le> prompt_est r \<and> 0 \<le> completion_cap r"
    and "(r, a) \<in> set (lg_spent l) \<Longrightarrow> 0 \<le> a"
    and "balance day l k \<le> lg_volume l"
    and "(k, limit) \<in> limited m day \<Longrightarrow> 0 \<le> limit \<Longrightarrow> used (lg_store l) k \<le> limit + overshoot day l k"
  using assms by (auto simp: ledger_ok_def)

section \<open>Sums\<close>

lemma held_nonneg [simp]: "0 \<le> amount \<Longrightarrow> 0 \<le> held day k r amount"
  by (simp add: held_def)

lemma overshoot_nonneg [simp]: "0 \<le> overshoot day l k"
  unfolding overshoot_def by (rule sum_list_nonneg) auto

lemma balance_nonneg:
  assumes "ledger_ok used fins m day l"
  shows "0 \<le> balance day l k"
proof -
  have "0 \<le> (\<Sum>r\<leftarrow>lg_open l. held day k r (reserve_of r))"
    using ledger_okD(4) [OF assms] by (intro sum_list_nonneg) (auto simp: reserve_of_def)
  moreover have "0 \<le> (\<Sum>(r, a)\<leftarrow>lg_spent l. held day k r a)"
    using ledger_okD(6) [OF assms] by (intro sum_list_nonneg) fastforce
  ultimately show ?thesis by (simp add: balance_def)
qed

lemma sum_list_remove1:
  fixes f :: "'a \<Rightarrow> int"
  shows "x \<in> set xs \<Longrightarrow> (\<Sum>y\<leftarrow>remove1 x xs. f y) = (\<Sum>y\<leftarrow>xs. f y) - f x"
  by (induction xs) auto

lemma distinct_move:
  "x \<in> set xs \<Longrightarrow> distinct (map f xs @ ys) \<Longrightarrow> distinct (map f (remove1 x xs) @ f x # ys)"
  by (induction xs) (auto dest: set_mp [OF set_remove1_subset] intro: rev_image_eqI)

lemma balance_open:
  "balance day (l\<lparr>lg_store := s, lg_open := r # lg_open l, lg_volume := v\<rparr>) k
     = balance day l k + held day k r (reserve_of r)"
  by (simp add: balance_def)

lemma balance_settle:
  "r \<in> set (lg_open l) \<Longrightarrow>
   balance day (l\<lparr>lg_store := s, lg_open := remove1 r (lg_open l), lg_spent := (r, a) # lg_spent l,
       lg_volume := v\<rparr>) k
     = balance day l k + held day k r a - held day k r (reserve_of r)"
  by (simp add: balance_def sum_list_remove1)

lemma overshoot_settle:
  "overshoot day (l\<lparr>lg_store := s, lg_open := os, lg_spent := (r, a) # lg_spent l, lg_volume := v\<rparr>) k
     = overshoot day l k + (if k \<in> set (token_buckets day r) then max 0 (a - reserve_of r) else 0)"
  by (simp add: overshoot_def)

lemma ledger_update [simp]:
  "balance day (l\<lparr>lg_store := s\<rparr>) = balance day l"
  "balance day (l\<lparr>lg_store := s, lg_volume := v\<rparr>) = balance day l"
  "overshoot day (l\<lparr>lg_store := s\<rparr>) = overshoot day l"
  "overshoot day (l\<lparr>lg_store := s, lg_volume := v\<rparr>) = overshoot day l"
  "overshoot day (l\<lparr>lg_store := s, lg_open := os, lg_volume := v\<rparr>) = overshoot day l"
  "rids (l\<lparr>lg_store := s\<rparr>) = rids l"
  "rids (l\<lparr>lg_store := s, lg_volume := v\<rparr>) = rids l"
  "rids (l\<lparr>lg_store := s, lg_open := r # lg_open l, lg_volume := v\<rparr>) = rsv_id r # rids l"
  by (simp_all add: balance_def overshoot_def rids_def fun_eq_iff)

lemma start_ledger_simps [simp]:
  "balance day (start_ledger s) k = 0" "overshoot day (start_ledger s) k = 0"
  "rids (start_ledger s) = []" "lg_store (start_ledger s) = s" "lg_open (start_ledger s) = []"
  "lg_spent (start_ledger s) = []" "lg_volume (start_ledger s) = 0"
  by (simp_all add: balance_def overshoot_def rids_def start_ledger_def)

lemma op_amount_held: "op_amount (admit_request m day r) k = held day k r (reserved_total r)"
  by (auto simp: op_amount_def held_def admit_request_def token_buckets_def req_buckets_def)

lemma new_reservation_asked:
  assumes "asked m est cap \<le> i64_max"
  shows "reserved_total (new_reservation m r1 r2 c p md est cap) = asked m est cap - 1"
    and "reserve_of (new_reservation m r1 r2 c p md est cap) = asked m est cap - 1"
    and "1 \<le> asked m est cap"
    and "0 \<le> prompt_est (new_reservation m r1 r2 c p md est cap)"
    and "0 \<le> completion_cap (new_reservation m r1 r2 c p md est cap)"
  using assms
  by (simp_all add: reserved_total_def reserve_of_def new_reservation_def asked_def i64_add_exact
      in_i64_def i64_min_def i64_max_def)

lemma admit_cases:
  assumes "admit ops now r1 r2 m c p md est cap s = (res, s')"
  obtains s1 e where "ensure_ready ops m s = (Inl e, s1)" "res = Inl e" "s' = s1"
  | s1 u ans where "ensure_ready ops m s = (Inr u, s1)"
      "st_reserve ops (admit_request m (day_string now) (new_reservation m r1 r2 c p md est cap)) s1
         = (ans, s')"
      "res = (case ans of Inr _ \<Rightarrow> Inr (new_reservation m r1 r2 c p md est cap)
        | Inl (Denied d) \<Rightarrow> Inl (denied_error m d) | Inl (Backend msg) \<Rightarrow> Inl (BackendUnavailable msg))"
  using assms
  by (fastforce simp: admit_def Let_def split: prod.splits sum.splits reserve_error.splits)

lemma token_keys_buckets: "token_keys now r = token_buckets (day_string now) r"
  by (simp add: token_keys_def token_buckets_def Let_def)

lemma in_i64I: "0 \<le> x \<Longrightarrow> x \<le> i64_max \<Longrightarrow> in_i64 x"
  by (simp add: in_i64_def i64_min_def)

section \<open>A backend that answers\<close>

locale reliable_backend = metering_backend +
  assumes reserve_answers: "st_reserve ops req s \<noteq> (Inl (Backend e), s')"
    and settle_answers: "st_settle ops q s \<noteq> (Inl e, s')"
    and settle_fresh: "sr_reservation_key q \<notin> closed s \<Longrightarrow> st_settle ops q s \<noteq> (Inr False, s')"
begin

lemma ensure_ready_frame:
  assumes "ensure_ready ops m s = (r, s1)"
  shows "used s1 = used s \<and> closed s1 = closed s"
proof (cases "mt_fail_closed m")
  case True
  obtain p s2 where "st_ping ops s = (p, s2)" by (cases "st_ping ops s")
  with assms True ping_frame [OF this] show ?thesis
    by (cases p) (auto simp: ensure_ready_def)
next
  case False
  with assms show ?thesis by (simp add: ensure_ready_def)
qed

lemma check_quota_frame:
  assumes "check_quota ops m scope k limit s = (r, s1)"
  shows "used s1 = used s \<and> closed s1 = closed s"
proof (cases limit)
  case None
  with assms show ?thesis by (simp add: check_quota_def)
next
  case (Some a)
  obtain g s2 where "st_get ops k s = (g, s2)" by (cases "st_get ops k s")
  with assms Some get_frame [OF this] show ?thesis
    by (cases g) (auto simp: check_quota_def split: if_splits)
qed

lemma check_client_frame:
  assumes "check_client ops now m client s = (r, s')"
  shows "used s' = used s \<and> closed s' = closed s"
  using assms
  by (auto simp: check_client_def Let_def
      split: prod.splits sum.splits option.splits
      dest!: ensure_ready_frame check_quota_frame)

lemma check_provider_frame:
  assumes "check_provider ops now m provider s = (r, s')"
  shows "used s' = used s \<and> closed s' = closed s"
  using assms
  by (auto simp: check_provider_def Let_def
      split: prod.splits sum.splits option.splits
      dest!: ensure_ready_frame check_quota_frame)

lemma ledger_fits:
  assumes ok: "ledger_ok used closed m day l" and v: "lg_volume l + asked m est cap \<le> i64_max"
  shows "op_fits (used (lg_store l)) (admit_request m day (new_reservation m r1 r2 c p md est cap))"
proof -
  let ?r = "new_reservation m r1 r2 c p md est cap"
  have pos: "0 \<le> lg_volume l"
    using balance_nonneg [OF ok, of "[]"] ledger_okD(7) [OF ok, of "[]"] by linarith
  then have a: "asked m est cap \<le> i64_max" using v by linarith
  note na = new_reservation_asked [OF a]
  have "in_i64 (used (lg_store l) k + op_amount (admit_request m day ?r) k)" for k
  proof (rule in_i64I)
    have h: "0 \<le> held day k ?r (reserved_total ?r) \<and> held day k ?r (reserved_total ?r) \<le> asked m est cap"
      using na by (auto simp: held_def)
    then show "0 \<le> used (lg_store l) k + op_amount (admit_request m day ?r) k"
      using balance_nonneg [OF ok, of k] by (simp add: op_amount_held ledger_okD(1) [OF ok])
    show "used (lg_store l) k + op_amount (admit_request m day ?r) k \<le> i64_max"
      using h v ledger_okD(7) [OF ok, of k] by (simp add: op_amount_held ledger_okD(1) [OF ok])
  qed
  then show ?thesis by (simp add: op_fits_def)
qed

lemma admitted_store:
  assumes ok: "ledger_ok used closed m day l" and v: "lg_volume l + asked m est cap \<le> i64_max"
    and d: "day_string now = day"
    and a: "admit ops now r1 r2 m c p md est cap (lg_store l) = (Inr r, s)"
  shows "r = new_reservation m r1 r2 c p md est cap \<and>
    admits (used (lg_store l)) (admit_request m day r) \<and>
    used s = charged (used (lg_store l)) (admit_request m day r) \<and> closed s = closed (lg_store l)"
  using a
proof (rule admit_cases)
  fix s1 u ans
  let ?r = "new_reservation m r1 r2 c p md est cap"
  assume e: "ensure_ready ops m (lg_store l) = (Inr u, s1)"
    and r: "st_reserve ops (admit_request m (day_string now) ?r) s1 = (ans, s)"
    and res: "Inr r = (case ans of Inr _ \<Rightarrow> Inr ?r
        | Inl (Denied d) \<Rightarrow> Inl (denied_error m d) | Inl (Backend msg) \<Rightarrow> Inl (BackendUnavailable msg))"
  have fr: "used s1 = used (lg_store l) \<and> closed s1 = closed (lg_store l)"
    using e by (rule ensure_ready_frame)
  have f: "op_fits (used s1) (admit_request m (day_string now) ?r)"
    using ledger_fits [OF ok v] fr d by simp
  from res obtain w where "ans = Inr w" "r = ?r"
    by (auto split: sum.splits reserve_error.splits)
  with r d fr reserve_ok [OF f] show ?thesis by simp
qed simp

lemma refused_store:
  assumes ok: "ledger_ok used closed m day l" and v: "lg_volume l + asked m est cap \<le> i64_max"
    and d: "day_string now = day"
    and a: "admit ops now r1 r2 m c p md est cap (lg_store l) = (Inl e, s)"
  shows "used s = used (lg_store l) \<and> closed s = closed (lg_store l)"
  using a
proof (rule admit_cases)
  fix s1 e
  assume "ensure_ready ops m (lg_store l) = (Inl e, s1)" and "s = s1"
  then show ?thesis using ensure_ready_frame by blast
next
  fix s1 u ans
  let ?r = "new_reservation m r1 r2 c p md est cap"
  assume en: "ensure_ready ops m (lg_store l) = (Inr u, s1)"
    and r: "st_reserve ops (admit_request m (day_string now) ?r) s1 = (ans, s)"
    and res: "Inl e = (case ans of Inr _ \<Rightarrow> Inr ?r
        | Inl (Denied d) \<Rightarrow> Inl (denied_error m d) | Inl (Backend msg) \<Rightarrow> Inl (BackendUnavailable msg))"
  have fr: "used s1 = used (lg_store l) \<and> closed s1 = closed (lg_store l)"
    using en by (rule ensure_ready_frame)
  have f: "op_fits (used s1) (admit_request m (day_string now) ?r)"
    using ledger_fits [OF ok v] fr d by simp
  from res r reserve_answers obtain de where "ans = Inl (Denied de)"
    by (auto split: sum.splits reserve_error.splits)
  with r fr reserve_denied [OF f] show ?thesis by simp
qed

lemma admitted_ok:
  assumes ok: "ledger_ok used closed m day l" and v: "lg_volume l + asked m est cap \<le> i64_max"
    and d: "day_string now = day"
    and a: "admit ops now r1 r2 m c p md est cap (lg_store l) = (Inr r, s)"
    and fresh: "rsv_id r \<notin> set (rids l)"
  shows "ledger_ok used closed m day
    (l\<lparr>lg_store := s, lg_open := r # lg_open l, lg_volume := lg_volume l + asked m est cap\<rparr>)"
    (is "ledger_ok used closed m day ?l")
proof -
  from admitted_store [OF ok v d a]
  have r: "r = new_reservation m r1 r2 c p md est cap"
    and ad: "admits (used (lg_store l)) (admit_request m day r)"
    and us: "used s = charged (used (lg_store l)) (admit_request m day r)"
    and cl: "closed s = closed (lg_store l)" by auto
  have "0 \<le> lg_volume l"
    using balance_nonneg [OF ok, of "[]"] ledger_okD(7) [OF ok, of "[]"] by linarith
  then have "asked m est cap \<le> i64_max" using v by linarith
  then have na: "reserved_total r = asked m est cap - 1 \<and> reserve_of r = asked m est cap - 1 \<and>
      1 \<le> asked m est cap \<and> 0 \<le> prompt_est r \<and> 0 \<le> completion_cap r"
    unfolding r by (simp add: new_reservation_asked)
  have bal: "used s k = balance day ?l k" for k
    by (simp add: us charged_def op_amount_held balance_open na ledger_okD(1) [OF ok])
  have vol: "balance day ?l k \<le> lg_volume ?l" for k
    using ledger_okD(7) [OF ok, of k] na by (auto simp: balance_open held_def)
  have lim: "used s k \<le> limit + overshoot day l k"
    if "(k, limit) \<in> limited m day" "0 \<le> limit" for k limit
  proof (cases "op_amount (admit_request m day r) k = 0")
    case True
    with ledger_okD(8) [OF ok that] show ?thesis by (simp add: us charged_def)
  next
    case False
    with that(1) have "used (lg_store l) k + op_amount (admit_request m day r) k \<le> limit"
      using ad that(2)
      by (auto simp: limited_def admits_def over_limit_def op_amount_def admit_request_def key_inj
          d [symmetric] split: if_splits)
    with overshoot_nonneg [of day l k] show ?thesis
      unfolding us charged_def by linarith
  qed
  show ?thesis
    using fresh bal vol lim na cl ok unfolding ledger_ok_def by (auto simp: fun_eq_iff)
qed

lemma balance_holds:
  assumes ok: "ledger_ok used closed m day l" and r: "r \<in> set (lg_open l)"
  shows "held day k r (reserve_of r) \<le> balance day l k"
proof -
  have "held day k r (reserve_of r) \<le> (\<Sum>r\<leftarrow>lg_open l. held day k r (reserve_of r))"
    using r ledger_okD(4) [OF ok] by (intro member_le_sum_list) (auto simp: reserve_of_def)
  moreover have "0 \<le> (\<Sum>(r, a)\<leftarrow>lg_spent l. held day k r a)"
    using ledger_okD(6) [OF ok] by (intro sum_list_nonneg) fastforce
  ultimately show ?thesis by (simp add: balance_def)
qed

lemma settled_store:
  assumes ok: "ledger_ok used closed m day l" and v: "lg_volume l + pr + co \<le> i64_max"
    and d: "day_string now = day" and r: "r \<in> set (lg_open l)" and n: "0 \<le> pr" "0 \<le> co"
  shows "used (settle ops now r pr co (lg_store l)) = (\<lambda>k. if k \<in> set (token_buckets day r)
      then used (lg_store l) k + (pr + co - reserve_of r) else used (lg_store l) k) \<and>
    closed (settle ops now r pr co (lg_store l)) = insert (rsv_key (rsv_id r)) (closed (lg_store l))"
proof -
  let ?q = "settle_request now r pr co" and ?s = "lg_store l"
  have held: "k \<in> set (token_buckets day r) \<Longrightarrow> reserve_of r \<le> used ?s k" for k
    using balance_holds [OF ok r, of k] by (simp add: held_def ledger_okD(1) [OF ok])
  have b: "balance day l k \<le> lg_volume l" for k using ledger_okD(7) [OF ok] .
  have pos: "0 \<le> prompt_est r" "0 \<le> completion_cap r" using ledger_okD(4) [OF ok r] by auto
  have res: "reserve_of r \<le> lg_volume l"
    using held [of "c_tokens_of (rsv_client r) day"] b [of "c_tokens_of (rsv_client r) day"]
    by (simp add: token_buckets_def ledger_okD(1) [OF ok])
  have "0 \<le> lg_volume l" using res pos by (simp add: reserve_of_def)
  have rt: "reserved_total r = reserve_of r"
    using pos res v n by (simp add: reserved_total_def reserve_of_def i64_add_exact in_i64_def i64_min_def)
  have delta: "sr_delta ?q = pr + co - reserve_of r"
    using pos res v n \<open>0 \<le> lg_volume l\<close>
    by (simp add: settle_request_def rt i64_add_exact i64_sub_exact in_i64_def i64_min_def
        i64_max_def reserve_of_def)
  have keys: "sr_token_keys ?q = token_buckets day r"
    by (simp add: settle_request_def token_keys_buckets d)
  have fit: "in_i64 (used ?s k + sr_delta ?q)" if "k \<in> set (token_buckets day r)" for k
    using held [OF that] b [of k] v n pos unfolding delta
    by (intro in_i64I) (auto simp: reserve_of_def ledger_okD(1) [OF ok])
  have notin: "rsv_key (rsv_id r) \<notin> closed ?s"
    using ledger_okD(3) [OF ok] r by (force simp: ledger_okD(2) [OF ok] rids_def)
  obtain b s' where st: "st_settle ops ?q ?s = (b, s')" by (cases "st_settle ops ?q ?s")
  have id: "sr_reservation_key ?q = rsv_key (rsv_id r)" by (simp add: settle_request_def)
  have "b = Inr True"
  proof (cases b)
    case (Inl e)
    with st settle_answers show ?thesis by blast
  next
    case (Inr t)
    with st settle_fresh [of ?q ?s] notin id show ?thesis by (cases t) auto
  qed
  have "distinct (sr_token_keys ?q)" by (simp add: settle_request_def)
  from settle_applied [OF this _ st [unfolded \<open>b = Inr True\<close>]] fit
  have c: "closed s' = insert (rsv_key (rsv_id r)) (closed ?s)"
    and u: "used s' = (\<lambda>k. if k \<in> set (token_buckets day r)
        then max 0 (used ?s k + sr_delta ?q) else used ?s k)"
    by (auto simp: id keys)
  have "max 0 (used ?s k + sr_delta ?q) = used ?s k + (pr + co - reserve_of r)"
    if "k \<in> set (token_buckets day r)" for k
    using held [OF that] n by (simp add: delta)
  with u have "used s' = (\<lambda>k. if k \<in> set (token_buckets day r)
      then used ?s k + (pr + co - reserve_of r) else used ?s k)" by (simp add: fun_eq_iff)
  with c st show ?thesis by (simp add: settle_def)
qed

lemma settled_ok:
  assumes ok: "ledger_ok used closed m day l" and v: "lg_volume l + pr + co \<le> i64_max"
    and d: "day_string now = day" and r: "r \<in> set (lg_open l)" and n: "0 \<le> pr" "0 \<le> co"
  shows "ledger_ok used closed m day
    (l\<lparr>lg_store := settle ops now r pr co (lg_store l), lg_open := remove1 r (lg_open l),
       lg_spent := (r, pr + co) # lg_spent l, lg_volume := lg_volume l + pr + co\<rparr>)"
    (is "ledger_ok used closed m day ?l")
proof -
  let ?s = "settle ops now r pr co (lg_store l)"
  from settled_store [OF assms]
  have us: "used ?s = (\<lambda>k. if k \<in> set (token_buckets day r)
      then used (lg_store l) k + (pr + co - reserve_of r) else used (lg_store l) k)"
    and cl: "closed ?s = insert (rsv_key (rsv_id r)) (closed (lg_store l))" by auto
  have pos: "0 \<le> reserve_of r" using ledger_okD(4) [OF ok r] by (simp add: reserve_of_def)
  have bal: "balance day ?l k = (if k \<in> set (token_buckets day r)
      then balance day l k + (pr + co - reserve_of r) else balance day l k)" for k
    using r by (simp add: balance_settle held_def)
  have "k \<in> set (token_buckets day r) \<Longrightarrow> balance day l k + (pr + co - reserve_of r) \<le> lg_volume l + pr + co"
    for k using ledger_okD(7) [OF ok, of k] pos n by linarith
  moreover have "balance day l k \<le> lg_volume l + pr + co" for k
    using ledger_okD(7) [OF ok, of k] n by linarith
  ultimately have vol: "balance day ?l k \<le> lg_volume l + pr + co" for k by (simp add: bal)
  have lim: "used ?s k \<le> limit + overshoot day ?l k"
    if "(k, limit) \<in> limited m day" "0 \<le> limit" for k limit
    using ledger_okD(8) [OF ok that] by (auto simp: us overshoot_settle)
  have dist: "distinct (rids ?l)"
    using distinct_move [OF r, of rsv_id "map (rsv_id \<circ> fst) (lg_spent l)"] ledger_okD(3) [OF ok]
    by (simp add: rids_def)
  show ?thesis
    unfolding ledger_ok_def
  proof (intro conjI)
    show "used (lg_store ?l) = balance day ?l"
      using bal by (simp add: us fun_eq_iff ledger_okD(1) [OF ok])
    show "closed (lg_store ?l) = (\<lambda>(r, a). rsv_key (rsv_id r)) ` set (lg_spent ?l)"
      by (simp add: cl ledger_okD(2) [OF ok])
    show "distinct (rids ?l)" by (rule dist)
    show "\<forall>r\<in>set (lg_open ?l) \<union> fst ` set (lg_spent ?l). 0 \<le> prompt_est r \<and> 0 \<le> completion_cap r"
      using ledger_okD(4,5) [OF ok] r by (auto dest: notin_set_remove1 set_mp [OF set_remove1_subset])
    show "\<forall>(r, a)\<in>set (lg_spent ?l). 0 \<le> a" using ledger_okD(6) [OF ok] n by auto
    show "\<forall>k. balance day ?l k \<le> lg_volume ?l" using vol by simp
    show "\<forall>(k, limit)\<in>limited m day. 0 \<le> limit \<longrightarrow> used (lg_store ?l) k \<le> limit + overshoot day ?l k"
      using lim by auto
  qed
qed

lemma resettled_store:
  assumes ok: "ledger_ok used closed m day l" and r: "r \<in> fst ` set (lg_spent l)"
  shows "used (settle ops now r pr co (lg_store l)) = used (lg_store l) \<and>
    closed (settle ops now r pr co (lg_store l)) = closed (lg_store l)"
proof -
  let ?q = "settle_request now r pr co" and ?s = "lg_store l"
  obtain b s' where st: "st_settle ops ?q ?s = (b, s')" by (cases "st_settle ops ?q ?s")
  have "sr_reservation_key ?q \<in> closed ?s"
    using r by (force simp: settle_request_def ledger_okD(2) [OF ok])
  with settle_closed st have "b \<noteq> Inr True" by blast
  then have "b = Inr False" using st settle_answers by (cases b) auto
  with settle_repeated st show ?thesis by (simp add: settle_def)
qed

lemma same_store_ok:
  assumes "ledger_ok used closed m day l" and "used s = used (lg_store l)"
    and "closed s = closed (lg_store l)" and "lg_volume l \<le> v"
  shows "ledger_ok used closed m day (l\<lparr>lg_store := s, lg_volume := v\<rparr>)"
  using assms unfolding ledger_ok_def by (auto intro: order_trans)

lemma step_ok:
  assumes "ledger_step ops m day l l'" and ok: "ledger_ok used closed m day l"
    and "lg_volume l' \<le> i64_max"
  shows "ledger_ok used closed m day l'"
  using assms(1,3)
proof cases
  case (Admitted now r1 r2 client provider model est cap r s)
  with ok assms(3) show ?thesis by (simp add: admitted_ok)
next
  case (Refused now r1 r2 client provider model est cap e s)
  with refused_store [OF ok] assms(3) have "used s = used (lg_store l) \<and> closed s = closed (lg_store l)"
    by simp
  moreover have "1 \<le> asked m est cap" by (simp add: asked_def)
  ultimately show ?thesis using Refused ok by (simp add: same_store_ok)
next
  case (Settled now r pr co)
  with ok assms(3) show ?thesis by (simp add: settled_ok)
next
  case (Resettled now r pr co)
  with same_store_ok [OF ok] resettled_store [OF ok] show ?thesis
    using same_store_ok [OF ok, of _ "lg_volume l"] by simp
next
  case (Client_checked now client c s)
  with check_client_frame same_store_ok [OF ok, of s "lg_volume l"] show ?thesis by fastforce
next
  case (Provider_checked now provider c s)
  with check_provider_frame same_store_ok [OF ok, of s "lg_volume l"] show ?thesis by fastforce
qed

lemma step_volume: "ledger_step ops m day l l' \<Longrightarrow> lg_volume l \<le> lg_volume l'"
  by (induction rule: ledger_step.induct) (auto simp: asked_def)

lemma start_ok:
  assumes "\<And>k. used s k = 0" and "closed s = {}"
  shows "ledger_ok used closed m day (start_ledger s)"
  using assms unfolding ledger_ok_def by (auto simp: fun_eq_iff)

theorem traffic_ok:
  assumes "traffic ops m day l0 l" and "ledger_ok used closed m day l0" and "lg_volume l \<le> i64_max"
  shows "ledger_ok used closed m day l"
  using assms
proof (induction rule: traffic.induct)
  case (Next l l')
  have "lg_volume l \<le> i64_max" using step_volume [OF Next.hyps(2)] Next.prems(2) by linarith
  with Next step_ok show ?case by blast
qed

end

interpretation mem: reliable_backend in_memory "\<lambda>s. count (counters s)" settled
  by unfold_locales (auto simp: in_memory_def mem_reserve_def mem_settle_def Let_def split: if_splits)

section \<open>Properties\<close>

lemma count_empty [simp]: "count (counters mem_empty) k = 0" "settled mem_empty = {}"
  by (simp_all add: count_def mem_empty_def)

lemma mem_traffic_ok:
  assumes "traffic in_memory m day (start_ledger mem_empty) l" and "lg_volume l \<le> i64_max"
  shows "ledger_ok (\<lambda>s. count (counters s)) settled m day l"
  using assms by (intro mem.traffic_ok [OF assms(1)] mem.start_ok) simp_all

lemma mem_refused: "admit in_memory now r1 r2 m c p md est cap s = (Inl e, s') \<Longrightarrow> s' = s"
  by (auto simp: admit_def ensure_ready_def in_memory_def mem_ping_def mem_reserve_def Let_def
      split: if_splits)

lemma mem_admitted:
  assumes "admit in_memory now r1 r2 m c p md est cap s = (Inr r, s')"
  shows "r = new_reservation m r1 r2 c p md est cap \<and> settled s' = settled s \<and>
    counters s' = bump (m_tokens_of md (day_string now)) (reserved_total r)
      (bump (p_req_of p (day_string now)) 1
        (bump (p_tokens_of p (day_string now)) (reserved_total r)
          (bump (c_req_of c (day_string now)) 1
            (bump (c_tokens_of c (day_string now)) (reserved_total r) (counters s)))))"
  using assms
  by (auto simp: admit_def ensure_ready_def in_memory_def mem_ping_def mem_reserve_def Let_def
      admit_request_def split: if_splits) (simp_all add: new_reservation_def)

lemma overshoot_requests [simp]: "overshoot day l (c_req_of c day') = 0"
  by (simp add: overshoot_def token_buckets_def case_prod_unfold)

text \<open>
  (Ledger) After any interleaving of admissions, refusals, settlements, repeated
  settlements and quota checks of one day, every counter of the in-memory store is exactly
  what its open reservations hold plus what its settled reservations really used.
\<close>

theorem ledger_balances:
  assumes "traffic in_memory m day (start_ledger mem_empty) l" and "lg_volume l \<le> i64_max"
  shows "count (counters (lg_store l)) k = balance day l k"
  using ledger_okD(1) [OF mem_traffic_ok [OF assms]] by simp

lemma quotas_hold:
  assumes "traffic in_memory m day (start_ledger mem_empty) l" and "lg_volume l \<le> i64_max"
  shows "(\<forall>q \<ge> 0. mt_client_requests m = Some q \<longrightarrow>
        count (counters (lg_store l)) (c_req_of c day) \<le> q) \<and>
    (\<forall>q \<ge> 0. mt_client_tokens m = Some q \<longrightarrow>
        count (counters (lg_store l)) (c_tokens_of c day) \<le> q + overshoot day l (c_tokens_of c day)) \<and>
    (\<forall>q \<ge> 0. mt_provider_tokens m = Some q \<longrightarrow>
        count (counters (lg_store l)) (p_tokens_of p day) \<le> q + overshoot day l (p_tokens_of p day))"
proof -
  note lim = ledger_okD(8) [OF mem_traffic_ok [OF assms]]
  have "(c_req_of c day, q) \<in> limited m day" if "mt_client_requests m = Some q" for q
    using that by (auto simp: limited_def limit_arg_def)
  moreover have "(c_tokens_of c day, q) \<in> limited m day" if "mt_client_tokens m = Some q" for q
    using that by (auto simp: limited_def limit_arg_def)
  moreover have "(p_tokens_of p day, q) \<in> limited m day" if "mt_provider_tokens m = Some q" for q
    using that by (auto simp: limited_def limit_arg_def)
  ultimately show ?thesis using lim by fastforce
qed

text \<open>
  (Quota safety) In every such state no client exceeds its request quota, and no client
  or provider exceeds its token quota by more than the amount by which settled reservations
  of that bucket used more than they had reserved.
\<close>

theorem quotas_respected:
  assumes "traffic in_memory m day (start_ledger mem_empty) l" and "lg_volume l \<le> i64_max"
  shows "(\<forall>q \<ge> 0. mt_client_requests m = Some q \<longrightarrow>
        count (counters (lg_store l)) (c_req_of c day) \<le> q) \<and>
    (\<forall>q \<ge> 0. mt_client_tokens m = Some q \<longrightarrow>
        count (counters (lg_store l)) (c_tokens_of c day) \<le> q + overshoot day l (c_tokens_of c day)) \<and>
    (\<forall>q \<ge> 0. mt_provider_tokens m = Some q \<longrightarrow>
        count (counters (lg_store l)) (p_tokens_of p day) \<le> q + overshoot day l (p_tokens_of p day))"
  by (rule quotas_hold [OF assms])

text \<open>
  (Exactly once) Settling a reservation a second time, at any time and with any usage,
  leaves the store as it is.
\<close>

theorem settle_once:
  "settle in_memory now' r p' c' (settle in_memory now r p c s) = settle in_memory now r p c s"
  by (simp add: settle_def in_memory_def mem_settle_def settle_request_def)

text \<open>
  (Denied admission) A failed admission changes nothing in the store, fails for a quota and
  not for the backend, and names a configured quota that the request does not fit.
\<close>

theorem denied_admission_free:
  assumes "admit in_memory now r1 r2 m c p md est cap s = (Inl e, s')"
  shows "s' = s \<and> (let day = day_string now; r = new_reservation m r1 r2 c p md est cap in
    (\<exists>q. mt_client_requests m = Some q \<and> e = QuotaExceeded ''requests'' q \<and>
       q < i64_add (count (counters s) (c_req_of c day)) 1) \<or>
    (\<exists>q. mt_client_tokens m = Some q \<and> e = QuotaExceeded ''tokens'' q \<and>
       q < i64_add (count (counters s) (c_tokens_of c day)) (reserved_total r)) \<or>
    (\<exists>q. mt_provider_tokens m = Some q \<and> e = QuotaExceeded ''provider_tokens'' q \<and>
       q < i64_add (count (counters s) (p_tokens_of p day)) (reserved_total r)))"
  using assms
  by (auto simp: admit_def ensure_ready_def in_memory_def mem_ping_def mem_reserve_def Let_def
      admit_request_def limit_arg_def new_reservation_def split: if_splits option.splits)

text \<open>
  (Isolation) An admission touches only the buckets of its own client, provider and model on
  its own day: the budgets of other clients, of other providers and of other days are as before.
\<close>

theorem admission_isolated:
  assumes "admit in_memory now r1 r2 m c p md est cap s = (a, s')"
  shows "(c' \<noteq> c \<or> day_string t \<noteq> day_string now \<longrightarrow>
      count (counters s') (c_tokens_of c' (day_string t)) = count (counters s) (c_tokens_of c' (day_string t)) \<and>
      count (counters s') (c_req_of c' (day_string t)) = count (counters s) (c_req_of c' (day_string t))) \<and>
    (p' \<noteq> p \<or> day_string t \<noteq> day_string now \<longrightarrow>
      count (counters s') (p_tokens_of p' (day_string t)) = count (counters s) (p_tokens_of p' (day_string t)))"
proof (cases a)
  case (Inl e)
  then have "s' = s" using assms mem_refused by blast
  then show ?thesis by simp
next
  case (Inr r)
  then show ?thesis using mem_admitted [of now r1 r2 m c p md est cap s r s'] assms
    by (simp add: key_inj)
qed

text \<open>
  (Failure mode) Over any store: a fail-open gateway never refuses a client because the
  store is unavailable; a fail-closed one lets a client pass only when the store answered the
  ping and every configured quota was read and found below its limit.
\<close>

theorem client_check_modes:
  "(\<not> mt_fail_closed m \<longrightarrow> fst (check_client ops now m c s) \<noteq> Inl (BackendUnavailable e)) \<and>
   (mt_fail_closed m \<and> fst (check_client ops now m c s) = Inr () \<longrightarrow>
      (\<exists>s1 s2. st_ping ops s = (Inr (), s1) \<and>
        (case mt_client_tokens m of None \<Rightarrow> s2 = s1
         | Some q \<Rightarrow> \<exists>v. v < q \<and> st_get ops (c_tokens_of c (day_string now)) s1 = (Inr v, s2)) \<and>
        (case mt_client_requests m of None \<Rightarrow> True
         | Some q \<Rightarrow> \<exists>v. v < q \<and> fst (st_get ops (c_req_of c (day_string now)) s2) = Inr v)))"
proof (cases "mt_fail_closed m")
  case False
  then show ?thesis
    by (auto simp: check_client_def check_quota_def ensure_ready_def Let_def
        split: option.splits prod.splits sum.splits if_splits)
next
  case True
  have pass: "case q of None \<Rightarrow> x' = x | Some l \<Rightarrow> \<exists>v. v < l \<and> st_get ops k x = (Inr v, x')"
    if "check_quota ops m sc k q x = (None, x')" for sc k q x x'
    using that by (auto simp: check_quota_def split: option.splits prod.splits sum.splits if_splits)
  have stop: "fst (check_quota ops m sc k q x) \<noteq> Some (Inr ())" for sc k q x
    using True by (auto simp: check_quota_def split: option.splits prod.splits sum.splits if_splits)
  obtain pr s0 where 0: "st_ping ops s = (pr, s0)" by fastforce
  obtain q1 s1 where 1: "check_quota ops m ''tokens'' (c_tokens_of c (day_string now))
      (mt_client_tokens m) s0 = (q1, s1)" by fastforce
  obtain q2 s2 where 2: "check_quota ops m ''requests'' (c_req_of c (day_string now))
      (mt_client_requests m) s1 = (q2, s2)" by fastforce
  have "q1 \<noteq> Some (Inr ())" "q2 \<noteq> Some (Inr ())"
    using stop 1 2 by (metis fst_conv)+
  moreover have "fst (check_client ops now m c s) = Inr () \<Longrightarrow> pr = Inr () \<and>
      (q1 = None \<or> q1 = Some (Inr ())) \<and> (q1 = None \<longrightarrow> q2 = None \<or> q2 = Some (Inr ()))"
    using True 0 1 2
    by (auto simp: check_client_def ensure_ready_def Let_def split: option.splits sum.splits)
  ultimately have "fst (check_client ops now m c s) = Inr () \<Longrightarrow> pr = Inr () \<and> q1 = None \<and> q2 = None"
    by blast
  moreover have "q1 = None \<Longrightarrow> case mt_client_tokens m of None \<Rightarrow> s1 = s0
      | Some q \<Rightarrow> \<exists>v. v < q \<and> st_get ops (c_tokens_of c (day_string now)) s0 = (Inr v, s1)"
    using pass 1 by blast
  moreover have "q2 = None \<Longrightarrow> case mt_client_requests m of None \<Rightarrow> True
      | Some q \<Rightarrow> \<exists>v. v < q \<and> fst (st_get ops (c_req_of c (day_string now)) s1) = Inr v"
    using pass [of _ _ _ s1 s2] 2 by (fastforce split: option.splits)
  ultimately show ?thesis using True 0 by blast
qed

lemma wrap64_period: "wrap64 (x + 18446744073709551616) = wrap64 x"
proof -
  have "x + 18446744073709551616 + 9223372036854775808 = x + 9223372036854775808 + 18446744073709551616"
    by simp
  then show ?thesis unfolding wrap64_def by (metis mod_add_self2)
qed

text \<open>
  C39: (Overflow) A request with \<open>max_tokens\<close> equal to \<open>i64::MAX\<close> and at least one estimated
  prompt token is admitted whatever the token quotas are and however far they are used up: the
  reserve wraps to a negative number, and the client's counter is negative afterwards.
\<close>

theorem huge_cap_bypasses_quota:
  assumes "mt_client_requests m = None" and "1 \<le> est" and "est \<le> i64_max"
    and "\<forall>k \<in> {c_tokens_of c (day_string now), p_tokens_of p (day_string now)}.
      0 \<le> count (counters s) k \<and> count (counters s) k + est \<le> i64_max"
  shows "\<exists>r s'. admit in_memory now r1 r2 m c p md est (Some i64_max) s = (Inr r, s') \<and>
    count (counters s') (c_tokens_of c (day_string now)) < 0"
proof -
  have r: "reserved_total (new_reservation m r1 r2 c p md est (Some i64_max)) = est + i64_min - 1"
    using assms(2,3) wrap64_period [of "est + i64_min - 1"] wrap64_id [of "est + i64_min - 1"]
    by (simp add: reserved_total_def new_reservation_def i64_add_def in_i64_def i64_max_def i64_min_def
        add.commute [of est])
  have neg: "i64_add (count (counters s) k) (est + i64_min - 1) < 0"
    if "k \<in> {c_tokens_of c (day_string now), p_tokens_of p (day_string now)}" for k
    using assms(2,3) bspec [OF assms(4) that]
    by (subst i64_add_exact) (auto simp: in_i64_def i64_max_def i64_min_def)
  note n1 = neg [of "c_tokens_of c (day_string now)"] and n2 = neg [of "p_tokens_of p (day_string now)"]
  show ?thesis
    using n1 n2 assms(1)
    by (simp add: admit_def ensure_ready_def in_memory_def mem_ping_def mem_reserve_def Let_def
        admit_request_def r limit_arg_def)
      (simp add: new_reservation_def)
qed

text \<open>
  C40: (Midnight) A reservation that is settled on another day than it was admitted on is never
  given back: the buckets of the admission day keep the whole reserve, and the buckets of the
  settlement day, which never held it, are corrected instead.
\<close>

theorem midnight_strands_reserve:
  assumes "admit in_memory now r1 r2 m c p md est cap s = (Inr r, s')"
    and "day_string later \<noteq> day_string now"
  shows "count (counters (settle in_memory later r pr co s')) (c_tokens_of c (day_string now))
      = i64_add (count (counters s) (c_tokens_of c (day_string now))) (reserved_total r) \<and>
    (rsv_key (rsv_id r) \<notin> settled s \<longrightarrow>
      count (counters (settle in_memory later r pr co s')) (c_tokens_of c (day_string later))
      = max 0 (i64_add (count (counters s) (c_tokens_of c (day_string later)))
          (i64_sub (i64_add pr co) (reserved_total r))))"
proof -
  from mem_admitted [OF assms(1)] have r: "r = new_reservation m r1 r2 c p md est cap"
    and s': "settled s' = settled s"
    and c: "count (counters s') (c_tokens_of c (day_string t)) = (if day_string t = day_string now
      then i64_add (count (counters s) (c_tokens_of c (day_string now))) (reserved_total r)
      else count (counters s) (c_tokens_of c (day_string t)))" for t
    by (simp_all add: key_inj)
  have cl: "rsv_client r = c" by (simp add: r new_reservation_def)
  have ks: "c_tokens_of c (day_string now) \<notin> set (token_keys later r)"
    "c_tokens_of c (day_string later) \<in> set (token_keys later r)"
    using assms(2) by (auto simp: token_keys_def Let_def key_inj cl)
  show ?thesis
    using ks c [of now] c [of later] assms(2) s'
    by (simp add: settle_def in_memory_def mem_settle_def settle_request_def count_settle_keys)
qed

section \<open>Instances\<close>

definition demo_metering :: metering where
  "demo_metering = \<lparr>mt_client_tokens = Some 100, mt_client_requests = Some 2,
     mt_provider_tokens = None, mt_fail_closed = False, mt_completion_reserve = 16\<rparr>"

definition demo_store :: mem_store where
  "demo_store = snd (admit in_memory (f64_of_int 0) 3 4 demo_metering ''a'' ''p'' ''m'' 10 (Some 30) mem_empty)"

definition demo_rsv :: reservation where
  "demo_rsv = new_reservation demo_metering 3 4 ''a'' ''p'' ''m'' 10 (Some 30)"

lemma demo_admits:
  "admit in_memory (f64_of_int 0) 3 4 demo_metering ''a'' ''p'' ''m'' 10 (Some 30) mem_empty
     = (Inr demo_rsv, demo_store)"
proof -
  have "fst (admit in_memory (f64_of_int 0) 3 4 demo_metering ''a'' ''p'' ''m'' 10 (Some 30) mem_empty)
     = Inr demo_rsv"
    by (simp add: admit_def ensure_ready_def demo_metering_def in_memory_def mem_reserve_def
        demo_rsv_def admit_request_def limit_arg_def reserved_total_def new_reservation_def Let_def
        i64_add_exact in_i64_def i64_max_def i64_min_def)
  then show ?thesis by (simp add: demo_store_def prod_eq_iff)
qed

definition demo_ledger :: "mem_store ledger" where
  "demo_ledger = (start_ledger mem_empty)\<lparr>lg_store := settle in_memory (f64_of_int 0) demo_rsv 10 15 demo_store,
     lg_open := [], lg_spent := [(demo_rsv, 25)], lg_volume := 66\<rparr>"

lemma demo_traffic:
  "traffic in_memory demo_metering (day_string (f64_of_int 0)) (start_ledger mem_empty) demo_ledger"
proof -
  let ?day = "day_string (f64_of_int 0)" and ?l0 = "start_ledger mem_empty"
  let ?l1 = "?l0\<lparr>lg_store := demo_store, lg_open := demo_rsv # lg_open ?l0,
      lg_volume := lg_volume ?l0 + asked demo_metering 10 (Some 30)\<rparr>"
  have "ledger_step in_memory demo_metering ?day ?l0 ?l1"
    by (rule Admitted [OF refl]) (simp only: start_ledger_simps, rule demo_admits, simp)
  then have 1: "traffic in_memory demo_metering ?day ?l0 ?l1" using Start Next by blast
  have "ledger_step in_memory demo_metering ?day ?l1 (?l1\<lparr>
      lg_store := settle in_memory (f64_of_int 0) demo_rsv 10 15 (lg_store ?l1),
      lg_open := remove1 demo_rsv (lg_open ?l1), lg_spent := (demo_rsv, 10 + 15) # lg_spent ?l1,
      lg_volume := lg_volume ?l1 + 10 + 15\<rparr>)"
    by (rule Settled) simp_all
  from Next [OF 1 this] show ?thesis by (simp add: demo_ledger_def asked_def)
qed

lemma demo_volume: "lg_volume demo_ledger \<le> i64_max"
  by (simp add: demo_ledger_def i64_max_def)

lemma demo_balance: "balance day demo_ledger (c_tokens_of ''a'' day) = 25"
  by (simp add: balance_def demo_ledger_def held_def token_buckets_def demo_rsv_def new_reservation_def)

lemma demo_overshoot: "overshoot day demo_ledger k = 0"
  by (simp add: overshoot_def demo_ledger_def demo_rsv_def new_reservation_def reserve_of_def)

theorem ledger_balances_witness:
  "count (counters (lg_store demo_ledger)) (c_tokens_of ''a'' (day_string (f64_of_int 0))) = 25"
  using ledger_balances [OF demo_traffic demo_volume] by (simp add: demo_balance)

theorem quotas_respected_witness:
  "count (counters (lg_store demo_ledger)) (c_req_of ''a'' (day_string (f64_of_int 0))) \<le> 2 \<and>
   count (counters (lg_store demo_ledger)) (c_tokens_of ''a'' (day_string (f64_of_int 0))) \<le> 100"
  using quotas_respected [OF demo_traffic demo_volume, of "''a''"]
  by (simp add: demo_overshoot demo_metering_def)

text \<open>A hundred and one tokens for a client that may use a hundred.\<close>

lemma demo_refused:
  "admit in_memory (f64_of_int 0) 3 4 demo_metering ''a'' ''p'' ''m'' 71 (Some 30) mem_empty
     = (Inl (QuotaExceeded ''tokens'' 100), mem_empty)"
  by (simp add: admit_def ensure_ready_def demo_metering_def in_memory_def mem_reserve_def
      admit_request_def limit_arg_def reserved_total_def new_reservation_def Let_def
      i64_add_exact in_i64_def i64_max_def i64_min_def)

theorem denied_admission_free_witness:
  "snd (admit in_memory (f64_of_int 0) 3 4 demo_metering ''a'' ''p'' ''m'' 71 (Some 30) mem_empty) = mem_empty \<and>
   100 < i64_add 0 (reserved_total (new_reservation demo_metering 3 4 ''a'' ''p'' ''m'' 71 (Some 30)))"
  using denied_admission_free [OF demo_refused] unfolding demo_refused
  by (simp add: demo_metering_def Let_def)

theorem admission_isolated_witness:
  "count (counters demo_store) (c_tokens_of ''b'' (day_string (f64_of_int 0))) = 0"
  using admission_isolated [OF demo_admits, of "''b''" "f64_of_int 0"] by simp

theorem client_check_modes_witness:
  "fst (check_client in_memory (f64_of_int 0) demo_metering ''a'' mem_empty) \<noteq> Inl (BackendUnavailable ''x'')"
  using client_check_modes [of demo_metering in_memory "f64_of_int 0" "''a''" mem_empty "''x''"]
  by (simp add: demo_metering_def)

text \<open>No token is left for anybody, and the request is admitted.\<close>

theorem huge_cap_bypasses_quota_witness:
  "\<exists>r s'. admit in_memory (f64_of_int 0) 3 4 (demo_metering\<lparr>mt_client_tokens := Some 0, mt_client_requests := None\<rparr>)
     ''a'' ''p'' ''m'' 1 (Some i64_max) mem_empty = (Inr r, s') \<and>
     count (counters s') (c_tokens_of ''a'' (day_string (f64_of_int 0))) < 0"
  by (rule huge_cap_bypasses_quota) (simp_all add: i64_max_def)

lemma demo_days: "day_string (f64_of_int 86400) \<noteq> day_string (f64_of_int 0)"
  using day_string_eq_iff [of "f64_of_int 86400" "f64_of_int 0"]
  by (simp add: in_bucket_range_def bucket_day_def f64_of_int_simps)

theorem midnight_strands_reserve_witness:
  "count (counters (settle in_memory (f64_of_int 86400) demo_rsv 10 15 demo_store))
     (c_tokens_of ''a'' (day_string (f64_of_int 0))) = 40"
  using midnight_strands_reserve [OF demo_admits demo_days, of 10 15]
  by (simp add: demo_rsv_def reserved_total_def new_reservation_def i64_add_exact in_i64_def
      i64_max_def i64_min_def)

end
