(* ===== verification/Gateway.thy ===== *)
theory Gateway
  imports Chain Chat_Request Audit_Log Router Metering_Ledger
begin

text \<open>
  The handler \<open>chat_completions\<close> of \<open>fwllm-gateway/src/lib.rs\<close> up to the provider call, and its
  non-streaming branch.  The handler is split where it awaits the provider: \<open>chat_begin\<close> runs to
  the call and either answers or leaves the request in flight, \<open>chat_finish\<close> runs from the
  provider's result to the answer; between the two, other requests run.  What the handler reads
  from outside (two clock readings, random words, the second of the audit row and whether SQLite
  stores it) is the record \<open>inputs\<close>.
  \<open>None\<close> is a panic, or an exhausted list of random draws.
\<close>

section \<open>State\<close>

record observation =
  ob_client :: string
  ob_provider :: string
  ob_model :: string
  ob_code :: string
  ob_prompt :: nat
  ob_completion :: nat

record 's gateway =
  gw_env :: env
  gw_chain :: chain
  gw_clients :: token_table
  gw_providers :: "string list"
  gw_metering :: "metering option"
  gw_ops :: "'s store_ops"
  gw_audit_open :: bool
  gw_redact :: "string \<Rightarrow> string \<Rightarrow> string"

record 's gateway_state =
  gs_router :: policy_engine
  gs_store :: 's
  gs_audit :: audit_log
  gs_attacks :: "attack_event list"
  gs_sent :: "(string \<times> json) list"
  gs_observed :: "observation list"

record inputs =
  in_id1 :: nat
  in_id2 :: nat
  in_rsv1 :: nat
  in_rsv2 :: nat
  in_draws :: "(nat \<times> nat) list"
  in_now :: f64
  in_now2 :: f64
  in_secs :: nat
  in_stored :: bool

definition new_request_id :: "inputs \<Rightarrow> string" where
  "new_request_id i = hex16 (in_id1 i) @ hex16 (in_id2 i)"

section \<open>Audit rows, metrics and the request's lifecycle\<close>

definition observe_request ::
  "string \<Rightarrow> string \<Rightarrow> string \<Rightarrow> string \<Rightarrow> nat \<Rightarrow> nat \<Rightarrow> 's gateway_state \<Rightarrow> 's gateway_state" where
  "observe_request client provider model code prompt completion st =
     st\<lparr>gs_observed := gs_observed st @ [\<lparr>ob_client = client, ob_provider = provider, ob_model = model,
       ob_code = code, ob_prompt = prompt, ob_completion = completion\<rparr>]\<rparr>"

definition audit_once ::
  "'s gateway \<Rightarrow> inputs \<Rightarrow> string \<Rightarrow> string \<Rightarrow> string \<Rightarrow> string \<Rightarrow> string \<Rightarrow> string \<Rightarrow> int \<Rightarrow> int \<Rightarrow> string
     \<Rightarrow> string \<Rightarrow> 's gateway_state \<Rightarrow> 's gateway_state" where
  "audit_once gw i request_id client provider model messages code prompt completion response source st =
     (if gw_audit_open gw
      then st\<lparr>gs_audit := audit_write (gw_redact gw) (in_secs i) (in_stored i) client provider model code
             prompt completion messages response source request_id (gs_audit st)\<rparr>
      else st)"

record lifecycle =
  lc_request_id :: string
  lc_client :: string
  lc_provider :: string
  lc_model :: string
  lc_messages :: string

text \<open>\<open>RequestLifecycle::finish\<close> with the shared flag \<open>finalized\<close>: the new flag and state.\<close>

definition lifecycle_finish ::
  "'s gateway \<Rightarrow> inputs \<Rightarrow> lifecycle \<Rightarrow> bool \<Rightarrow> string \<Rightarrow> int \<Rightarrow> int \<Rightarrow> string \<Rightarrow> string \<Rightarrow> 's gateway_state
     \<Rightarrow> bool \<times> 's gateway_state" where
  "lifecycle_finish gw i lc finalized code prompt completion response source st =
     (if finalized then (True, st)
      else (True, audit_once gw i (lc_request_id lc) (lc_client lc) (lc_provider lc) (lc_model lc)
              (lc_messages lc) code prompt completion response source st))"

section \<open>From the request to the provider\<close>

record in_flight =
  fl_body :: chat_request
  fl_concrete :: string
  fl_payload :: json
  fl_dlp :: dlp_state
  fl_prompt_est :: nat
  fl_reservation :: "reservation option"
  fl_life :: lifecycle

text \<open>\<open>Crashed\<close>: a panic of the inspectors unwound the handler, and the connection ends without an answer.\<close>

datatype begun = Reply response | In_flight in_flight | Crashed

definition reply :: "api_error \<Rightarrow> 's gateway_state \<Rightarrow> begun \<times> 's gateway_state" where
  "reply e st = (Reply (into_response e), st)"

text \<open>Routing: a refusal is observed, audited and answered.\<close>

definition route_request ::
  "'s gateway \<Rightarrow> inputs \<Rightarrow> string \<Rightarrow> chat_request \<Rightarrow> 's gateway_state
     \<Rightarrow> (response + string \<times> string) \<times> 's gateway_state" where
  "route_request gw i client body st =
     (let unrouted = env_to_text (gw_env gw) (JArr (map message_json (cr_messages body)));
          (r, router) = resolve (in_now i) (gs_router st) (cr_model body) client;
          st = st\<lparr>gs_router := router\<rparr>
      in case r of
           Inr target \<Rightarrow> (Inr target, st)
         | Inl (Blocked msg) \<Rightarrow>
             (Inl (into_response (err_blocked msg ''blocked_source'')),
              audit_once gw i (new_request_id i) client ''unrouted'' (cr_model body) unrouted ''blocked_source''
                0 0 msg ''upstream''
                (observe_request client ''unrouted'' (cr_model body) ''blocked_source'' 0 0 st))
         | Inl (BudgetExhausted msg) \<Rightarrow>
             (Inl (into_response (err_rate_limited msg)),
              audit_once gw i (new_request_id i) client ''unrouted'' (cr_model body) unrouted ''rate_limited''
                0 0 msg ''upstream''
                (observe_request client ''unrouted'' (cr_model body) ''rate_limited'' 0 0 st)))"

text \<open>Admission: \<open>Inr\<close> holds the reservation, if one was made.\<close>

definition backend_error :: "string \<Rightarrow> api_error" where
  "backend_error msg = \<lparr>ae_status = 503, ae_kind = ''rate_limit_error'',
     ae_message = ''metering backend unavailable: '' @ msg, ae_code = Some ''backend_unavailable'',
     ae_details = None\<rparr>"

definition quota_message :: "string \<Rightarrow> int \<Rightarrow> string" where
  "quota_message scope limit = ''daily '' @ scope @ '' quota exceeded (limit='' @ dec_int limit @ '')''"

definition admit_chat ::
  "'s gateway \<Rightarrow> inputs \<Rightarrow> lifecycle \<Rightarrow> nat \<Rightarrow> int option \<Rightarrow> 's gateway_state
     \<Rightarrow> (response + reservation option) \<times> 's gateway_state" where
  "admit_chat gw i lc est cap st =
     (case gw_metering gw of
        None \<Rightarrow> (Inr None, st)
      | Some m \<Rightarrow>
          (let (r, store) = admit (gw_ops gw) (in_now2 i) (in_rsv1 i) (in_rsv2 i) m (lc_client lc) (lc_provider lc)
                 (lc_model lc) (u64_as_i64 est) cap (gs_store st);
               st = st\<lparr>gs_store := store\<rparr>;
               refuse = (\<lambda>code msg e. (Inl (into_response e),
                 audit_once gw i (lc_request_id lc) (lc_client lc) (lc_provider lc) (lc_model lc) (lc_messages lc)
                   code 0 0 msg ''upstream''
                   (observe_request (lc_client lc) (lc_provider lc) (lc_model lc) code 0 0 st)))
           in case r of
                Inr rsv \<Rightarrow> (Inr (Some rsv), st)
              | Inl (QuotaExceeded scope limit) \<Rightarrow>
                  refuse ''rate_limited'' (quota_message scope limit) (err_rate_limited (quota_message scope limit))
              | Inl (BackendUnavailable msg) \<Rightarrow>
                  if mt_fail_closed m then refuse ''backend_error'' msg (backend_error msg) else (Inr None, st)))"

definition chat_begin ::
  "'s gateway \<Rightarrow> inputs \<Rightarrow> headers \<Rightarrow> string + chat_request \<Rightarrow> 's gateway_state
     \<Rightarrow> (begun \<times> 's gateway_state) option" where
  "chat_begin gw i headers parsed st =
     (case parsed of
        Inl rejection \<Rightarrow> Some (reply (err_invalid_request (''invalid request body: '' @ rejection)) st)
      | Inr body \<Rightarrow>
     (case require_client (gw_clients gw) headers of
        Inl e \<Rightarrow> Some (reply e st)
      | Inr client \<Rightarrow>
     (case route_request gw i client body st of
        (Inl refusal, st) \<Rightarrow> Some (Reply refusal, st)
      | (Inr (provider, concrete), st) \<Rightarrow>
     (case validate_chat body of
        Some e \<Rightarrow> Some (reply e st)
      | None \<Rightarrow>
     if provider \<notin> set (gw_providers gw)
     then Some (reply (err_upstream (''routed provider '' @ quoted provider @ '' not configured''))
            (observe_request client provider (cr_model body) ''upstream_error'' 0 0 st))
     else
     (case process_request (gw_env gw) (gw_chain gw) (Some client) (build_payload concrete body) (in_draws i) of
        None \<Rightarrow>
          if injection_findings (gw_env gw) (gw_chain gw) (build_payload concrete body) = None
          then Some (Crashed, st) else None
      | Some out \<Rightarrow>
          (let payload = out_payload out; st = st\<lparr>gs_attacks := gs_attacks st @ out_events out\<rparr> in
     (case out_error out of
        Some e \<Rightarrow> Some (reply e
          (audit_once gw i (new_request_id i) client provider (cr_model body) (env_to_text (gw_env gw) payload)
             ''blocked'' 0 0 (ae_message e) ''upstream''
             (observe_request client provider (cr_model body) ''blocked'' 0 0 st)))
      | None \<Rightarrow>
          (let est = fst (estimate_usage (request_text body) []);
               lc = \<lparr>lc_request_id = new_request_id i, lc_client = client, lc_provider = provider,
                 lc_model = cr_model body,
                 lc_messages = env_to_text (gw_env gw) (jindex ''messages'' payload)\<rparr>
           in case admit_chat gw i lc est (cr_max_tokens body) st of
                (Inl refusal, st) \<Rightarrow> Some (Reply refusal, st)
              | (Inr rsv, st) \<Rightarrow> Some
                  (In_flight \<lparr>fl_body = body, fl_concrete = concrete, fl_payload = payload, fl_dlp = out_dlp out,
                     fl_prompt_est = est, fl_reservation = rsv, fl_life = lc\<rparr>,
                   st\<lparr>gs_sent := gs_sent st @ [(provider, payload)]\<rparr>)))))))))"

section \<open>From the provider's result to the answer\<close>

datatype provider_error = Http nat string | Connection string

text \<open>Its \<open>Display\<close>, which is also the message of the answer.\<close>

fun provider_error_text :: "provider_error \<Rightarrow> string" where
  "provider_error_text (Http status body) = ''provider returned '' @ dec_nat status @ '': '' @ body"
| "provider_error_text (Connection m) = ''provider connection failed: '' @ m"

text \<open>Settle the reserve, or record the usage where admission made none.\<close>

definition account ::
  "'s gateway \<Rightarrow> f64 \<Rightarrow> lifecycle \<Rightarrow> reservation option \<Rightarrow> int \<Rightarrow> int \<Rightarrow> 's gateway_state \<Rightarrow> 's gateway_state" where
  "account gw now lc rsv prompt completion st =
     (if gw_metering gw = None then st
      else st\<lparr>gs_store := (case rsv of
          Some r \<Rightarrow> settle (gw_ops gw) now r prompt completion (gs_store st)
        | None \<Rightarrow> record_usage (gw_ops gw) now (lc_client lc) (lc_provider lc) (lc_model lc) prompt completion
            (gs_store st))\<rparr>)"

text \<open>Settle only: what the error branches do.\<close>

definition settle_open ::
  "'s gateway \<Rightarrow> f64 \<Rightarrow> reservation option \<Rightarrow> int \<Rightarrow> 's gateway_state \<Rightarrow> 's gateway_state" where
  "settle_open gw now rsv prompt st =
     (case rsv of Some r \<Rightarrow>
        if gw_metering gw = None then st
        else st\<lparr>gs_store := settle (gw_ops gw) now r prompt 0 (gs_store st)\<rparr>
      | None \<Rightarrow> st)"

definition chat_finish ::
  "'s gateway \<Rightarrow> inputs \<Rightarrow> in_flight \<Rightarrow> provider_error + json \<Rightarrow> 's gateway_state
     \<Rightarrow> (response \<times> 's gateway_state) option" where
  "chat_finish gw i fl result st =
     (let lc = fl_life fl in
      case result of
        Inr completion \<Rightarrow>
          (case (if fl_concrete fl \<noteq> cr_model (fl_body fl)
                 then jset ''routed_from'' (JStr (cr_model (fl_body fl))) completion else Some completion) of
             None \<Rightarrow> None
           | Some completion \<Rightarrow>
               (let completion = (case as_str (first_content completion) of
                      Some content \<Rightarrow>
                        put_first_content (JStr (process_response (gw_chain gw) content (fl_dlp fl))) completion
                    | None \<Rightarrow> completion);
                    (prompt, completed, source) = completion_usage JNull completion;
                    st = observe_request (lc_client lc) (lc_provider lc) (lc_model lc) ''ok'' prompt completed st;
                    st = account gw (in_now i) lc (fl_reservation fl) (u64_as_i64 prompt) (u64_as_i64 completed) st;
                    st = st\<lparr>gs_router := record_tokens_today (in_now2 i) (gs_router st) (lc_provider lc)
                           (i64_add (u64_as_i64 prompt) (u64_as_i64 completed))\<rparr>;
                    response_text = (case as_str (first_content completion) of Some s \<Rightarrow> s | None \<Rightarrow> []);
                    (_, st) = lifecycle_finish gw i lc False ''ok'' (u64_as_i64 prompt) (u64_as_i64 completed)
                           response_text source st
                in Some ((200, completion), st)))
      | Inl err \<Rightarrow>
          (let st = settle_open gw (in_now i) (fl_reservation fl) (u64_as_i64 (fl_prompt_est fl)) st;
               st = observe_request (lc_client lc) (lc_provider lc) (lc_model lc) ''upstream_error'' 0 0 st;
               (_, st) = lifecycle_finish gw i lc False ''upstream_error'' 0 0 (provider_error_text err) ''upstream'' st
           in Some (into_response (err_upstream (provider_error_text err)), st)))"

section \<open>Lemmas\<close>

lemma reply_simps [simp]: "reply e st = (Reply (into_response e), st)"
  by (simp add: reply_def)

lemma observe_keeps [simp]:
  "gs_router (observe_request c p m k a b st) = gs_router st" "gs_store (observe_request c p m k a b st) = gs_store st"
  "gs_audit (observe_request c p m k a b st) = gs_audit st" "gs_attacks (observe_request c p m k a b st) = gs_attacks st"
  "gs_sent (observe_request c p m k a b st) = gs_sent st"
  by (simp_all add: observe_request_def)

lemma audit_once_keeps [simp]:
  "gs_router (audit_once gw i q c p m x k a b r s st) = gs_router st"
  "gs_store (audit_once gw i q c p m x k a b r s st) = gs_store st"
  "gs_attacks (audit_once gw i q c p m x k a b r s st) = gs_attacks st"
  "gs_sent (audit_once gw i q c p m x k a b r s st) = gs_sent st"
  "gs_observed (audit_once gw i q c p m x k a b r s st) = gs_observed st"
  by (simp_all add: audit_once_def)

lemma account_keeps [simp]:
  "gs_router (account gw now lc rsv a b st) = gs_router st" "gs_audit (account gw now lc rsv a b st) = gs_audit st"
  "gs_sent (account gw now lc rsv a b st) = gs_sent st" "gs_attacks (account gw now lc rsv a b st) = gs_attacks st"
  by (simp_all add: account_def)

lemma settle_open_keeps [simp]:
  "gs_router (settle_open gw now rsv a st) = gs_router st" "gs_audit (settle_open gw now rsv a st) = gs_audit st"
  "gs_sent (settle_open gw now rsv a st) = gs_sent st" "gs_attacks (settle_open gw now rsv a st) = gs_attacks st"
  by (simp_all add: settle_open_def split: option.split)

lemma status_simps [simp]:
  "fst (into_response e) = ae_status e" "ae_status (err_auth m c) = 401" "ae_status (err_blocked m c) = 403"
  "ae_status (err_rate_limited m) = 429" "ae_status (err_upstream m) = 502" "ae_status (err_invalid_request m) = 422"
  "ae_status (backend_error m) = 503"
  by (simp_all add: into_response_def err_auth_def err_blocked_def err_rate_limited_def err_upstream_def
      err_invalid_request_def backend_error_def Let_def)

lemma require_client_status: "require_client cl h = Inl e \<Longrightarrow> ae_status e = 401"
  by (auto simp: require_client_def Let_def split: if_splits)

lemma validate_status: "validate_chat body = Some e \<Longrightarrow> ae_status e = 422"
  by (auto simp: validate_chat_def split: if_splits)

lemma process_request_status:
  assumes "process_request e c client payload ds = Some r" and "out_error r = Some err"
  shows "ae_status err = 403"
proof -
  obtain fs where fs: "injection_findings e c payload = Some fs"
    using assms(1) by (auto simp: process_request_def split: option.splits)
  obtain x evs where Pair: "injection_step c client fs = (x, evs)" by fastforce
  have "x = Some err \<Longrightarrow> ae_status err = 403"
    using Pair by (auto simp: injection_step_def split: if_splits option.splits)
  then show ?thesis
    using assms Pair fs dlp_messages_error by (fastforce simp: process_request_def dlp_blocked_def split: option.splits)
qed

text \<open>The rows a step adds for a request, when the log is open and SQLite stores them.\<close>

definition audited :: "'s gateway \<Rightarrow> inputs \<Rightarrow> 's gateway_state \<Rightarrow> bool" where
  "audited gw i st \<longleftrightarrow> gw_audit_open gw \<and> al_enabled (gs_audit st) \<and> in_stored i"

definition rows :: "'s gateway_state \<Rightarrow> audit_record list" where
  "rows st = al_rows (gs_audit st)"

lemma rows_audit_once:
  assumes "gw_audit_open gw \<and> al_enabled (gs_audit st) \<and> in_stored i"
  shows "\<exists>r. al_rows (gs_audit (audit_once gw i q c p m x k a b t s st)) = al_rows (gs_audit st) @ [r] \<and>
    ar_request_id r = q \<and> ar_client r = c \<and> ar_provider r = p \<and> ar_model r = m \<and> ar_code r = k \<and>
    ar_prompt_tokens r = a \<and> ar_completion_tokens r = b \<and> ar_usage_source r = s"
  using assms by (simp add: audit_once_def audit_write_def)

section \<open>Properties\<close>

text \<open>The refusals of a routed request that were audited.\<close>

definition audited_refusals :: "(nat \<times> string) set" where
  "audited_refusals = {(403, ''blocked_source''), (403, ''blocked''), (429, ''rate_limited''), (503, ''backend_error'')}"

lemma route_rows:
  assumes "route_request gw i client body st = (Inl (status, answer), st')" and "audited gw i st"
  shows "\<exists>r. rows st' = rows st @ [r] \<and> ar_request_id r = new_request_id i \<and>
    ar_client r = client \<and> (status, ar_code r) \<in> audited_refusals"
proof -
  have s: "\<And>e. into_response e = (status, answer) \<Longrightarrow> status = ae_status e"
    by (metis fst_conv status_simps(1))
  show ?thesis
    using assms
    by (auto simp: route_request_def audit_once_def audit_write_def audited_def rows_def audited_refusals_def Let_def
        dest: s split: prod.splits sum.splits routing_error.splits)
qed

lemma route_keeps:
  assumes "route_request gw i client body st = (r, st')"
  shows "gs_sent st' = gs_sent st \<and> gs_store st' = gs_store st \<and> gs_attacks st' = gs_attacks st \<and>
    gs_router st' = snd (resolve (in_now i) (gs_router st) (cr_model body) client) \<and>
    (\<forall>target. r = Inr target \<longrightarrow> fst (resolve (in_now i) (gs_router st) (cr_model body) client) = Inr target \<and>
       st' = st\<lparr>gs_router := gs_router st'\<rparr>)"
  using assms by (auto simp: route_request_def Let_def split: prod.splits sum.splits routing_error.splits)

lemma admit_chat_rows:
  assumes "admit_chat gw i lc est cap st = (Inl (status, answer), st')" and "audited gw i st"
  shows "\<exists>r. rows st' = rows st @ [r] \<and> ar_request_id r = lc_request_id lc \<and> ar_client r = lc_client lc \<and>
    (status, ar_code r) \<in> audited_refusals"
proof -
  have s: "\<And>e. into_response e = (status, answer) \<Longrightarrow> status = ae_status e"
    by (metis fst_conv status_simps(1))
  show ?thesis
    using assms
    by (auto simp: admit_chat_def audit_once_def audit_write_def audited_def rows_def audited_refusals_def Let_def
        dest: s split: prod.splits sum.splits metering_error.splits option.splits if_splits)
qed

lemma admit_chat_keeps:
  assumes "admit_chat gw i lc est cap st = (r, st')"
  shows "gs_sent st' = gs_sent st \<and> gs_router st' = gs_router st \<and> gs_attacks st' = gs_attacks st \<and>
    (\<forall>rsv. r = Inr rsv \<longrightarrow> st' = st\<lparr>gs_store := gs_store st'\<rparr>)"
  using assms
  by (auto simp: admit_chat_def Let_def split: prod.splits sum.splits metering_error.splits option.splits if_splits)

text \<open>The inspected request, and the life of a request that passed.\<close>

definition chat_life :: "'s gateway \<Rightarrow> inputs \<Rightarrow> string \<Rightarrow> string \<Rightarrow> chat_request \<Rightarrow> json \<Rightarrow> lifecycle" where
  "chat_life gw i client provider body payload = \<lparr>lc_request_id = new_request_id i, lc_client = client,
     lc_provider = provider, lc_model = cr_model body,
     lc_messages = env_to_text (gw_env gw) (jindex ''messages'' payload)\<rparr>"

lemma chat_begin_cases [consumes 1, case_names Unparsed Unknown Unrouted Invalid Unconfigured Panicked Blocked Denied Sent]:
  assumes run: "chat_begin gw i h parsed st = Some (b, st')"
  obtains
    (Unparsed) rejection where "parsed = Inl rejection" "st' = st"
      "b = Reply (into_response (err_invalid_request (''invalid request body: '' @ rejection)))"
  | (Unknown) body e where "parsed = Inr body" "require_client (gw_clients gw) h = Inl e" "st' = st"
      "b = Reply (into_response e)"
  | (Unrouted) body client refusal where "parsed = Inr body" "require_client (gw_clients gw) h = Inr client"
      "route_request gw i client body st = (Inl refusal, st')" "b = Reply refusal"
  | (Invalid) body client target e where "parsed = Inr body" "require_client (gw_clients gw) h = Inr client"
      "route_request gw i client body st = (Inr target, st')" "validate_chat body = Some e"
      "b = Reply (into_response e)"
  | (Unconfigured) body client provider concrete st1 where "parsed = Inr body"
      "require_client (gw_clients gw) h = Inr client"
      "route_request gw i client body st = (Inr (provider, concrete), st1)" "validate_chat body = None"
      "provider \<notin> set (gw_providers gw)"
      "b = Reply (into_response (err_upstream (''routed provider '' @ quoted provider @ '' not configured'')))"
      "st' = observe_request client provider (cr_model body) ''upstream_error'' 0 0 st1"
  | (Panicked) body client provider concrete where "parsed = Inr body"
      "require_client (gw_clients gw) h = Inr client"
      "route_request gw i client body st = (Inr (provider, concrete), st')" "validate_chat body = None"
      "provider \<in> set (gw_providers gw)"
      "injection_findings (gw_env gw) (gw_chain gw) (build_payload concrete body) = None" "b = Crashed"
  | (Blocked) body client provider concrete st1 out e where "parsed = Inr body"
      "require_client (gw_clients gw) h = Inr client"
      "route_request gw i client body st = (Inr (provider, concrete), st1)" "validate_chat body = None"
      "process_request (gw_env gw) (gw_chain gw) (Some client) (build_payload concrete body) (in_draws i) = Some out"
      "out_error out = Some e" "b = Reply (into_response e)"
      "st' = audit_once gw i (new_request_id i) client provider (cr_model body)
         (env_to_text (gw_env gw) (out_payload out)) ''blocked'' 0 0 (ae_message e) ''upstream''
         (observe_request client provider (cr_model body) ''blocked'' 0 0
           (st1\<lparr>gs_attacks := gs_attacks st1 @ out_events out\<rparr>))"
  | (Denied) body client provider concrete st1 out refusal where "parsed = Inr body"
      "require_client (gw_clients gw) h = Inr client"
      "route_request gw i client body st = (Inr (provider, concrete), st1)" "validate_chat body = None"
      "process_request (gw_env gw) (gw_chain gw) (Some client) (build_payload concrete body) (in_draws i) = Some out"
      "out_error out = None" "b = Reply refusal"
      "admit_chat gw i (chat_life gw i client provider body (out_payload out))
         (fst (estimate_usage (request_text body) [])) (cr_max_tokens body)
         (st1\<lparr>gs_attacks := gs_attacks st1 @ out_events out\<rparr>) = (Inl refusal, st')"
  | (Sent) body client provider concrete st1 out rsv st2 where "parsed = Inr body"
      "require_client (gw_clients gw) h = Inr client"
      "route_request gw i client body st = (Inr (provider, concrete), st1)" "validate_chat body = None"
      "provider \<in> set (gw_providers gw)"
      "process_request (gw_env gw) (gw_chain gw) (Some client) (build_payload concrete body) (in_draws i) = Some out"
      "out_error out = None"
      "admit_chat gw i (chat_life gw i client provider body (out_payload out))
         (fst (estimate_usage (request_text body) [])) (cr_max_tokens body)
         (st1\<lparr>gs_attacks := gs_attacks st1 @ out_events out\<rparr>) = (Inr rsv, st2)"
      "b = In_flight \<lparr>fl_body = body, fl_concrete = concrete, fl_payload = out_payload out, fl_dlp = out_dlp out,
         fl_prompt_est = fst (estimate_usage (request_text body) []), fl_reservation = rsv,
         fl_life = chat_life gw i client provider body (out_payload out)\<rparr>"
      "st' = st2\<lparr>gs_sent := gs_sent st2 @ [(provider, out_payload out)]\<rparr>"
proof (cases parsed)
  case (Inl rejection)
  with run Unparsed show ?thesis by (simp add: chat_begin_def)
next
  case p: (Inr body)
  show ?thesis
  proof (cases "require_client (gw_clients gw) h")
    case (Inl e)
    with run p Unknown show ?thesis by (simp add: chat_begin_def)
  next
    case c: (Inr client)
    obtain r st1 where r: "route_request gw i client body st = (r, st1)" by fastforce
    show ?thesis
    proof (cases r)
      case (Inl refusal)
      with run p c r Unrouted show ?thesis by (simp add: chat_begin_def)
    next
      case t: (Inr target)
      obtain provider concrete where tg: "target = (provider, concrete)" by fastforce
      show ?thesis
      proof (cases "validate_chat body")
        case (Some e)
        with run p c r t tg Invalid show ?thesis by (simp add: chat_begin_def)
      next
        case v: None
        show ?thesis
        proof (cases "provider \<in> set (gw_providers gw)")
          case False
          with run p c r t tg v Unconfigured show ?thesis by (simp add: chat_begin_def)
        next
          case known: True
          show ?thesis
          proof (cases "process_request (gw_env gw) (gw_chain gw) (Some client) (build_payload concrete body) (in_draws i)")
            case None
            with run p c r t tg v known Panicked show ?thesis by (simp add: chat_begin_def split: if_splits)
          next
          case out: (Some out)
          show ?thesis
          proof (cases "out_error out")
            case (Some e)
            with run p c r t tg v known out Blocked show ?thesis by (simp add: chat_begin_def)
          next
            case e: None
            obtain a st2 where a: "admit_chat gw i (chat_life gw i client provider body (out_payload out))
                (fst (estimate_usage (request_text body) [])) (cr_max_tokens body)
                (st1\<lparr>gs_attacks := gs_attacks st1 @ out_events out\<rparr>) = (a, st2)" by fastforce
            show ?thesis
            proof (cases a)
              case (Inl refusal)
              then have "b = Reply refusal \<and> st' = st2"
                using run p c r t tg v known out e a by (simp add: chat_begin_def chat_life_def Let_def)
              then show ?thesis
                by (intro Denied [OF p c r [unfolded t tg] v out e]) (use a Inl in simp_all)
            next
              case (Inr rsv)
              with a have a': "admit_chat gw i (chat_life gw i client provider body (out_payload out))
                (fst (estimate_usage (request_text body) [])) (cr_max_tokens body)
                (st1\<lparr>gs_attacks := gs_attacks st1 @ out_events out\<rparr>) = (Inr rsv, st2)" by simp
              from run p c r t tg v known out e a' show ?thesis
                by (intro Sent [OF p c r [unfolded t tg] v known out e a'])
                  (simp_all add: chat_begin_def chat_life_def Let_def)
            qed
          qed
          qed
        qed
      qed
    qed
  qed
qed

lemma rows_kept:
  "rows (st\<lparr>gs_router := a\<rparr>) = rows st" "rows (st\<lparr>gs_attacks := b\<rparr>) = rows st" "rows (st\<lparr>gs_sent := c\<rparr>) = rows st"
  "rows (st\<lparr>gs_store := d\<rparr>) = rows st" "rows (observe_request e f g k p q st) = rows st"
  "audited gw i (st\<lparr>gs_router := a\<rparr>) = audited gw i st" "audited gw i (st\<lparr>gs_attacks := b\<rparr>) = audited gw i st"
  "audited gw i (st\<lparr>gs_sent := c\<rparr>) = audited gw i st" "audited gw i (st\<lparr>gs_store := d\<rparr>) = audited gw i st"
  "audited gw i (observe_request e f g k p q st) = audited gw i st"
  by (simp_all add: rows_def audited_def)

lemma route_target:
  assumes "route_request gw i client body st = (Inr target, st')"
  shows "rows st' = rows st \<and> audited gw i st' = audited gw i st \<and> gs_sent st' = gs_sent st \<and>
    gs_store st' = gs_store st \<and> fst (resolve (in_now i) (gs_router st) (cr_model body) client) = Inr target"
  using assms
  by (auto simp: route_request_def rows_kept Let_def split: prod.splits sum.splits routing_error.splits)

text \<open>
  C8: (Refusals are audited) A request that is refused by routing, by an inspector, by a quota or
  by a fail-closed backend leaves exactly one audit row, under its own request id and with the
  code of its refusal; a request that goes upstream leaves none yet, and one that a panic of the
  inspectors ends leaves none at all.  Three refusals leave no row
  at all: no or an unknown token (401), a body or parameters out of contract (422), and a
  routed provider that is not configured (502).
\<close>

theorem refusals_audited:
  assumes "chat_begin gw i h parsed st = Some (b, st')" and "audited gw i st"
  shows "case b of
      In_flight fl \<Rightarrow> rows st' = rows st
    | Crashed \<Rightarrow> rows st' = rows st
    | Reply answer \<Rightarrow>
        if fst answer \<in> {401, 422, 502} then rows st' = rows st
        else \<exists>r. rows st' = rows st @ [r] \<and> ar_request_id r = new_request_id i \<and>
          require_client (gw_clients gw) h = Inr (ar_client r) \<and> (fst answer, ar_code r) \<in> audited_refusals"
  using assms(1)
proof (cases rule: chat_begin_cases)
  case (Unparsed rejection)
  then show ?thesis by simp
next
  case (Unknown body e)
  then show ?thesis by (simp add: require_client_status)
next
  case (Unrouted body client refusal)
  then obtain status answer where "refusal = (status, answer)" by fastforce
  with Unrouted route_rows [of gw i client body st status answer st'] assms(2) show ?thesis
    by (auto simp: audited_refusals_def)
next
  case (Invalid body client target e)
  with route_target [OF Invalid(3)] show ?thesis by (simp add: validate_status)
next
  case (Unconfigured body client provider concrete st1)
  with route_target [OF Unconfigured(3)] show ?thesis by (simp add: rows_kept)
next
  case (Panicked body client provider concrete)
  with route_target [OF Panicked(3)] show ?thesis by simp
next
  case (Blocked body client provider concrete st1 out e)
  let ?st = "observe_request client provider (cr_model body) ''blocked'' 0 0
    (st1\<lparr>gs_attacks := gs_attacks st1 @ out_events out\<rparr>)"
  have "audited gw i ?st" "rows ?st = rows st"
    using route_target [OF Blocked(3)] assms(2) by (simp_all add: rows_kept)
  then obtain r where "rows st' = rows st @ [r]" "ar_request_id r = new_request_id i" "ar_client r = client"
    "ar_code r = ''blocked''"
    using rows_audit_once [of gw ?st i "new_request_id i" client] Blocked(8) unfolding audited_def rows_def by metis
  with Blocked process_request_status [OF Blocked(5,6)] show ?thesis by (simp add: audited_refusals_def)
next
  case (Denied body client provider concrete st1 out refusal)
  then obtain status answer where "refusal = (status, answer)" by fastforce
  with Denied admit_chat_rows [OF Denied(8) [unfolded this]] route_target [OF Denied(3)] assms(2) show ?thesis
    by (auto simp: audited_refusals_def rows_kept chat_life_def)
next
  case (Sent body client provider concrete st1 out rsv st2)
  have "st2 = st1\<lparr>gs_attacks := gs_attacks st1 @ out_events out, gs_store := gs_store st2\<rparr>"
    using admit_chat_keeps [OF Sent(8)] by simp
  then have "rows st2 = rows st1" by (metis rows_kept(2,4))
  with Sent route_target [OF Sent(3)] show ?thesis by (simp add: rows_kept)
qed

text \<open>The budget of an admitted request: reserved, or not metered, or let pass by fail-open.\<close>

definition budget_reserved ::
  "'s gateway \<Rightarrow> inputs \<Rightarrow> lifecycle \<Rightarrow> nat \<Rightarrow> int option \<Rightarrow> 's \<Rightarrow> reservation option \<Rightarrow> bool" where
  "budget_reserved gw i lc est cap store rsv \<longleftrightarrow>
     (case gw_metering gw of None \<Rightarrow> rsv = None
      | Some m \<Rightarrow>
          (case fst (admit (gw_ops gw) (in_now2 i) (in_rsv1 i) (in_rsv2 i) m (lc_client lc) (lc_provider lc)
                 (lc_model lc) (u64_as_i64 est) cap store) of
             Inr r \<Rightarrow> rsv = Some r
           | Inl (BackendUnavailable msg) \<Rightarrow> \<not> mt_fail_closed m \<and> rsv = None
           | Inl (QuotaExceeded scope limit) \<Rightarrow> False))"

lemma admit_chat_reserved:
  "admit_chat gw i lc est cap st = (Inr rsv, st') \<Longrightarrow> budget_reserved gw i lc est cap (gs_store st) rsv"
  by (auto simp: admit_chat_def budget_reserved_def Let_def
      split: prod.splits sum.splits metering_error.splits option.splits if_splits)

lemma upstream_gates:
  assumes "chat_begin gw i h parsed st = Some (b, st')"
  shows "case b of
      Reply answer \<Rightarrow> gs_sent st' = gs_sent st
    | Crashed \<Rightarrow> gs_sent st' = gs_sent st
    | In_flight fl \<Rightarrow>
        gs_sent st' = gs_sent st @ [(lc_provider (fl_life fl), fl_payload fl)] \<and> parsed = Inr (fl_body fl) \<and>
        require_client (gw_clients gw) h = Inr (lc_client (fl_life fl)) \<and>
        fst (resolve (in_now i) (gs_router st) (cr_model (fl_body fl)) (lc_client (fl_life fl))) =
          Inr (lc_provider (fl_life fl), fl_concrete fl) \<and>
        validate_chat (fl_body fl) = None \<and> lc_provider (fl_life fl) \<in> set (gw_providers gw) \<and>
        (\<exists>out. process_request (gw_env gw) (gw_chain gw) (Some (lc_client (fl_life fl)))
             (build_payload (fl_concrete fl) (fl_body fl)) (in_draws i) = Some out \<and>
           out_error out = None \<and> fl_payload fl = out_payload out \<and> fl_dlp fl = out_dlp out) \<and>
        budget_reserved gw i (fl_life fl) (fl_prompt_est fl) (cr_max_tokens (fl_body fl)) (gs_store st) (fl_reservation fl)"
  using assms
proof (cases rule: chat_begin_cases)
  case (Unrouted body client refusal)
  with route_keeps [OF Unrouted(3)] show ?thesis by simp
next
  case (Invalid body client target e)
  with route_target [OF Invalid(3)] show ?thesis by simp
next
  case (Unconfigured body client provider concrete st1)
  with route_target [OF Unconfigured(3)] show ?thesis by simp
next
  case (Panicked body client provider concrete)
  with route_target [OF Panicked(3)] show ?thesis by simp
next
  case (Blocked body client provider concrete st1 out e)
  with route_target [OF Blocked(3)] show ?thesis by simp
next
  case (Denied body client provider concrete st1 out refusal)
  with admit_chat_keeps [OF Denied(8)] route_target [OF Denied(3)] show ?thesis by simp
next
  case (Sent body client provider concrete st1 out rsv st2)
  have "budget_reserved gw i (chat_life gw i client provider body (out_payload out))
      (fst (estimate_usage (request_text body) [])) (cr_max_tokens body) (gs_store st) rsv"
    using admit_chat_reserved [OF Sent(8)] route_target [OF Sent(3)] by simp
  with Sent route_target [OF Sent(3)] admit_chat_keeps [OF Sent(8)] show ?thesis by (simp add: chat_life_def)
qed simp_all

text \<open>
  C1: (Nothing goes upstream unchecked) The provider is called for a request exactly when it goes
  in flight, and then its client is known, routing chose a configured provider for it, its parameters are in
  contract, the inspectors passed it, and its budget is reserved (unless metering is off, or
  its backend failed under fail-open); what is sent is the payload the inspectors left.
\<close>

theorem upstream_needs_every_gate:
  assumes "chat_begin gw i h parsed st = Some (b, st')"
  shows "case b of
      Reply answer \<Rightarrow> gs_sent st' = gs_sent st
    | Crashed \<Rightarrow> gs_sent st' = gs_sent st
    | In_flight fl \<Rightarrow>
        gs_sent st' = gs_sent st @ [(lc_provider (fl_life fl), fl_payload fl)] \<and> parsed = Inr (fl_body fl) \<and>
        require_client (gw_clients gw) h = Inr (lc_client (fl_life fl)) \<and>
        fst (resolve (in_now i) (gs_router st) (cr_model (fl_body fl)) (lc_client (fl_life fl))) =
          Inr (lc_provider (fl_life fl), fl_concrete fl) \<and>
        validate_chat (fl_body fl) = None \<and> lc_provider (fl_life fl) \<in> set (gw_providers gw) \<and>
        (\<exists>out. process_request (gw_env gw) (gw_chain gw) (Some (lc_client (fl_life fl)))
             (build_payload (fl_concrete fl) (fl_body fl)) (in_draws i) = Some out \<and>
           out_error out = None \<and> fl_payload fl = out_payload out \<and> fl_dlp fl = out_dlp out) \<and>
        budget_reserved gw i (fl_life fl) (fl_prompt_est fl) (cr_max_tokens (fl_body fl)) (gs_store st) (fl_reservation fl)"
  by (rule upstream_gates [OF assms])

lemma lifecycle_finish_first:
  "lifecycle_finish gw i lc False k a b t s st =
     (True, audit_once gw i (lc_request_id lc) (lc_client lc) (lc_provider lc) (lc_model lc) (lc_messages lc) k a b t s st)"
  by (simp add: lifecycle_finish_def)

text \<open>The state after a completion, and after a failed call.\<close>

lemma chat_finish_completion:
  assumes "chat_finish gw i fl (Inr completion) st = Some (resp, st')"
  obtains prompt completed source where
    "completion_usage JNull (snd resp) = (prompt, completed, source)" "fst resp = 200"
    "st' = audit_once gw i (lc_request_id (fl_life fl)) (lc_client (fl_life fl)) (lc_provider (fl_life fl))
       (lc_model (fl_life fl)) (lc_messages (fl_life fl)) ''ok'' (u64_as_i64 prompt) (u64_as_i64 completed)
       (case as_str (first_content (snd resp)) of Some s \<Rightarrow> s | None \<Rightarrow> []) source
       ((account gw (in_now i) (fl_life fl) (fl_reservation fl) (u64_as_i64 prompt) (u64_as_i64 completed)
          (observe_request (lc_client (fl_life fl)) (lc_provider (fl_life fl)) (lc_model (fl_life fl)) ''ok''
             prompt completed st))
        \<lparr>gs_router := record_tokens_today (in_now2 i) (gs_router st) (lc_provider (fl_life fl))
           (i64_add (u64_as_i64 prompt) (u64_as_i64 completed))\<rparr>)"
  using assms by (auto simp: chat_finish_def lifecycle_finish_first Let_def split: option.splits prod.splits)

text \<open>
  C9: (One final row) The answer to a request in flight leaves exactly one audit row, with its request
  id, its client and the provider it was sent to.  A completion is answered 200 with the row "ok",
  and one pair of usage numbers goes to the row, to the metering and to routing's counters; a
  provider failure is answered 502 with the row "upstream_error", and the reserve is settled at
  the prompt estimate.
\<close>

theorem answer_accounted_once:
  assumes "chat_finish gw i fl result st = Some (resp, st')" and "audited gw i st"
  shows "\<exists>r. rows st' = rows st @ [r] \<and> ar_request_id r = lc_request_id (fl_life fl) \<and>
    ar_client r = lc_client (fl_life fl) \<and> ar_provider r = lc_provider (fl_life fl) \<and>
    (case result of
       Inl err \<Rightarrow> fst resp = 502 \<and> ar_code r = ''upstream_error'' \<and> gs_router st' = gs_router st \<and>
         gs_store st' = gs_store (settle_open gw (in_now i) (fl_reservation fl) (u64_as_i64 (fl_prompt_est fl)) st)
     | Inr completion \<Rightarrow> fst resp = 200 \<and> ar_code r = ''ok'' \<and>
         gs_store st' = gs_store (account gw (in_now i) (fl_life fl) (fl_reservation fl) (ar_prompt_tokens r)
           (ar_completion_tokens r) st) \<and>
         gs_router st' = record_tokens_today (in_now2 i) (gs_router st) (lc_provider (fl_life fl))
           (i64_add (ar_prompt_tokens r) (ar_completion_tokens r)) \<and>
         (\<forall>p d. given_usage (jget ''usage'' (snd resp)) = Some (p, d) \<longrightarrow> ar_usage_source r = ''upstream'' \<and>
           ar_prompt_tokens r = u64_as_i64 p \<and> ar_completion_tokens r = u64_as_i64 d))"
proof (cases result)
  case (Inl err)
  let ?st = "observe_request (lc_client (fl_life fl)) (lc_provider (fl_life fl)) (lc_model (fl_life fl)) ''upstream_error'' 0 0
    (settle_open gw (in_now i) (fl_reservation fl) (u64_as_i64 (fl_prompt_est fl)) st)"
  have st': "st' = audit_once gw i (lc_request_id (fl_life fl)) (lc_client (fl_life fl)) (lc_provider (fl_life fl))
      (lc_model (fl_life fl)) (lc_messages (fl_life fl)) ''upstream_error'' 0 0 (provider_error_text err) ''upstream'' ?st"
    and resp: "fst resp = 502"
    using assms(1) Inl by (auto simp: chat_finish_def lifecycle_finish_first Let_def)
  have "gw_audit_open gw \<and> al_enabled (gs_audit ?st) \<and> in_stored i" using assms(2) by (simp add: audited_def)
  from rows_audit_once [OF this] resp Inl show ?thesis unfolding st' by (fastforce simp: rows_def)
next
  case (Inr completion)
  from assms(1) [unfolded this] obtain prompt completed source where
    u: "completion_usage JNull (snd resp) = (prompt, completed, source)" and resp: "fst resp = 200" and
    st': "st' = audit_once gw i (lc_request_id (fl_life fl)) (lc_client (fl_life fl)) (lc_provider (fl_life fl))
       (lc_model (fl_life fl)) (lc_messages (fl_life fl)) ''ok'' (u64_as_i64 prompt) (u64_as_i64 completed)
       (case as_str (first_content (snd resp)) of Some s \<Rightarrow> s | None \<Rightarrow> []) source
       ((account gw (in_now i) (fl_life fl) (fl_reservation fl) (u64_as_i64 prompt) (u64_as_i64 completed)
          (observe_request (lc_client (fl_life fl)) (lc_provider (fl_life fl)) (lc_model (fl_life fl)) ''ok''
             prompt completed st))
        \<lparr>gs_router := record_tokens_today (in_now2 i) (gs_router st) (lc_provider (fl_life fl))
           (i64_add (u64_as_i64 prompt) (u64_as_i64 completed))\<rparr>)" (is "st' = audit_once gw i _ _ _ _ _ _ _ _ _ _ ?st")
    by (rule chat_finish_completion)
  have "gw_audit_open gw \<and> al_enabled (gs_audit ?st) \<and> in_stored i" using assms(2) by (simp add: audited_def)
  from rows_audit_once [OF this] obtain r where r: "rows st' = rows st @ [r]"
    "ar_request_id r = lc_request_id (fl_life fl)" "ar_client r = lc_client (fl_life fl)"
    "ar_provider r = lc_provider (fl_life fl)" "ar_code r = ''ok''" "ar_prompt_tokens r = u64_as_i64 prompt"
    "ar_completion_tokens r = u64_as_i64 completed" "ar_usage_source r = source"
    unfolding st' by (fastforce simp: rows_def)
  have "gs_store st' = gs_store (account gw (in_now i) (fl_life fl) (fl_reservation fl) (ar_prompt_tokens r)
      (ar_completion_tokens r) st)"
    unfolding st' r by (simp add: account_def split: option.split)
  moreover have "gs_router st' = record_tokens_today (in_now2 i) (gs_router st) (lc_provider (fl_life fl))
      (i64_add (ar_prompt_tokens r) (ar_completion_tokens r))"
    unfolding st' r by simp
  moreover have "given_usage (jget ''usage'' (snd resp)) = Some (p, d) \<Longrightarrow> source = ''upstream'' \<and> p = prompt \<and> d = completed" for p d
    using u by (auto simp: completion_usage_def)
  ultimately show ?thesis using r resp Inr by auto
qed

text \<open>
  (The estimate forgets the prompt) When the provider reports no usage, the completion is
  estimated from its text but the prompt always counts as 0 tokens, in the audit row and in the
  metering, however long it was: the payload was moved out before the estimate reads it.
\<close>

theorem estimated_prompt_is_zero:
  assumes "chat_finish gw i fl (Inr completion) st = Some (resp, st')" and "audited gw i st"
    and "given_usage (jget ''usage'' (snd resp)) = None" and "gw_metering gw = Some m"
    and "fl_reservation fl = Some rsv"
  shows "\<exists>r d. rows st' = rows st @ [r] \<and> ar_usage_source r = ''estimated'' \<and> ar_prompt_tokens r = 0 \<and>
    ar_completion_tokens r = u64_as_i64 d \<and> d = chars_count (join [CHR 0x0A] (reply_texts (snd resp))) div 4 \<and>
    gs_store st' = settle (gw_ops gw) (in_now i) rsv 0 (u64_as_i64 d) (gs_store st)"
proof -
  from assms(1) obtain prompt completed source where
    u: "completion_usage JNull (snd resp) = (prompt, completed, source)" and
    st': "st' = audit_once gw i (lc_request_id (fl_life fl)) (lc_client (fl_life fl)) (lc_provider (fl_life fl))
       (lc_model (fl_life fl)) (lc_messages (fl_life fl)) ''ok'' (u64_as_i64 prompt) (u64_as_i64 completed)
       (case as_str (first_content (snd resp)) of Some s \<Rightarrow> s | None \<Rightarrow> []) source
       ((account gw (in_now i) (fl_life fl) (fl_reservation fl) (u64_as_i64 prompt) (u64_as_i64 completed)
          (observe_request (lc_client (fl_life fl)) (lc_provider (fl_life fl)) (lc_model (fl_life fl)) ''ok''
             prompt completed st))
        \<lparr>gs_router := record_tokens_today (in_now2 i) (gs_router st) (lc_provider (fl_life fl))
           (i64_add (u64_as_i64 prompt) (u64_as_i64 completed))\<rparr>)" (is "st' = audit_once gw i _ _ _ _ _ _ _ _ _ _ ?st")
    by (rule chat_finish_completion)
  from u assms(3) have e: "prompt = 0" "completed = chars_count (join [CHR 0x0A] (reply_texts (snd resp))) div 4"
    "source = ''estimated''"
    by (simp_all add: completion_usage_def estimate_usage_def split: prod.splits)
  have z: "u64_as_i64 0 = 0" by (simp add: u64_as_i64_def wrap64_def)
  have "gw_audit_open gw \<and> al_enabled (gs_audit ?st) \<and> in_stored i" using assms(2) by (simp add: audited_def)
  from rows_audit_once [OF this] obtain r where r: "rows st' = rows st @ [r]" "ar_prompt_tokens r = u64_as_i64 prompt"
    "ar_completion_tokens r = u64_as_i64 completed" "ar_usage_source r = source"
    unfolding st' by (fastforce simp: rows_def)
  have "gs_store st' = settle (gw_ops gw) (in_now i) rsv 0 (u64_as_i64 completed) (gs_store st)"
    unfolding st' using assms(4,5) by (simp add: account_def e(1) z)
  with r e z show ?thesis by auto
qed

lemma first_content_routed:
  assumes "jset ''routed_from'' w completion = Some completion'"
  shows "first_content completion' = first_content completion"
  using jset_other [OF assms, of "''choices''"] by (simp add: first_content_def jindex_def)

text \<open>The completion with the routing note, and the one that is answered.\<close>

definition routed_completion :: "in_flight \<Rightarrow> json \<Rightarrow> json option" where
  "routed_completion fl completion =
     (if fl_concrete fl \<noteq> cr_model (fl_body fl)
      then jset ''routed_from'' (JStr (cr_model (fl_body fl))) completion else Some completion)"

lemma chat_finish_reply:
  assumes "chat_finish gw i fl (Inr completion) st = Some (resp, st')"
  obtains c where "routed_completion fl completion = Some c"
    "snd resp = (case as_str (first_content c) of
       Some content \<Rightarrow> put_first_content (JStr (process_response (gw_chain gw) content (fl_dlp fl))) c | None \<Rightarrow> c)"
  using assms unfolding chat_finish_def routed_completion_def [symmetric] Let_def
  by (auto split: option.splits prod.splits)

lemma routed_content: "routed_completion fl completion = Some c \<Longrightarrow> first_content c = first_content completion"
  by (auto simp: routed_completion_def first_content_routed split: if_splits)

text \<open>
  C5: (Masking is invisible to the client) In mask mode, when the provider's reply repeats the masked
  content of one of the messages it was sent, the client is answered with that message's own content, whatever
  other requests ran meanwhile and whether or not the model was renamed.
\<close>

theorem echoed_message_restored:
  assumes "chat_begin gw i h (Inr body) st = Some (In_flight fl, st')" and "j < length (cr_messages body)"
    and "cm_content (cr_messages body ! j) = Some tx"
    and "dlp_mode_of (gw_chain gw) = ''mask''" and "restore_policy (gw_chain gw) = ''restore''"
    and "contents_ok (env_detect (gw_env gw)) (map message_payload (cr_messages body))"
    and "separate (ds_vault (fl_dlp fl))"
    and "\<forall>m \<in> set (cr_messages body). \<forall>tx. cm_content m = Some tx \<longrightarrow>
      (\<forall>t \<in> set (hkeys (ds_vault (fl_dlp fl))). \<not> sublist t tx)"
    and "Some mtx = content_of (payload_messages (fl_payload fl) ! j)"
    and "first_content completion = JStr mtx"
    and "chat_finish gw i' fl (Inr completion) st2 = Some (resp, st3)"
  shows "first_content (snd resp) = JStr tx"
proof -
  from upstream_gates [OF assms(1)] obtain client out where body: "fl_body fl = body" and
    out: "process_request (gw_env gw) (gw_chain gw) (Some client) (build_payload (fl_concrete fl) body) (in_draws i) = Some out"
      "out_error out = None" "fl_payload fl = out_payload out" "fl_dlp fl = out_dlp out"
    by auto
  have pm: "payload_messages (build_payload (fl_concrete fl) body) = map message_payload (cr_messages body)"
    by (simp add: payload_messages_def build_payload_messages)
  have "list_all2 (\<lambda>m m'. (\<forall>k. k \<noteq> ''content'' \<longrightarrow> jget k m' = jget k m) \<and>
      (\<forall>tx. content_of m = Some tx \<longrightarrow>
        (\<exists>tx'. content_of m' = Some tx' \<and> process_response (gw_chain gw) tx' (out_dlp out) = tx)))
    (map message_payload (cr_messages body)) (payload_messages (out_payload out))"
    using request_restored [OF out(1,2) assms(4,5)] assms(6,7,8) out(4) by (simp add: pm)
  from list_all2_nthD [OF this, of j] assms(2,3,9) out(3) have restored:
    "process_response (gw_chain gw) mtx (fl_dlp fl) = tx" by (auto simp: out(4))
  obtain c where c: "routed_completion fl completion = Some c"
    "snd resp = (case as_str (first_content c) of
       Some content \<Rightarrow> put_first_content (JStr (process_response (gw_chain gw) content (fl_dlp fl))) c | None \<Rightarrow> c)"
    using chat_finish_reply [OF assms(11)] by blast
  have content: "as_str (first_content c) = Some mtx" using routed_content [OF c(1)] assms(10) by simp
  with c(2) restored have "snd resp = put_first_content (JStr tx) c" by simp
  with put_first_content_read [OF content] show ?thesis by simp
qed

section \<open>Instances\<close>

definition demo_body :: chat_request where
  "demo_body = demo_chat\<lparr>cr_stream := False, cr_messages := [\<lparr>cm_role = ''user'', cm_content = Some demo_text,
     cm_name = None, cm_tool_calls = None\<rparr>]\<rparr>"

definition demo_gateway :: "mem_store gateway" where
  "demo_gateway = \<lparr>gw_env = demo_env, gw_chain = demo_chain ''off'' ''mask'', gw_clients = [(''k'', ''alice'')],
     gw_providers = [''a'', ''b''], gw_metering = Some demo_metering, gw_ops = in_memory, gw_audit_open = True,
     gw_redact = (\<lambda>_ t. t)\<rparr>"

definition demo_state :: "mem_store gateway_state" where
  "demo_state = \<lparr>gs_router = new_engine demo_routing, gs_store = mem_empty,
     gs_audit = \<lparr>al_enabled = True, al_dlp_redact = False, al_rows = [], al_errors = 0\<rparr>, gs_attacks = [],
     gs_sent = [], gs_observed = []\<rparr>"

definition demo_inputs :: inputs where
  "demo_inputs = \<lparr>in_id1 = 2, in_id2 = 3, in_rsv1 = 4, in_rsv2 = 5, in_draws = demo_draws,
     in_now = f64_of_int 1000, in_now2 = f64_of_int 1000, in_secs = 1000, in_stored = True\<rparr>"

definition demo_headers :: headers where
  "demo_headers n = (if n = ''authorization'' then Some ''Bearer k'' else None)"

lemma demo_client: "require_client (gw_clients demo_gateway) demo_headers = Inr ''alice''"
proof -
  have "bearer_token demo_headers = ''k''"
    by (simp add: demo_headers_def bearer_token_def trim_visible visible_def byte_def)
  then show ?thesis by (simp add: require_client_def demo_gateway_def)
qed

lemma demo_audited: "audited demo_gateway demo_inputs (demo_state\<lparr>gs_store := s, gs_sent := x\<rparr>)"
  by (simp add: audited_def demo_gateway_def demo_inputs_def demo_state_def)

definition demo_message :: json where
  "demo_message = message_payload \<lparr>cm_role = ''user'', cm_content = Some demo_text, cm_name = None, cm_tool_calls = None\<rparr>"

definition demo_masked_message :: json where
  "demo_masked_message = the (jset ''content'' (JStr demo_masked) demo_message)"

lemma demo_inspection:
  "process_request demo_env (demo_chain ''off'' ''mask'') (Some ''alice'') (build_payload ''gpt-b'' demo_body) demo_draws
     = Some \<lparr>out_error = None, out_dlp = \<lparr>ds_vault = demo_vault, ds_scope = demo_scope\<rparr>,
         out_payload = put_messages [demo_masked_message] (build_payload ''gpt-b'' demo_body), out_events = [],
         out_draws = []\<rparr>"
proof -
  have s: "sanitize demo_detect demo_text [] [] demo_draws = Some (demo_masked, demo_vault, demo_scope, [])"
    by (simp only: demo_sanitize demo_masked_def demo_scope_def)
  have ms: "Option.bind (jget ''messages'' (build_payload ''gpt-b'' demo_body)) as_array = Some [demo_message]"
    by (simp add: build_payload_messages demo_body_def demo_message_def)
  have j: "jset ''content'' (JStr demo_masked) demo_message = Some demo_masked_message"
    by (simp add: demo_masked_message_def) (simp add: demo_message_def message_payload_def Let_def)
  have "content_of demo_message = Some demo_text" by (simp add: demo_message_def)
  with s ms j show ?thesis
    by (simp add: process_request_def injection_findings_def injection_step_def demo_env_def)
qed

definition demo_est :: nat where
  "demo_est = fst (estimate_usage (request_text demo_body) [])"

definition demo_flight :: in_flight where
  "demo_flight = \<lparr>fl_body = demo_body, fl_concrete = ''gpt-b'',
     fl_payload = put_messages [demo_masked_message] (build_payload ''gpt-b'' demo_body),
     fl_dlp = \<lparr>ds_vault = demo_vault, ds_scope = demo_scope\<rparr>, fl_prompt_est = demo_est,
     fl_reservation = Some (new_reservation demo_metering 4 5 ''alice'' ''b'' ''gpt'' (u64_as_i64 demo_est) (Some 50)),
     fl_life = chat_life demo_gateway demo_inputs ''alice'' ''b'' demo_body
       (put_messages [demo_masked_message] (build_payload ''gpt-b'' demo_body))\<rparr>"

definition demo_flying :: "mem_store gateway_state" where
  "demo_flying = demo_state\<lparr>gs_store := snd (admit in_memory (f64_of_int 1000) 4 5 demo_metering ''alice'' ''b'' ''gpt''
     (u64_as_i64 demo_est) (Some 50) mem_empty), gs_sent := [(''b'', fl_payload demo_flight)]\<rparr>"

lemma demo_est_value: "demo_est = 6"
  by (simp add: demo_est_def estimate_usage_def request_text_def demo_body_def List.map_filter_simps
      chars_count_def demo_text_def utf8_cont_def byte_def)

lemma demo_chat_admits:
  "fst (admit in_memory (f64_of_int 1000) 4 5 demo_metering ''alice'' ''b'' ''gpt'' (u64_as_i64 demo_est) (Some 50) mem_empty)
     = Inr (new_reservation demo_metering 4 5 ''alice'' ''b'' ''gpt'' (u64_as_i64 demo_est) (Some 50))"
  by (simp add: demo_est_value u64_as_i64_def admit_def ensure_ready_def demo_metering_def in_memory_def mem_reserve_def
      admit_request_def limit_arg_def reserved_total_def new_reservation_def Let_def
      i64_add_exact in_i64_def i64_max_def i64_min_def)

lemma admit_chat_ok:
  assumes "gw_metering gw = Some m"
    and "admit (gw_ops gw) (in_now2 i) (in_rsv1 i) (in_rsv2 i) m (lc_client lc) (lc_provider lc) (lc_model lc)
      (u64_as_i64 est) cap (gs_store st) = (Inr rsv, s)"
  shows "admit_chat gw i lc est cap st = (Inr (Some rsv), st\<lparr>gs_store := s\<rparr>)"
  using assms by (simp add: admit_chat_def)

lemma demo_begins:
  "chat_begin demo_gateway demo_inputs demo_headers (Inr demo_body) demo_state = Some (In_flight demo_flight, demo_flying)"
proof -
  have r: "route_request demo_gateway demo_inputs ''alice'' demo_body demo_state = (Inr (''b'', ''gpt-b''), demo_state)"
    using demo_resolve by (simp add: route_request_def demo_inputs_def demo_state_def demo_body_def demo_chat_def Let_def)
  have v: "validate_chat demo_body = None" by (simp add: validate_chat_def demo_body_def demo_chat_def)
  have a: "admit_chat demo_gateway demo_inputs (fl_life demo_flight) demo_est (Some 50) demo_state =
      (Inr (fl_reservation demo_flight), demo_flying\<lparr>gs_sent := []\<rparr>)"
  proof -
    obtain s where s: "admit in_memory (f64_of_int 1000) 4 5 demo_metering ''alice'' ''b'' ''gpt'' (u64_as_i64 demo_est)
        (Some 50) mem_empty = (Inr (new_reservation demo_metering 4 5 ''alice'' ''b'' ''gpt'' (u64_as_i64 demo_est) (Some 50)), s)"
      using demo_chat_admits by (metis prod.collapse)
    have "admit_chat demo_gateway demo_inputs (fl_life demo_flight) demo_est (Some 50) demo_state =
        (Inr (fl_reservation demo_flight), demo_state\<lparr>gs_store := s\<rparr>)"
      unfolding demo_flight_def in_flight.simps
      by (rule admit_chat_ok [of _ demo_metering])
        (simp_all add: demo_gateway_def demo_inputs_def chat_life_def demo_state_def s demo_body_def demo_chat_def)
    with s show ?thesis by (simp add: demo_flying_def) (simp add: demo_state_def)
  qed
  have fields: "gw_env demo_gateway = demo_env" "gw_chain demo_gateway = demo_chain ''off'' ''mask''"
    "in_draws demo_inputs = demo_draws" "cr_max_tokens demo_body = Some 50" "set (gw_providers demo_gateway) = {''a'', ''b''}"
    "demo_state\<lparr>gs_attacks := gs_attacks demo_state\<rparr> = demo_state"
    by (simp_all add: demo_gateway_def demo_inputs_def demo_body_def demo_chat_def demo_state_def)
  let ?P = "put_messages [demo_masked_message] (build_payload ''gpt-b'' demo_body)"
  have life: "\<lparr>lc_request_id = new_request_id demo_inputs, lc_client = ''alice'', lc_provider = ''b'',
      lc_model = cr_model demo_body, lc_messages = env_to_text demo_env (jindex ''messages'' ?P)\<rparr> = fl_life demo_flight"
    by (simp add: demo_flight_def chat_life_def demo_gateway_def)
  have flight: "\<lparr>fl_body = demo_body, fl_concrete = ''gpt-b'', fl_payload = ?P,
      fl_dlp = \<lparr>ds_vault = demo_vault, ds_scope = demo_scope\<rparr>, fl_prompt_est = demo_est,
      fl_reservation = fl_reservation demo_flight, fl_life = fl_life demo_flight\<rparr> = demo_flight"
    by (simp add: demo_flight_def)
  have st': "demo_flying\<lparr>gs_sent := [(''b'', ?P)]\<rparr> = demo_flying" "gs_sent (demo_flying\<lparr>gs_sent := []\<rparr>) = []"
    by (simp_all add: demo_flying_def demo_flight_def)
  show ?thesis
    unfolding chat_begin_def
    by (simp add: demo_client r v fields demo_inspection demo_est_def [symmetric] life a flight st')
qed

theorem refusals_audited_witness:
  "\<exists>answer st'. chat_begin demo_gateway demo_inputs (\<lambda>_. None) (Inr demo_body) demo_state = Some (Reply answer, st') \<and>
     fst answer = 401 \<and> rows st' = []"
proof -
  have b: "bearer_token (\<lambda>_. None) = []" by (simp add: bearer_token_def)
  have c: "chat_begin demo_gateway demo_inputs (\<lambda>_. None) (Inr demo_body) demo_state =
      Some (Reply (into_response (err_auth ''missing bearer token'' ''missing_api_key'')), demo_state)"
    by (simp add: chat_begin_def require_client_def b)
  have "audited demo_gateway demo_inputs demo_state"
    by (simp add: audited_def demo_gateway_def demo_inputs_def demo_state_def)
  from refusals_audited [OF c this] have "rows demo_state = []" by (simp add: rows_def demo_state_def)
  with c show ?thesis by simp
qed

theorem upstream_needs_every_gate_witness:
  "gs_sent demo_flying = gs_sent demo_state @ [(''b'', fl_payload demo_flight)] \<and>
   require_client (gw_clients demo_gateway) demo_headers = Inr ''alice'' \<and>
   fst (resolve (f64_of_int 1000) (gs_router demo_state) ''gpt'' ''alice'') = Inr (''b'', ''gpt-b'')"
proof -
  have "lc_provider (fl_life demo_flight) = ''b''" "lc_client (fl_life demo_flight) = ''alice''"
    "cr_model (fl_body demo_flight) = ''gpt''" "fl_concrete demo_flight = ''gpt-b''" "in_now demo_inputs = f64_of_int 1000"
    by (simp_all add: demo_flight_def chat_life_def demo_body_def demo_chat_def demo_inputs_def)
  then show ?thesis using upstream_needs_every_gate [OF demo_begins] by simp
qed

text \<open>The provider repeats what it was sent, and gives no usage.\<close>

definition demo_completion :: json where
  "demo_completion = JObj [(''choices'', JArr [JObj [(''message'', JObj [(''content'', JStr demo_masked)])]])]"

definition demo_routed :: json where
  "demo_routed = the (routed_completion demo_flight demo_completion)"

lemma demo_routed_completion:
  "routed_completion demo_flight demo_completion = Some demo_routed" "first_content demo_routed = JStr demo_masked"
proof -
  show r: "routed_completion demo_flight demo_completion = Some demo_routed"
    by (simp add: demo_routed_def) (simp add: routed_completion_def demo_completion_def demo_flight_def
        demo_body_def demo_chat_def)
  show "first_content demo_routed = JStr demo_masked"
    using routed_content [OF r] by (simp add: first_content_def demo_completion_def jindex_def jnth_def)
qed

lemma demo_finishes:
  "\<exists>resp st'. chat_finish demo_gateway demo_inputs demo_flight (Inr demo_completion) demo_flying = Some (resp, st') \<and>
     given_usage (jget ''usage'' (snd resp)) = None"
proof -
  obtain m where m: "demo_routed = JObj m" "map_of m ''usage'' = None"
    using demo_routed_completion(1)
    by (auto simp: routed_completion_def demo_completion_def dest!: sym [of _ demo_routed] split: if_splits)
  have u: "jget ''usage'' demo_routed = None" unfolding m(1) by (simp add: m(2))
  have put: "jget ''usage'' (put_first_content w demo_routed) = None" for w
    using u unfolding m(1) by (auto simp: put_first_content_def split: option.splits json.splits list.splits)
  show ?thesis
    using demo_routed_completion(1) put u unfolding chat_finish_def routed_completion_def [symmetric] Let_def
    by (auto simp: given_usage_def demo_routed_completion(2) split: prod.splits)
qed

theorem answer_accounted_once_witness:
  "\<exists>resp st' r. chat_finish demo_gateway demo_inputs demo_flight (Inr demo_completion) demo_flying = Some (resp, st') \<and>
     rows st' = [r] \<and> ar_code r = ''ok'' \<and> ar_client r = ''alice''"
proof -
  obtain resp st' where f: "chat_finish demo_gateway demo_inputs demo_flight (Inr demo_completion) demo_flying = Some (resp, st')"
    using demo_finishes by blast
  have "audited demo_gateway demo_inputs demo_flying" using demo_audited by (simp add: demo_flying_def)
  moreover have "rows demo_flying = []" by (simp add: rows_def demo_flying_def demo_state_def)
  moreover have "lc_client (fl_life demo_flight) = ''alice''" by (simp add: demo_flight_def chat_life_def)
  ultimately show ?thesis using answer_accounted_once [OF f] f by auto
qed

theorem estimated_prompt_is_zero_witness:
  "\<exists>resp st' r. chat_finish demo_gateway demo_inputs demo_flight (Inr demo_completion) demo_flying = Some (resp, st') \<and>
     rows st' = [r] \<and> ar_prompt_tokens r = 0 \<and> fl_prompt_est demo_flight = 6"
proof -
  obtain resp st' where f: "chat_finish demo_gateway demo_inputs demo_flight (Inr demo_completion) demo_flying = Some (resp, st')"
    and u: "given_usage (jget ''usage'' (snd resp)) = None"
    using demo_finishes by blast
  have "audited demo_gateway demo_inputs demo_flying" using demo_audited by (simp add: demo_flying_def)
  moreover have "rows demo_flying = []" by (simp add: rows_def demo_flying_def demo_state_def)
  moreover have "gw_metering demo_gateway = Some demo_metering" by (simp add: demo_gateway_def)
  moreover obtain rsv where "fl_reservation demo_flight = Some rsv" by (simp add: demo_flight_def)
  moreover have "fl_prompt_est demo_flight = 6" by (simp add: demo_flight_def demo_est_value)
  ultimately show ?thesis using estimated_prompt_is_zero [OF f _ u] f by auto
qed

theorem echoed_message_restored_witness:
  "\<exists>resp st'. chat_finish demo_gateway demo_inputs demo_flight (Inr demo_completion) demo_flying = Some (resp, st') \<and>
     first_content (snd resp) = JStr demo_text"
proof -
  obtain resp st' where f: "chat_finish demo_gateway demo_inputs demo_flight (Inr demo_completion) demo_flying = Some (resp, st')"
    using demo_finishes by blast
  have body: "cr_messages demo_body = [\<lparr>cm_role = ''user'', cm_content = Some demo_text, cm_name = None, cm_tool_calls = None\<rparr>]"
    by (simp add: demo_body_def)
  have "Option.bind (jget ''messages'' (build_payload ''gpt-b'' demo_body)) as_array = Some [demo_message]"
    by (simp add: build_payload_messages body demo_message_def)
  from put_messages_read [OF this] have "payload_messages (fl_payload demo_flight) = [demo_masked_message]"
    by (simp add: demo_flight_def)
  moreover have "jset ''content'' (JStr demo_masked) demo_message = Some demo_masked_message"
    by (simp add: demo_masked_message_def) (simp add: demo_message_def message_payload_def Let_def)
  from jset_Some_jget [OF this] have "content_of demo_masked_message = Some demo_masked" by (simp add: content_of_def)
  moreover have "contents_ok (env_detect (gw_env demo_gateway)) (map message_payload (cr_messages demo_body))"
    using demo_detect_ok by (simp add: contents_ok_def body demo_gateway_def demo_env_def)
  moreover have "first_content demo_completion = JStr demo_masked"
    by (simp add: first_content_def demo_completion_def jindex_def jnth_def)
  ultimately have "first_content (snd resp) = JStr demo_text"
    using demo_separate demo_no_tokens
    by (intro echoed_message_restored [OF demo_begins _ _ _ _ _ _ _ _ _ f, of 0 demo_text demo_masked])
      (simp_all add: body demo_gateway_def demo_flight_def)
  with f show ?thesis by blast
qed

end
