(* ===== verification/Classified_Chat.thy ===== *)
theory Classified_Chat
  imports Classifier Gateway
begin

text \<open>
  The ONNX classifier inside the gateway: the inspector chain built on a loaded classifier, and what a
  panic of the prediction does to the chat request whose message it reads.
\<close>

section \<open>The chain on a loaded classifier\<close>

lemma chain_loaded:
  assumes "chain_from_config (load_prediction lb) cfg = Inr c" and "ml_enabled (inj_ml (insp_injection cfg))"
  shows "\<exists>cl. try_load_classifier lb (ml_model_dir (inj_ml (insp_injection cfg))) = Some cl \<and>
    ch_ml c = Some \<lparr>ml_predict = prediction cl, ml_limit = f32_of (ml_threshold (inj_ml (insp_injection cfg)))\<rparr> \<and> ch_cfg c = cfg"
  using assms by (auto simp: chain_from_config_def load_prediction_def Let_def split: option.splits)

lemma ml_findings_None:
  "ml_findings ml ms = None \<longleftrightarrow> (\<exists>m \<in> set ms. \<exists>tx. content_of m = Some tx \<and> ml_scan ml tx = None)"
  by (induction ms) (auto split: option.split)

lemma ml_scan_None: "ml_scan ml tx = None \<longleftrightarrow> ml_predict ml tx = None"
  by (simp add: ml_scan_def split: option.split prod.split)

lemma prediction_None: "prediction cl tx = None \<longleftrightarrow> (\<exists>p. predict cl tx = Inl p)"
  by (simp add: prediction_def split: sum.split)

text \<open>A request dies in the injection step exactly when the classifier panics on one of its messages.\<close>

lemma injection_findings_None:
  "injection_findings e c payload = None \<longleftrightarrow> injection_mode c \<noteq> ''off'' \<and>
     (\<exists>ml. ch_ml c = Some ml \<and>
        (\<exists>m \<in> set (payload_messages payload). \<exists>tx. content_of m = Some tx \<and> ml_predict ml tx = None))"
  by (auto simp: injection_findings_def all_findings_def ml_findings_None ml_scan_None split: option.splits)

lemma truncated_None: "truncated tx = None \<longleftrightarrow> 4096 < length tx \<and> utf8_cont (tx ! 4096)"
  by (auto simp: truncated_def Let_def min_def)

lemma payload_messages_build:
  "payload_messages (build_payload concrete body) = map message_payload (cr_messages body)"
  by (simp add: payload_messages_def build_payload_messages)

section \<open>Properties\<close>

text \<open>
  C31: (A character across byte 4096 kills the request) With the classifier on, a routed and valid request one
  of whose messages has a character across its byte 4096 crashes in the inspectors, in every mode
  of the injection inspector but "off" and whatever the classifier would say: nobody is answered, and
  but for the router that routed it the state is as before, so there is no audit row, no
  observation, no attack event, no reservation and no provider call.  With the inspector off no
  request crashes.
\<close>

theorem split_character_kills_request:
  assumes "chain_from_config (load_prediction lb) cfg = Inr (gw_chain gw)" and "ml_enabled (inj_ml (insp_injection cfg))"
    and "inj_mode (insp_injection cfg) \<noteq> ''off''"
    and "require_client (gw_clients gw) h = Inr client"
    and "fst (route_request gw i client body st) = Inr (provider, concrete)"
    and "validate_chat body = None" and "provider \<in> set (gw_providers gw)"
    and "m \<in> set (cr_messages body)" and "cm_content m = Some tx" and "4096 < length tx" and "utf8_cont (tx ! 4096)"
  shows "(\<exists>router. chat_begin gw i h (Inr body) st = Some (Crashed, st\<lparr>gs_router := router\<rparr>)) \<and>
    (\<forall>parsed st'. chat_begin (gw\<lparr>gw_chain := without_injection (gw_chain gw)\<rparr>) i h parsed st \<noteq> Some (Crashed, st'))"
proof -
  obtain cl l where cl: "ch_ml (gw_chain gw) = Some \<lparr>ml_predict = prediction cl, ml_limit = l\<rparr>" "ch_cfg (gw_chain gw) = cfg"
    using chain_loaded [OF assms(1,2)] by auto
  have "truncated tx = None" using assms(10,11) by (simp add: truncated_None)
  then have "predict cl tx = Inl Char_boundary" by (simp add: predict_def)
  then have panic: "prediction cl tx = None" by (simp add: prediction_None)
  have "message_payload m \<in> set (payload_messages (build_payload concrete body))"
    using assms(8) by (simp add: payload_messages_build)
  then have f: "injection_findings (gw_env gw) (gw_chain gw) (build_payload concrete body) = None"
    unfolding injection_findings_None using cl panic assms(3,9) by (force simp: injection_mode_def)
  then have "process_request (gw_env gw) (gw_chain gw) (Some client) (build_payload concrete body) (in_draws i) = None"
    by (simp add: process_request_def)
  moreover obtain st1 where r: "route_request gw i client body st = (Inr (provider, concrete), st1)"
    using assms(5) by (metis prod.collapse)
  moreover from r have "st1 = st\<lparr>gs_router := gs_router st1\<rparr>"
    by (auto simp: route_request_def Let_def split: prod.splits sum.splits routing_error.splits)
  ultimately have crash: "\<exists>router. chat_begin gw i h (Inr body) st = Some (Crashed, st\<lparr>gs_router := router\<rparr>)"
    using assms(4,6,7) f by (auto simp: chat_begin_def)
  have "injection_findings (gw_env gw) (without_injection (gw_chain gw)) p \<noteq> None" for p
    by (simp add: injection_findings_def)
  then have "chat_begin (gw\<lparr>gw_chain := without_injection (gw_chain gw)\<rparr>) i h parsed st \<noteq> Some (Crashed, st')" for parsed st'
  proof -
    have False if "chat_begin (gw\<lparr>gw_chain := without_injection (gw_chain gw)\<rparr>) i h parsed st = Some (Crashed, st')"
      using that
    proof (cases rule: chat_begin_cases)
      case (Panicked body client provider concrete)
      then show False by (simp add: injection_findings_def)
    qed simp_all
    then show ?thesis by blast
  qed
  with crash show ?thesis by blast
qed

section \<open>Witness\<close>

definition long_text :: string where
  "long_text = replicate 4095 CHR ''a'' @ [char_of (195 :: nat), char_of (169 :: nat)]"

definition long_body :: chat_request where
  "long_body = demo_body\<lparr>cr_messages := [\<lparr>cm_role = ''user'', cm_content = Some long_text, cm_name = None, cm_tool_calls = None\<rparr>]\<rparr>"

definition demo_libs :: onnx_libs where
  "demo_libs = \<lparr>lb_exists = (\<lambda>p. p \<noteq> ''models/config.json''), lb_read = (\<lambda>p. None), lb_json = (\<lambda>x. None),
     lb_session = (\<lambda>p. Some (\<lambda>ids mask. Some [Some [Fin 0]])), lb_tokenizer = (\<lambda>p. Some (\<lambda>tx. Some (map byte tx))), lb_exp = demo_exp\<rparr>"

definition demo_inspectors :: inspectors_config where
  "demo_inspectors = inspectors_default\<lparr>insp_injection := injection_default\<lparr>inj_mode := ''log'',
     inj_ml := ml_default\<lparr>ml_enabled := True, ml_model_dir := ''models''\<rparr>\<rparr>\<rparr>"

definition classified_chain :: chain where
  "classified_chain = (case chain_from_config (load_prediction demo_libs) demo_inspectors of Inr c \<Rightarrow> c | Inl e \<Rightarrow> demo_chain [] [])"

lemma classified_chain_built: "chain_from_config (load_prediction demo_libs) demo_inspectors = Inr classified_chain"
proof -
  have "try_load_classifier demo_libs ''models'' \<noteq> None"
    by (simp add: try_load_classifier_def from_dir_def read_labels_def demo_libs_def path_join_def)
  then show ?thesis
    by (auto simp: classified_chain_def chain_from_config_def load_prediction_def demo_inspectors_def Let_def split: option.split)
qed

theorem split_character_kills_request_witness:
  "\<exists>router. chat_begin (demo_gateway\<lparr>gw_chain := classified_chain\<rparr>) demo_inputs demo_headers (Inr long_body) demo_state
     = Some (Crashed, demo_state\<lparr>gs_router := router\<rparr>)"
proof -
  have r: "fst (route_request (demo_gateway\<lparr>gw_chain := classified_chain\<rparr>) demo_inputs ''alice'' long_body demo_state) =
      Inr (''b'', ''gpt-b'')"
    using demo_resolve
    by (simp add: route_request_def demo_inputs_def demo_state_def long_body_def demo_body_def demo_chat_def Let_def)
  have v: "validate_chat long_body = None" by (simp add: validate_chat_def long_body_def demo_body_def demo_chat_def)
  have c: "require_client (gw_clients (demo_gateway\<lparr>gw_chain := classified_chain\<rparr>)) demo_headers = Inr ''alice''"
    using demo_client by simp
  have l: "4096 < length long_text" by (simp add: long_text_def)
  have "long_text ! 4096 = char_of (169 :: nat)" by (simp add: long_text_def nth_append)
  then have u: "utf8_cont (long_text ! 4096)" by (simp add: utf8_cont_def byte_def)
  have m: "\<lparr>cm_role = ''user'', cm_content = Some long_text, cm_name = None, cm_tool_calls = None\<rparr> \<in> set (cr_messages long_body)"
    by (simp add: long_body_def)
  have b: "chain_from_config (load_prediction demo_libs) demo_inspectors = Inr (gw_chain (demo_gateway\<lparr>gw_chain := classified_chain\<rparr>))"
    using classified_chain_built by simp
  show ?thesis
    using split_character_kills_request [OF b _ _ c r v _ m _ l u]
    by (simp add: demo_inspectors_def) (simp add: demo_gateway_def)
qed

end
