(* ===== verification/Metrics.thy ===== *)
theory Metrics
  imports Gateway
begin

text \<open>
  \<open>fwllm-gateway/src/metrics.rs\<close>: the counters that the observations of the handlers move, and the handler
  that shows them.  The Prometheus registry is a parameter, the record \<open>prometheus\<close>; what its
  documentation promises (counters add up in 64 bits, label values are kept apart) is the predicate
  \<open>prometheus_ok\<close>.  The duration of a request is not part of an observation; it is an argument.
\<close>

section \<open>The registry\<close>

record 's prometheus =
  pm_inc_by :: "string \<Rightarrow> string list \<Rightarrow> nat \<Rightarrow> 's \<Rightarrow> 's"
  pm_observe :: "string \<Rightarrow> string list \<Rightarrow> f64 \<Rightarrow> 's \<Rightarrow> 's"
  pm_value :: "string \<Rightarrow> string list \<Rightarrow> 's \<Rightarrow> nat"
  pm_samples :: "string \<Rightarrow> string list \<Rightarrow> 's \<Rightarrow> nat"
  pm_encode :: "'s \<Rightarrow> string option"

definition prometheus_ok :: "'s prometheus \<Rightarrow> bool" where
  "prometheus_ok pm \<longleftrightarrow>
     (\<forall>m l n s m' l'. pm_value pm m' l' (pm_inc_by pm m l n s) =
        (if m' = m \<and> l' = l then (pm_value pm m l s + n) mod 2 ^ 64 else pm_value pm m' l' s)) \<and>
     (\<forall>m l x s m' l'. pm_value pm m' l' (pm_observe pm m l x s) = pm_value pm m' l' s) \<and>
     (\<forall>m l n s m' l'. pm_samples pm m' l' (pm_inc_by pm m l n s) = pm_samples pm m' l' s) \<and>
     (\<forall>m l x s m' l'. pm_samples pm m' l' (pm_observe pm m l x s) =
        (if m' = m \<and> l' = l then (pm_samples pm m l s + 1) mod 2 ^ 64 else pm_samples pm m' l' s))"

section \<open>The operations\<close>

definition audit_error :: "'s prometheus \<Rightarrow> 's \<Rightarrow> 's" where
  "audit_error pm = pm_inc_by pm ''fw_audit_errors_total'' [] 1"

definition count_observation :: "'s prometheus \<Rightarrow> f64 \<Rightarrow> observation \<Rightarrow> 's \<Rightarrow> 's" where
  "count_observation pm duration ob s =
     (let labels = [ob_client ob, ob_provider ob, ob_model ob];
          s = pm_inc_by pm ''fw_requests_total'' (labels @ [ob_code ob]) 1 s;
          s = (if 0 < ob_prompt ob then pm_inc_by pm ''fw_tokens_total'' (labels @ [''prompt'']) (ob_prompt ob) s else s);
          s = (if 0 < ob_completion ob
               then pm_inc_by pm ''fw_tokens_total'' (labels @ [''completion'']) (ob_completion ob) s else s)
      in pm_observe pm ''fw_request_duration_seconds'' [ob_provider ob, ob_model ob] duration s)"

definition render_metrics :: "'s prometheus \<Rightarrow> 's \<Rightarrow> string" where
  "render_metrics pm s = (case pm_encode pm s of Some x \<Rightarrow> x | None \<Rightarrow> [])"

definition metrics_handler ::
  "token_table \<Rightarrow> token_table \<Rightarrow> token_table \<Rightarrow> headers \<Rightarrow> 's prometheus \<Rightarrow> 's \<Rightarrow> api_error + string" where
  "metrics_handler metrics_tokens admin_clients clients h pm s =
     (case metrics_guard metrics_tokens admin_clients clients h of
        Some e \<Rightarrow> Inl e
      | None \<Rightarrow> Inr (render_metrics pm s))"

text \<open>The observations of a run of the handlers, one after the other.\<close>

fun count_all :: "'s prometheus \<Rightarrow> (f64 \<times> observation) list \<Rightarrow> 's \<Rightarrow> 's" where
  "count_all pm [] s = s"
| "count_all pm ((d, ob) # obs) s = count_all pm obs (count_observation pm d ob s)"

section \<open>Lemmas\<close>

lemma prometheus_okD:
  assumes "prometheus_ok pm"
  shows "pm_value pm m' l' (pm_inc_by pm m l n s) =
      (if m' = m \<and> l' = l then (pm_value pm m l s + n) mod 2 ^ 64 else pm_value pm m' l' s)"
    and "pm_value pm m' l' (pm_observe pm m l x s) = pm_value pm m' l' s"
    and "pm_samples pm m' l' (pm_inc_by pm m l n s) = pm_samples pm m' l' s"
    and "pm_samples pm m' l' (pm_observe pm m l x s) =
      (if m' = m \<and> l' = l then (pm_samples pm m l s + 1) mod 2 ^ 64 else pm_samples pm m' l' s)"
  using assms unfolding prometheus_ok_def by simp_all

definition request_labels :: "observation \<Rightarrow> string list" where
  "request_labels ob = [ob_client ob, ob_provider ob, ob_model ob, ob_code ob]"

text \<open>The tokens an observation adds to the counter with these labels.\<close>

definition tokens_for :: "string list \<Rightarrow> observation \<Rightarrow> nat" where
  "tokens_for l ob =
     (if l = [ob_client ob, ob_provider ob, ob_model ob, ''prompt''] then ob_prompt ob
      else if l = [ob_client ob, ob_provider ob, ob_model ob, ''completion''] then ob_completion ob else 0)"

lemma count_observation_requests:
  assumes "prometheus_ok pm" and "pm_value pm ''fw_requests_total'' l s < 2 ^ 64"
  shows "pm_value pm ''fw_requests_total'' l (count_observation pm d ob s) =
    (pm_value pm ''fw_requests_total'' l s + (if l = request_labels ob then 1 else 0)) mod 2 ^ 64"
  using assms(2) by (simp add: count_observation_def Let_def prometheus_okD [OF assms(1)] request_labels_def)

lemma count_observation_tokens:
  assumes "prometheus_ok pm" and "pm_value pm ''fw_tokens_total'' l s < 2 ^ 64"
  shows "pm_value pm ''fw_tokens_total'' l (count_observation pm d ob s) =
    (pm_value pm ''fw_tokens_total'' l s + tokens_for l ob) mod 2 ^ 64"
  using assms(2) by (auto simp: count_observation_def Let_def prometheus_okD [OF assms(1)] tokens_for_def)

text \<open>After any sequence of observations.\<close>

lemma count_all_requests:
  assumes "prometheus_ok pm" and "pm_value pm ''fw_requests_total'' l s < 2 ^ 64"
  shows "pm_value pm ''fw_requests_total'' l (count_all pm obs s) =
    (pm_value pm ''fw_requests_total'' l s + length (filter (\<lambda>(d, ob). request_labels ob = l) obs)) mod 2 ^ 64"
  using assms(2)
proof (induction obs arbitrary: s)
  case (Cons a obs)
  obtain d ob where a: "a = (d, ob)" by (cases a)
  show ?case
    using Cons.IH [of "count_observation pm d ob s"] count_observation_requests [OF assms(1) Cons.prems, of d ob]
    by (auto simp: a mod_simps ac_simps)
qed simp

lemma count_all_tokens:
  assumes "prometheus_ok pm" and "pm_value pm ''fw_tokens_total'' l s < 2 ^ 64"
  shows "pm_value pm ''fw_tokens_total'' l (count_all pm obs s) =
    (pm_value pm ''fw_tokens_total'' l s + sum_list (map (\<lambda>(d, ob). tokens_for l ob) obs)) mod 2 ^ 64"
  using assms(2)
proof (induction obs arbitrary: s)
  case (Cons a obs)
  obtain d ob where a: "a = (d, ob)" by (cases a)
  show ?case
    using Cons.IH [of "count_observation pm d ob s"] count_observation_tokens [OF assms(1) Cons.prems, of d ob]
    by (simp add: a mod_simps ac_simps)
qed simp

lemma wrap64_mod: "wrap64 z mod 2 ^ 64 = z mod 2 ^ 64"
proof -
  have "wrap64 z = (z + 2 ^ 63) mod 2 ^ 64 - 2 ^ 63" by (simp add: wrap64_def)
  then show ?thesis by (simp add: mod_simps)
qed

lemma u64_sum_mod:
  "int ((v + n) mod 2 ^ 64) = (int v + u64_as_i64 n) mod 2 ^ 64"
proof -
  have "(int v + u64_as_i64 n) mod 2 ^ 64 = (int v + int n) mod 2 ^ 64"
    unfolding u64_as_i64_def by (rule mod_add_cong [OF refl wrap64_mod])
  then show ?thesis by (simp add: zmod_int)
qed

lemma account_observes [simp]: "gs_observed (account gw now lc rsv a b st) = gs_observed st"
  by (simp add: account_def)

lemma settle_open_observes [simp]: "gs_observed (settle_open gw now rsv a st) = gs_observed st"
  by (simp add: settle_open_def split: option.split)

text \<open>A finished JSON request makes one observation, which names what its row names.\<close>

lemma finish_observes:
  assumes "chat_finish gw i fl result st = Some (resp, st')" and "audited gw i st"
  shows "\<exists>ob r. gs_observed st' = gs_observed st @ [ob] \<and> rows st' = rows st @ [r] \<and>
    request_labels ob = [ar_client r, ar_provider r, ar_model r, ar_code r] \<and>
    u64_as_i64 (ob_prompt ob) = ar_prompt_tokens r \<and> u64_as_i64 (ob_completion ob) = ar_completion_tokens r"
proof (cases result)
  case (Inl err)
  let ?lc = "fl_life fl"
  let ?st = "observe_request (lc_client ?lc) (lc_provider ?lc) (lc_model ?lc) ''upstream_error'' 0 0
    (settle_open gw (in_now i) (fl_reservation fl) (u64_as_i64 (fl_prompt_est fl)) st)"
  have st': "st' = audit_once gw i (lc_request_id ?lc) (lc_client ?lc) (lc_provider ?lc)
      (lc_model ?lc) (lc_messages ?lc) ''upstream_error'' 0 0 (provider_error_text err) ''upstream'' ?st"
    using assms(1) Inl by (auto simp: chat_finish_def lifecycle_finish_first Let_def)
  have "gw_audit_open gw \<and> al_enabled (gs_audit ?st) \<and> in_stored i" using assms(2) by (simp add: audited_def)
  from rows_audit_once [OF this] show ?thesis
    unfolding st' by (fastforce simp: rows_def observe_request_def request_labels_def u64_as_i64_def wrap64_def)
next
  case (Inr completion)
  let ?lc = "fl_life fl"
  from assms(1) [unfolded Inr] obtain prompt completed source where
    st': "st' = audit_once gw i (lc_request_id ?lc) (lc_client ?lc) (lc_provider ?lc)
       (lc_model ?lc) (lc_messages ?lc) ''ok'' (u64_as_i64 prompt) (u64_as_i64 completed)
       (case as_str (first_content (snd resp)) of Some s \<Rightarrow> s | None \<Rightarrow> []) source
       ((account gw (in_now i) ?lc (fl_reservation fl) (u64_as_i64 prompt) (u64_as_i64 completed)
          (observe_request (lc_client ?lc) (lc_provider ?lc) (lc_model ?lc) ''ok'' prompt completed st))
        \<lparr>gs_router := record_tokens_today (in_now2 i) (gs_router st) (lc_provider ?lc)
           (i64_add (u64_as_i64 prompt) (u64_as_i64 completed))\<rparr>)" (is "st' = audit_once gw i _ _ _ _ _ _ _ _ _ _ ?st")
    by (rule chat_finish_completion)
  have "gw_audit_open gw \<and> al_enabled (gs_audit ?st) \<and> in_stored i" using assms(2) by (simp add: audited_def)
  from rows_audit_once [OF this] show ?thesis
    unfolding st' by (fastforce simp: rows_def observe_request_def request_labels_def)
qed

section \<open>Properties\<close>

text \<open>
  C18: (The metrics agree with the audit log) A finished JSON request leaves one row, moves the request
  counter with exactly the labels of that row by one and no other, and the two token counters of
  its client, provider and model by the token numbers of the row, in 64 bits.
\<close>

theorem metrics_match_row:
  assumes "prometheus_ok pm" and "chat_finish gw i fl result st = Some (resp, st')" and "audited gw i st"
    and "\<And>m l. pm_value pm m l s < 2 ^ 64"
    and "s' = count_all pm (map (Pair duration) (drop (length (gs_observed st)) (gs_observed st'))) s"
  shows "\<exists>r. rows st' = rows st @ [r] \<and>
    (\<forall>l. pm_value pm ''fw_requests_total'' l s' =
       (pm_value pm ''fw_requests_total'' l s + (if l = [ar_client r, ar_provider r, ar_model r, ar_code r] then 1 else 0)) mod 2 ^ 64) \<and>
    int (pm_value pm ''fw_tokens_total'' [ar_client r, ar_provider r, ar_model r, ''prompt''] s') =
      (int (pm_value pm ''fw_tokens_total'' [ar_client r, ar_provider r, ar_model r, ''prompt''] s) + ar_prompt_tokens r) mod 2 ^ 64 \<and>
    int (pm_value pm ''fw_tokens_total'' [ar_client r, ar_provider r, ar_model r, ''completion''] s') =
      (int (pm_value pm ''fw_tokens_total'' [ar_client r, ar_provider r, ar_model r, ''completion''] s) + ar_completion_tokens r) mod 2 ^ 64"
proof -
  obtain ob r where o: "gs_observed st' = gs_observed st @ [ob]" "rows st' = rows st @ [r]"
    "request_labels ob = [ar_client r, ar_provider r, ar_model r, ar_code r]"
    "u64_as_i64 (ob_prompt ob) = ar_prompt_tokens r" "u64_as_i64 (ob_completion ob) = ar_completion_tokens r"
    using finish_observes [OF assms(2,3)] by blast
  have s': "s' = count_observation pm duration ob s" by (simp add: assms(5) o(1))
  have tokens: "tokens_for [ar_client r, ar_provider r, ar_model r, ''prompt''] ob = ob_prompt ob"
    "tokens_for [ar_client r, ar_provider r, ar_model r, ''completion''] ob = ob_completion ob"
    using o(3) by (simp_all add: tokens_for_def request_labels_def)
  show ?thesis
    using o(2,4,5) count_observation_requests [OF assms(1,4)] count_observation_tokens [OF assms(1,4)] tokens u64_sum_mod
    by (intro exI [of _ r]) (simp add: s' o(3) flip: o(4,5))
qed

section \<open>Witness\<close>

text \<open>A registry that keeps its counters and sample counts in two functions.\<close>

type_synonym demo_registry = "(string \<Rightarrow> string list \<Rightarrow> nat) \<times> (string \<Rightarrow> string list \<Rightarrow> nat)"

definition bump_at :: "string \<Rightarrow> string list \<Rightarrow> nat \<Rightarrow> (string \<Rightarrow> string list \<Rightarrow> nat) \<Rightarrow> string \<Rightarrow> string list \<Rightarrow> nat" where
  "bump_at m l n f m' l' = (if m' = m \<and> l' = l then (f m l + n) mod 2 ^ 64 else f m' l')"

definition demo_registry :: "demo_registry prometheus" where
  "demo_registry = \<lparr>pm_inc_by = (\<lambda>m l n. apfst (bump_at m l n)), pm_observe = (\<lambda>m l x. apsnd (bump_at m l 1)),
     pm_value = (\<lambda>m l s. fst s m l), pm_samples = (\<lambda>m l s. snd s m l), pm_encode = (\<lambda>s. None)\<rparr>"

lemma demo_registry_ok: "prometheus_ok demo_registry"
  by (simp add: prometheus_ok_def demo_registry_def bump_at_def)

theorem metrics_match_row_witness:
  "\<exists>resp st' r. chat_finish demo_gateway demo_inputs demo_flight (Inr demo_completion) demo_flying = Some (resp, st') \<and>
     rows st' = rows demo_flying @ [r] \<and>
     pm_value demo_registry ''fw_requests_total'' [ar_client r, ar_provider r, ar_model r, ar_code r]
       (count_all demo_registry (map (Pair (f64_of_int 1)) (drop (length (gs_observed demo_flying)) (gs_observed st')))
         (\<lambda>m l. 0, \<lambda>m l. 0)) = 1"
proof -
  obtain resp st' where f: "chat_finish demo_gateway demo_inputs demo_flight (Inr demo_completion) demo_flying = Some (resp, st')"
    using demo_finishes by blast
  have "audited demo_gateway demo_inputs demo_flying" using demo_audited by (simp add: demo_flying_def)
  moreover have "pm_value demo_registry m l (\<lambda>m l. 0, \<lambda>m l. 0) = 0" for m l by (simp add: demo_registry_def)
  ultimately show ?thesis
    using metrics_match_row [OF demo_registry_ok f _ _ refl, of "(\<lambda>m l. 0, \<lambda>m l. 0)" "f64_of_int 1"] f by fastforce
qed

section \<open>Labels\<close>

text \<open>The collectors that are registered; a call with another number of label values would panic.\<close>

definition collectors :: "(string \<times> string list) list" where
  "collectors =
     [(''fw_requests_total'', [''client'', ''provider'', ''model'', ''code'']),
      (''fw_tokens_total'', [''client'', ''provider'', ''model'', ''direction'']),
      (''fw_request_duration_seconds'', [''provider'', ''model'']),
      (''fw_audit_errors_total'', [])]"

definition labels_fit :: "string \<times> string list \<Rightarrow> bool" where
  "labels_fit call = (case map_of collectors (fst call) of Some names \<Rightarrow> length names = length (snd call) | None \<Rightarrow> False)"

text \<open>A registry that only writes down its calls.\<close>

definition call_trace :: "(string \<times> string list) list prometheus" where
  "call_trace = \<lparr>pm_inc_by = (\<lambda>m l n s. s @ [(m, l)]), pm_observe = (\<lambda>m l x s. s @ [(m, l)]),
     pm_value = (\<lambda>m l s. 0), pm_samples = (\<lambda>m l s. 0), pm_encode = (\<lambda>s. None)\<rparr>"

lemma calls_fit:
  "list_all labels_fit (count_observation call_trace d ob [])" "list_all labels_fit (audit_error call_trace [])"
  by (simp_all add: count_observation_def audit_error_def call_trace_def labels_fit_def collectors_def Let_def)

end
