(* ===== verification/Streaming.thy ===== *)
theory Streaming
  imports Gateway
begin

text \<open>
  \<open>stream_response\<close> of \<open>fwllm-gateway/src/lib.rs\<close> with \<open>StreamAccountant\<close> and its \<open>Drop\<close>.

  The cells that the closures of the stream share are the record \<open>cells\<close>.  The response body is
  polled by the server: one poll is one step, and so is each side of an \<open>await\<close> of the terminal
  future and of the tasks that \<open>Drop\<close> spawns; the client may disconnect between any two steps,
  which drops the body.  What the steps do to the world is the trace of \<open>effect\<close>s, in order;
  \<open>apply_effect\<close> is their meaning on the gateway's state.
\<close>

section \<open>Chunks\<close>

record cells =
  sc_restore :: stream_restore
  sc_completion :: string
  sc_usage :: "json option"
  sc_error :: bool

text \<open>One choice of a chunk: a delta with text content is restored through the session.\<close>

definition delta_content :: "json \<Rightarrow> string option" where
  "delta_content choice = Option.bind (Option.bind (jget ''delta'' choice) (jget ''content'')) as_str"

definition put_delta_content :: "string \<Rightarrow> json \<Rightarrow> json" where
  "put_delta_content tx choice =
     (case choice of
        JObj ch \<Rightarrow>
          (case map_of ch ''delta'' of
             Some (JObj d) \<Rightarrow> JObj (obj_insert ''delta'' (JObj (obj_insert ''content'' (JStr tx) d)) ch)
           | _ \<Rightarrow> choice)
      | _ \<Rightarrow> choice)"

definition map_choice :: "json \<Rightarrow> cells \<Rightarrow> json \<times> cells" where
  "map_choice choice sc =
     (case delta_content choice of
        None \<Rightarrow> (choice, sc)
      | Some delta \<Rightarrow>
          (let (restored, session) = feed delta (sc_restore sc)
           in (put_delta_content restored choice,
               sc\<lparr>sc_restore := session, sc_completion := sc_completion sc @ restored\<rparr>)))"

fun map_choices :: "json list \<Rightarrow> cells \<Rightarrow> json list \<times> cells" where
  "map_choices [] sc = ([], sc)"
| "map_choices (c # cs) sc =
     (let (c', sc1) = map_choice c sc; (cs', sc2) = map_choices cs sc1 in (c' # cs', sc2))"

definition chunk_choices :: "json \<Rightarrow> json list option" where
  "chunk_choices chunk = Option.bind (jget ''choices'' chunk) as_array"

definition put_choices :: "json list \<Rightarrow> json \<Rightarrow> json" where
  "put_choices cs chunk = (case chunk of JObj m \<Rightarrow> JObj (obj_insert ''choices'' (JArr cs) m) | _ \<Rightarrow> chunk)"

definition note_usage :: "json \<Rightarrow> cells \<Rightarrow> cells" where
  "note_usage chunk sc =
     (if given_usage (jget ''usage'' chunk) \<noteq> None then sc\<lparr>sc_usage := jget ''usage'' chunk\<rparr> else sc)"

definition map_chunk :: "json \<Rightarrow> cells \<Rightarrow> json \<times> cells" where
  "map_chunk chunk sc =
     (let sc = note_usage chunk sc in
      case chunk_choices chunk of
        None \<Rightarrow> (chunk, sc)
      | Some cs \<Rightarrow> (let (cs', sc') = map_choices cs sc in (put_choices cs' chunk, sc')))"

definition error_frame :: "provider_error \<Rightarrow> json" where
  "error_frame err = JObj [(''error'', JObj [(''message'', JStr (provider_error_text err)), (''type'', JStr ''upstream_error'')])]"

definition flush_frame :: "string \<Rightarrow> json" where
  "flush_frame tx = JObj [(''choices'', JArr [JObj [(''delta'', JObj [(''content'', JStr tx)]), (''index'', JPos 0)]]),
     (''object'', JStr ''chat.completion.chunk'')]"

section \<open>The accountant\<close>

definition usage_numbers :: "string \<Rightarrow> cells \<Rightarrow> nat \<times> nat \<times> string" where
  "usage_numbers prompt sc =
     (case given_usage (sc_usage sc) of
        Some (p, d) \<Rightarrow> (p, d, ''upstream'')
      | None \<Rightarrow> (let (p, d) = estimate_usage prompt (sc_completion sc) in (p, d, ''estimated'')))"

datatype effect =
    Emit json | Done
  | Metered int int
  | Routed int
  | Audited string int int string string
  | Observed string nat nat

definition apply_effect ::
  "'s gateway \<Rightarrow> inputs \<Rightarrow> in_flight \<Rightarrow> effect \<Rightarrow> 's gateway_state \<Rightarrow> 's gateway_state" where
  "apply_effect gw i fl eff st =
     (let lc = fl_life fl in
      case eff of
        Emit frame \<Rightarrow> st
      | Done \<Rightarrow> st
      | Metered p d \<Rightarrow> account gw (in_now i) lc (fl_reservation fl) p d st
      | Routed n \<Rightarrow> st\<lparr>gs_router := record_tokens_today (in_now2 i) (gs_router st) (lc_provider lc) n\<rparr>
      | Audited code p d tx source \<Rightarrow>
          audit_once gw i (lc_request_id lc) (lc_client lc) (lc_provider lc) (lc_model lc) (lc_messages lc)
            code p d tx source st
      | Observed code p d \<Rightarrow> observe_request (lc_client lc) (lc_provider lc) (lc_model lc) code p d st)"

section \<open>The run of a response body\<close>

text \<open>
  Polling the provider, flushing, then the terminal future: before its first poll, after the swap
  of \<open>recorded\<close> (with the flag whether it has to meter), and after metering.
\<close>

datatype phase =
    Chunks "(provider_error + json) list"
  | Flush
  | Terminal
  | Swapped nat nat string bool
  | Settled_up nat nat string
  | Served
  | Dropped

datatype stage = Spawned | Metering bool | Finishing

record drop_task =
  dt_prompt :: nat
  dt_completion :: nat
  dt_source :: string
  dt_code :: string
  dt_text :: string
  dt_stage :: stage

record stream_run =
  sn_prompt :: string
  sn_phase :: phase
  sn_cells :: cells
  sn_recorded :: bool
  sn_finalized :: bool
  sn_tasks :: "drop_task list"
  sn_trace :: "effect list"
  sn_lost :: bool

definition emit :: "effect list \<Rightarrow> stream_run \<Rightarrow> stream_run" where
  "emit es s = s\<lparr>sn_trace := sn_trace s @ es\<rparr>"

definition open_stream :: "chain \<Rightarrow> in_flight \<Rightarrow> (provider_error + json) list \<Rightarrow> stream_run" where
  "open_stream c fl items =
     \<lparr>sn_prompt = prompt_text (fl_payload fl), sn_phase = Chunks items,
      sn_cells = \<lparr>sc_restore = stream_restore_session c (fl_dlp fl), sc_completion = [], sc_usage = None,
        sc_error = False\<rparr>,
      sn_recorded = False, sn_finalized = False, sn_tasks = [], sn_trace = [], sn_lost = False\<rparr>"

text \<open>\<open>RequestLifecycle::finish\<close>: the first to come writes the row.\<close>

definition finish :: "string \<Rightarrow> nat \<Rightarrow> nat \<Rightarrow> string \<Rightarrow> string \<Rightarrow> stream_run \<Rightarrow> stream_run" where
  "finish code p d tx source s =
     (if sn_finalized s then s
      else emit [Audited code (u64_as_i64 p) (u64_as_i64 d) tx source] (s\<lparr>sn_finalized := True\<rparr>))"

definition final_code :: "cells \<Rightarrow> string \<Rightarrow> string" where
  "final_code sc code = (if sc_error sc then ''upstream_error'' else code)"

text \<open>\<open>Drop\<close> of an accountant: the numbers are read now, the task runs later.\<close>

definition spawn_drop :: "stream_run \<Rightarrow> stream_run" where
  "spawn_drop s =
     (let (p, d, source) = usage_numbers (sn_prompt s) (sn_cells s)
      in s\<lparr>sn_tasks := sn_tasks s @ [\<lparr>dt_prompt = p, dt_completion = d, dt_source = source,
           dt_code = final_code (sn_cells s) ''cancelled'', dt_text = sc_completion (sn_cells s),
           dt_stage = Spawned\<rparr>]\<rparr>)"

text \<open>One poll of the body.\<close>

fun poll :: "stream_run \<Rightarrow> phase \<Rightarrow> stream_run" where
  "poll s (Chunks []) = s\<lparr>sn_phase := Flush\<rparr>"
| "poll s (Chunks (Inl err # rest)) =
     emit [Observed ''upstream_error'' 0 0, Emit (error_frame err)]
       (s\<lparr>sn_phase := Chunks rest, sn_cells := (sn_cells s)\<lparr>sc_error := True\<rparr>\<rparr>)"
| "poll s (Chunks (Inr chunk # rest)) =
     (let (frame, sc) = map_chunk chunk (sn_cells s)
      in emit [Emit frame] (s\<lparr>sn_phase := Chunks rest, sn_cells := sc\<rparr>))"
| "poll s Flush =
     (let (tx, session) = flush (sc_restore (sn_cells s));
          s = s\<lparr>sn_phase := Terminal, sn_cells := (sn_cells s)\<lparr>sc_restore := session,
                sc_completion := sc_completion (sn_cells s) @ tx\<rparr>\<rparr>
      in if tx = [] then s else emit [Emit (flush_frame tx)] s)"
| "poll s Terminal =
     (let (p, d, source) = usage_numbers (sn_prompt s) (sn_cells s)
      in s\<lparr>sn_phase := Swapped p d source (\<not> sn_recorded s), sn_recorded := True\<rparr>)"
| "poll s (Swapped p d source won) =
     (let s = s\<lparr>sn_phase := Settled_up p d source\<rparr>
      in if won then emit [Metered (u64_as_i64 p) (u64_as_i64 d)] s else s)"
| "poll s (Settled_up p d source) =
     (let code = final_code (sn_cells s) ''ok'';
          s = emit [Routed (i64_add (u64_as_i64 p) (u64_as_i64 d))] s;
          s = finish code p d (sc_completion (sn_cells s)) source s;
          s = emit [Observed code p d, Done] s
      in spawn_drop (s\<lparr>sn_phase := Served\<rparr>))"
| "poll s Served = s"
| "poll s Dropped = s"

text \<open>
  The body is dropped, by a disconnect or at its end: the accountant of the body is dropped, and
  the one of the terminal future too unless that future has completed and dropped it already.
\<close>

definition drop_body :: "stream_run \<Rightarrow> stream_run" where
  "drop_body s =
     (let lost = (case sn_phase s of Swapped p d source won \<Rightarrow> won | _ \<Rightarrow> False);
          s' = s\<lparr>sn_phase := Dropped, sn_lost := lost\<rparr>
      in if sn_phase s = Served then spawn_drop s' else spawn_drop (spawn_drop s'))"

text \<open>One step of a spawned task: \<open>None\<close> is its end.\<close>

fun run_task :: "drop_task \<Rightarrow> stage \<Rightarrow> stream_run \<Rightarrow> drop_task option \<times> stream_run" where
  "run_task t Spawned s = (Some (t\<lparr>dt_stage := Metering (\<not> sn_recorded s)\<rparr>), s\<lparr>sn_recorded := True\<rparr>)"
| "run_task t (Metering won) s =
     (Some (t\<lparr>dt_stage := Finishing\<rparr>),
      if won then emit [Metered (u64_as_i64 (dt_prompt t)) (u64_as_i64 (dt_completion t))] s else s)"
| "run_task t Finishing s = (None, finish (dt_code t) (dt_prompt t) (dt_completion t) (dt_text t) (dt_source t) s)"

definition put_task :: "nat \<Rightarrow> drop_task option \<Rightarrow> drop_task list \<Rightarrow> drop_task list" where
  "put_task k t ts = (case t of Some t' \<Rightarrow> ts[k := t'] | None \<Rightarrow> take k ts @ drop (Suc k) ts)"

inductive stream_step :: "stream_run \<Rightarrow> stream_run \<Rightarrow> bool" where
  Poll: "sn_phase s \<notin> {Served, Dropped} \<Longrightarrow> stream_step s (poll s (sn_phase s))"
| Drop: "sn_phase s \<noteq> Dropped \<Longrightarrow> stream_step s (drop_body s)"
| Task: "k < length (sn_tasks s) \<Longrightarrow> run_task (sn_tasks s ! k) (dt_stage (sn_tasks s ! k)) s = (t, s') \<Longrightarrow>
    stream_step s (s'\<lparr>sn_tasks := put_task k t (sn_tasks s)\<rparr>)"

inductive stream_reach :: "stream_run \<Rightarrow> stream_run \<Rightarrow> bool" for s0 where
  Opened: "stream_reach s0 s0"
| Stepped: "stream_reach s0 s \<Longrightarrow> stream_step s s' \<Longrightarrow> stream_reach s0 s'"

lemma stream_reach_trans: "stream_reach s1 s2 \<Longrightarrow> stream_reach s0 s1 \<Longrightarrow> stream_reach s0 s2"
  by (induction rule: stream_reach.induct) (auto intro: stream_reach.intros)

section \<open>A stream that does not open\<close>

definition stream_open_failed ::
  "'s gateway \<Rightarrow> inputs \<Rightarrow> in_flight \<Rightarrow> provider_error \<Rightarrow> 's gateway_state \<Rightarrow> response \<times> 's gateway_state" where
  "stream_open_failed gw i fl err st =
     (let lc = fl_life fl;
          est = fst (estimate_usage (prompt_text (fl_payload fl)) []);
          st = settle_open gw (in_now i) (fl_reservation fl) (u64_as_i64 est) st;
          st = observe_request (lc_client lc) (lc_provider lc) (lc_model lc) ''upstream_error'' 0 0 st;
          (_, st) = lifecycle_finish gw i lc False ''upstream_error'' 0 0 (provider_error_text err) ''upstream'' st
      in (into_response (err_upstream (provider_error_text err)), st))"

section \<open>Accounting invariant\<close>

definition audits :: "stream_run \<Rightarrow> effect list" where
  "audits s = filter (\<lambda>e. case e of Audited c p d t u \<Rightarrow> True | _ \<Rightarrow> False) (sn_trace s)"

definition meters :: "stream_run \<Rightarrow> effect list" where
  "meters s = filter (\<lambda>e. case e of Metered p d \<Rightarrow> True | _ \<Rightarrow> False) (sn_trace s)"

definition routes :: "stream_run \<Rightarrow> effect list" where
  "routes s = filter (\<lambda>e. case e of Routed n \<Rightarrow> True | _ \<Rightarrow> False) (sn_trace s)"

lemmas count_defs = audits_def meters_def routes_def

text \<open>Meterings that are decided but not yet done.\<close>

definition pending :: "stream_run \<Rightarrow> nat" where
  "pending s = (case sn_phase s of Swapped p d source True \<Rightarrow> 1 | _ \<Rightarrow> 0) +
     length (filter (\<lambda>t. dt_stage t = Metering True) (sn_tasks s))"

fun running :: "phase \<Rightarrow> bool" where
  "running Served = False" | "running Dropped = False" | "running _ = True"

fun before_end :: "phase \<Rightarrow> bool" where
  "before_end (Chunks xs) = True" | "before_end Flush = True" | "before_end Terminal = True"
| "before_end _ = False"

fun counted :: "phase \<Rightarrow> (nat \<times> nat \<times> string) option" where
  "counted (Swapped p d source won) = Some (p, d, source)"
| "counted (Settled_up p d source) = Some (p, d, source)"
| "counted _ = None"

text \<open>The numbers, the text and the codes that the cells give.\<close>

definition numbers :: "stream_run \<Rightarrow> nat \<times> nat \<times> string" where
  "numbers s = usage_numbers (sn_prompt s) (sn_cells s)"

definition task_fits :: "stream_run \<Rightarrow> drop_task \<Rightarrow> bool" where
  "task_fits s t \<longleftrightarrow> (dt_prompt t, dt_completion t, dt_source t) = numbers s \<and>
     dt_code t = final_code (sn_cells s) ''cancelled'' \<and> dt_text t = sc_completion (sn_cells s)"

definition effect_fits :: "stream_run \<Rightarrow> effect \<Rightarrow> bool" where
  "effect_fits s e \<longleftrightarrow>
     (let (p, d, source) = numbers s; P = u64_as_i64 p; D = u64_as_i64 d in
      case e of
        Metered p' d' \<Rightarrow> p' = P \<and> d' = D
      | Routed n \<Rightarrow> n = i64_add P D
      | Audited code p' d' tx source' \<Rightarrow> p' = P \<and> d' = D \<and> tx = sc_completion (sn_cells s) \<and> source' = source \<and>
          (code = final_code (sn_cells s) ''ok'' \<and> routes s \<noteq> [] \<or> code = final_code (sn_cells s) ''cancelled'')
      | _ \<Rightarrow> True)"

definition stream_ok :: "stream_run \<Rightarrow> bool" where
  "stream_ok s \<longleftrightarrow>
     length (audits s) = (if sn_finalized s then 1 else 0) \<and>
     length (meters s) + pending s + (if sn_lost s then 1 else 0) = (if sn_recorded s then 1 else 0) \<and>
     length (routes s) \<le> 1 \<and>
     (running (sn_phase s) \<longrightarrow> routes s = [] \<and> \<not> sn_finalized s \<and> sn_tasks s = [] \<and> \<not> sn_lost s) \<and>
     (before_end (sn_phase s) \<longrightarrow> \<not> sn_recorded s) \<and>
     (\<forall>n. counted (sn_phase s) = Some n \<longrightarrow> n = numbers s \<and> sn_recorded s) \<and>
     (sn_phase s = Served \<longrightarrow> sn_recorded s \<and> sn_finalized s \<and> \<not> sn_lost s) \<and>
     (sn_phase s = Dropped \<longrightarrow> (sn_recorded s \<or> (\<exists>t \<in> set (sn_tasks s). dt_stage t = Spawned)) \<and>
        (sn_finalized s \<or> sn_tasks s \<noteq> [])) \<and>
     (\<forall>t \<in> set (sn_tasks s). task_fits s t) \<and> (\<forall>e \<in> set (sn_trace s). effect_fits s e)"

lemma emit_simps [simp]:
  "sn_phase (emit es s) = sn_phase s" "sn_cells (emit es s) = sn_cells s" "sn_recorded (emit es s) = sn_recorded s"
  "sn_finalized (emit es s) = sn_finalized s" "sn_tasks (emit es s) = sn_tasks s" "sn_lost (emit es s) = sn_lost s"
  "sn_prompt (emit es s) = sn_prompt s" "sn_trace (emit es s) = sn_trace s @ es"
  by (simp_all add: emit_def)

lemma emit_Nil [simp]: "emit [] s = s"
  by (simp add: emit_def)

lemma emit_update [simp]:
  "emit es (emit es0 s) = emit (es0 @ es) s" "(emit es s)\<lparr>sn_phase := ph\<rparr> = emit es (s\<lparr>sn_phase := ph\<rparr>)"
  "(emit es s)\<lparr>sn_finalized := b\<rparr> = emit es (s\<lparr>sn_finalized := b\<rparr>)"
  by (simp_all add: emit_def)

lemma open_stream_ok: "stream_ok (open_stream c fl items)"
  by (simp add: stream_ok_def open_stream_def count_defs pending_def)

text \<open>Before the end the trace holds no accounting, so the cells may still change.\<close>

lemma early_trace:
  assumes "stream_ok s" and "before_end (sn_phase s)"
  shows "audits s = []" "meters s = []" "routes s = []" "\<not> sn_recorded s" "\<not> sn_finalized s" "sn_tasks s = []" "\<not> sn_lost s"
proof -
  have r: "running (sn_phase s)" using assms(2) by (cases "sn_phase s") auto
  with assms show "audits s = []" "routes s = []" "\<not> sn_recorded s" "\<not> sn_finalized s" "sn_tasks s = []" "\<not> sn_lost s"
    by (auto simp: stream_ok_def)
  with assms(1) show "meters s = []" by (auto simp: stream_ok_def)
qed

lemma early_fits:
  assumes "audits s = []" and "meters s = []" and "routes s = []" and "e \<in> set (sn_trace s)"
  shows "effect_fits s' e"
  using assms by (cases e) (auto simp: count_defs filter_empty_conv effect_fits_def split: prod.splits)

lemma early_step:
  assumes "stream_ok s" and "before_end (sn_phase s)" and "before_end ph"
    and "\<forall>e \<in> set es. case e of Emit f \<Rightarrow> True | Observed c p d \<Rightarrow> True | _ \<Rightarrow> False"
  shows "stream_ok (emit es (s\<lparr>sn_phase := ph, sn_cells := sc\<rparr>))" (is "stream_ok ?s")
proof -
  note e = early_trace [OF assms(1,2)]
  have none: "filter (\<lambda>e. case e of Audited c p d t u \<Rightarrow> True | _ \<Rightarrow> False) es = []"
    "filter (\<lambda>e. case e of Metered p d \<Rightarrow> True | _ \<Rightarrow> False) es = []"
    "filter (\<lambda>e. case e of Routed n \<Rightarrow> True | _ \<Rightarrow> False) es = []"
    using assms(4) by (auto simp: filter_empty_conv split: effect.splits)
  then have c: "audits ?s = []" "meters ?s = []" "routes ?s = []"
    using e(1-3) by (simp_all add: count_defs)
  have "effect_fits ?s x" if "x \<in> set (sn_trace ?s)" for x
    using early_fits [OF c that] .
  moreover have "running ph" "pending ?s = 0" "counted ph = None" "ph \<noteq> Served" "ph \<noteq> Dropped"
    using assms(3) e(6) by (cases ph; simp add: pending_def)+
  ultimately show ?thesis using c e assms(3) by (simp add: stream_ok_def)
qed

lemma poll_early_ok:
  assumes "stream_ok s" and "sn_phase s = Chunks xs \<or> sn_phase s = Flush"
  shows "stream_ok (poll s (sn_phase s))"
proof -
  have b: "before_end (sn_phase s)" using assms(2) by auto
  consider "sn_phase s = Chunks []" | err rest where "sn_phase s = Chunks (Inl err # rest)"
    | chunk rest where "sn_phase s = Chunks (Inr chunk # rest)" | "sn_phase s = Flush"
    using assms(2) by (cases xs; cases "hd xs") auto
  then show ?thesis
  proof cases
    case 1
    then show ?thesis using early_step [OF assms(1) b, of Flush "[]" "sn_cells s"] by simp
  next
    case 2
    then show ?thesis using early_step [OF assms(1) b] by simp
  next
    case 3
    then show ?thesis using early_step [OF assms(1) b] by (simp split: prod.splits)
  next
    case 4
    obtain tx session where f: "flush (sc_restore (sn_cells s)) = (tx, session)" by fastforce
    let ?sc = "(sn_cells s)\<lparr>sc_restore := session, sc_completion := sc_completion (sn_cells s) @ tx\<rparr>"
    have "poll s Flush = emit (if tx = [] then [] else [Emit (flush_frame tx)]) (s\<lparr>sn_phase := Terminal, sn_cells := ?sc\<rparr>)"
      using f by (simp add: Let_def emit_def)
    moreover have "stream_ok (emit (if tx = [] then [] else [Emit (flush_frame tx)]) (s\<lparr>sn_phase := Terminal, sn_cells := ?sc\<rparr>))"
      by (rule early_step [OF assms(1) b]) auto
    ultimately show ?thesis using 4 by simp
  qed
qed

text \<open>Steps that leave the cells alone keep the effects and tasks fitting.\<close>

lemma numbers_eq: "sn_prompt s' = sn_prompt s \<Longrightarrow> sn_cells s' = sn_cells s \<Longrightarrow> numbers s' = numbers s"
  by (simp add: numbers_def)

lemma fits_same:
  assumes "sn_prompt s' = sn_prompt s" and "sn_cells s' = sn_cells s" and "routes s \<noteq> [] \<longrightarrow> routes s' \<noteq> []"
  shows "task_fits s t \<Longrightarrow> task_fits s' t" "effect_fits s e \<Longrightarrow> effect_fits s' e"
  using assms numbers_eq [OF assms(1,2)]
  by (auto simp: task_fits_def effect_fits_def Let_def split: prod.splits effect.splits)

lemma poll_terminal_ok:
  assumes "stream_ok s" and "sn_phase s = Terminal"
  shows "stream_ok (poll s Terminal)"
proof -
  obtain p d source where n: "usage_numbers (sn_prompt s) (sn_cells s) = (p, d, source)" by (metis prod_cases3)
  have b: "before_end (sn_phase s)" using assms(2) by simp
  note e = early_trace [OF assms(1) b]
  let ?s = "s\<lparr>sn_phase := Swapped p d source (\<not> sn_recorded s), sn_recorded := True\<rparr>"
  have c: "audits ?s = []" "meters ?s = []" "routes ?s = []" using e(1-3) by (simp_all add: count_defs)
  have "\<forall>x \<in> set (sn_trace ?s). effect_fits ?s x" using early_fits [OF c] by blast
  moreover have "numbers ?s = (p, d, source)" using n by (simp add: numbers_def)
  ultimately have "stream_ok ?s" using c e assms(1) by (simp add: stream_ok_def pending_def)
  then show ?thesis using n by simp
qed

lemma poll_swapped_ok:
  assumes "stream_ok s" and "sn_phase s = Swapped p d source won"
  shows "stream_ok (poll s (Swapped p d source won))"
proof -
  let ?s = "emit (if won then [Metered (u64_as_i64 p) (u64_as_i64 d)] else []) (s\<lparr>sn_phase := Settled_up p d source\<rparr>)"
  have f: "audits s = []" "routes s = []" "sn_tasks s = []" "\<not> sn_finalized s" "\<not> sn_lost s" "sn_recorded s"
      "numbers s = (p, d, source)"
    using assms by (auto simp: stream_ok_def)
  have "length (meters s) + (if won then 1 else 0) = 1"
    using assms f by (cases won) (simp_all add: stream_ok_def pending_def)
  then have c: "audits ?s = []" "routes ?s = []" "length (meters ?s) = 1" using f by (auto simp: count_defs)
  have n: "numbers ?s = (p, d, source)" using f(7) by (simp add: numbers_def)
  have "\<forall>e \<in> set (sn_trace s). effect_fits ?s e"
    using assms(1) fits_same(2) [of ?s s] f(2) by (auto simp: stream_ok_def)
  moreover have "effect_fits ?s (Metered (u64_as_i64 p) (u64_as_i64 d))" using n by (simp add: effect_fits_def)
  ultimately have "\<forall>e \<in> set (sn_trace ?s). effect_fits ?s e" by auto
  then have "stream_ok ?s" using c f n assms(1) by (auto simp: stream_ok_def pending_def)
  then show ?thesis by (simp add: Let_def split: if_splits)
qed

lemma spawn_drop_simps [simp]:
  "sn_phase (spawn_drop s) = sn_phase s" "sn_cells (spawn_drop s) = sn_cells s" "sn_recorded (spawn_drop s) = sn_recorded s"
  "sn_finalized (spawn_drop s) = sn_finalized s" "sn_lost (spawn_drop s) = sn_lost s" "sn_trace (spawn_drop s) = sn_trace s"
  "sn_prompt (spawn_drop s) = sn_prompt s"
  by (simp_all add: spawn_drop_def split: prod.splits)

lemma spawn_drop_tasks:
  obtains t where "sn_tasks (spawn_drop s) = sn_tasks s @ [t]" "dt_stage t = Spawned" "task_fits s t"
proof -
  obtain p d source where n: "usage_numbers (sn_prompt s) (sn_cells s) = (p, d, source)" by (metis prod_cases3)
  let ?t = "\<lparr>dt_prompt = p, dt_completion = d, dt_source = source, dt_code = final_code (sn_cells s) ''cancelled'',
    dt_text = sc_completion (sn_cells s), dt_stage = Spawned\<rparr>"
  show ?thesis
    by (rule that [of ?t]) (simp_all add: spawn_drop_def n task_fits_def numbers_def)
qed

lemma spawn_drop_facts:
  "audits (spawn_drop s) = audits s" "meters (spawn_drop s) = meters s" "routes (spawn_drop s) = routes s"
  "pending (spawn_drop s) = pending s" "numbers (spawn_drop s) = numbers s"
  "effect_fits (spawn_drop s) e = effect_fits s e" "task_fits (spawn_drop s) t = task_fits s t"
proof -
  obtain t' where t': "sn_tasks (spawn_drop s) = sn_tasks s @ [t']" "dt_stage t' = Spawned" by (rule spawn_drop_tasks)
  show "pending (spawn_drop s) = pending s" using t' by (simp add: pending_def)
  show r: "routes (spawn_drop s) = routes s" by (simp add: count_defs)
  show "audits (spawn_drop s) = audits s" "meters (spawn_drop s) = meters s" by (simp_all add: count_defs)
  show n: "numbers (spawn_drop s) = numbers s" by (simp add: numbers_def)
  show "task_fits (spawn_drop s) t = task_fits s t" using n by (simp add: task_fits_def)
  show "effect_fits (spawn_drop s) e = effect_fits s e"
    unfolding effect_fits_def n r spawn_drop_simps ..
qed

text \<open>Spawning a drop task is harmless once the body is served or dropped.\<close>

lemma spawn_drop_ok:
  assumes "stream_ok s" and "\<not> running (sn_phase s)"
  shows "stream_ok (spawn_drop s)"
proof -
  obtain t where t: "sn_tasks (spawn_drop s) = sn_tasks s @ [t]" "dt_stage t = Spawned" "task_fits s t"
    by (rule spawn_drop_tasks)
  show ?thesis
    using assms t by (auto simp: stream_ok_def spawn_drop_facts)
qed

lemma poll_settled_ok:
  assumes "stream_ok s" and "sn_phase s = Settled_up p d source"
  shows "stream_ok (poll s (Settled_up p d source))"
proof -
  let ?code = "final_code (sn_cells s) ''ok''"
  let ?es = "[Routed (i64_add (u64_as_i64 p) (u64_as_i64 d)),
    Audited ?code (u64_as_i64 p) (u64_as_i64 d) (sc_completion (sn_cells s)) source, Observed ?code p d, Done]"
  let ?s = "emit ?es (s\<lparr>sn_finalized := True, sn_phase := Served\<rparr>)"
  have f: "audits s = []" "routes s = []" "sn_tasks s = []" "\<not> sn_finalized s" "\<not> sn_lost s" "sn_recorded s"
      "numbers s = (p, d, source)"
    using assms by (auto simp: stream_ok_def)
  have m: "length (meters s) = 1" using assms f by (simp add: stream_ok_def pending_def)
  then have c: "length (audits ?s) = 1" "length (routes ?s) = 1" "length (meters ?s) = 1"
    using f(1,2) by (auto simp: count_defs)
  have n: "numbers ?s = (p, d, source)" using f(7) by (simp add: numbers_def)
  have "\<forall>e \<in> set (sn_trace s). effect_fits ?s e"
    using assms(1) fits_same(2) [of ?s s] f(2) by (auto simp: stream_ok_def)
  moreover have "routes ?s \<noteq> []" using c(2) by auto
  ultimately have "\<forall>e \<in> set (sn_trace ?s). effect_fits ?s e" using n by (auto simp: effect_fits_def)
  then have "stream_ok ?s" using c f n by (auto simp: stream_ok_def pending_def)
  moreover have "poll s (Settled_up p d source) = spawn_drop ?s"
    using f(4) by (simp add: finish_def Let_def)
  ultimately show ?thesis using spawn_drop_ok [of ?s] by simp
qed

lemma drop_body_ok:
  assumes "stream_ok s" and "sn_phase s \<noteq> Dropped"
  shows "stream_ok (drop_body s)"
proof (cases "sn_phase s = Served")
  case True
  let ?s = "s\<lparr>sn_phase := Dropped, sn_lost := False\<rparr>"
  have same: "audits ?s = audits s" "meters ?s = meters s" "routes ?s = routes s" "numbers ?s = numbers s"
    "pending ?s = pending s"
    using True by (simp_all add: count_defs numbers_def pending_def)
  have "\<forall>t \<in> set (sn_tasks s). task_fits ?s t" "\<forall>e \<in> set (sn_trace s). effect_fits ?s e"
    using assms(1) fits_same [of ?s s] same(3) by (auto simp: stream_ok_def)
  then have "stream_ok ?s" using assms(1) True same by (auto simp: stream_ok_def)
  then show ?thesis using spawn_drop_ok [of ?s] True by (simp add: drop_body_def)
next
  case False
  with assms(2) have r: "running (sn_phase s)" by (cases "sn_phase s") auto
  let ?lost = "case sn_phase s of Swapped p d source won \<Rightarrow> won | _ \<Rightarrow> False"
  let ?dropped = "s\<lparr>sn_phase := Dropped, sn_lost := ?lost\<rparr>"
  let ?s = "spawn_drop (spawn_drop ?dropped)"
  have f: "routes s = []" "sn_tasks s = []" "\<not> sn_finalized s" "\<not> sn_lost s" "length (audits s) = 0"
    using assms(1) r by (auto simp: stream_ok_def)
  have same: "audits ?dropped = audits s" "meters ?dropped = meters s" "routes ?dropped = routes s" "numbers ?dropped = numbers s"
    by (simp_all add: count_defs numbers_def)
  obtain t1 where t1: "sn_tasks (spawn_drop ?dropped) = sn_tasks ?dropped @ [t1]" "dt_stage t1 = Spawned" "task_fits ?dropped t1"
    by (rule spawn_drop_tasks)
  obtain t2 where t2: "sn_tasks ?s = sn_tasks (spawn_drop ?dropped) @ [t2]" "dt_stage t2 = Spawned"
    "task_fits (spawn_drop ?dropped) t2"
    by (rule spawn_drop_tasks [of "spawn_drop ?dropped"])
  have ts: "sn_tasks ?s = [t1, t2]" "task_fits ?dropped t2" using t1 t2 f(2) by (simp_all add: spawn_drop_facts)
  have p: "pending s = (if ?lost then 1 else 0)" using f(2) by (simp add: pending_def split: phase.split)
  have m: "length (meters s) + (if ?lost then 1 else 0) = (if sn_recorded s then 1 else 0)"
    using assms(1) f(4) p by (simp add: stream_ok_def)
  have "pending ?s = 0" using t1 t2 ts by (simp add: pending_def)
  moreover have "\<forall>e \<in> set (sn_trace s). effect_fits ?dropped e"
    using assms(1) fits_same [of ?dropped s] same(3) by (auto simp: stream_ok_def)
  ultimately have "stream_ok ?s"
    using t1 t2 ts m f same by (simp add: stream_ok_def spawn_drop_facts)
  then show ?thesis using False by (simp add: drop_body_def)
qed

lemma finish_simps [simp]:
  "sn_phase (finish c p d tx u s) = sn_phase s" "sn_cells (finish c p d tx u s) = sn_cells s"
  "sn_recorded (finish c p d tx u s) = sn_recorded s" "sn_tasks (finish c p d tx u s) = sn_tasks s"
  "sn_lost (finish c p d tx u s) = sn_lost s" "sn_prompt (finish c p d tx u s) = sn_prompt s"
  "sn_finalized (finish c p d tx u s)"
  by (simp_all add: finish_def)

lemma task_list:
  assumes "k < length ts"
  shows "ts = take k ts @ ts ! k # drop (Suc k) ts"
  using assms by (rule id_take_nth_drop)

text \<open>A task step replaces one task and adds effects; the rest is as before.\<close>

lemma task_step_ok:
  assumes ok: "stream_ok s" and split: "sn_tasks s = xs @ t # ys"
    and run: "run_task t (dt_stage t) s = (r, s')"
  shows "stream_ok (s'\<lparr>sn_tasks := xs @ (case r of Some t' \<Rightarrow> [t'] | None \<Rightarrow> []) @ ys\<rparr>)" (is "stream_ok ?s")
proof -
  have nr: "\<not> running (sn_phase s)" using ok split by (auto simp: stream_ok_def)
  have t: "task_fits s t" using ok split by (auto simp: stream_ok_def)
  have rest: "\<forall>x \<in> set (xs @ ys). task_fits s x" using ok split by (auto simp: stream_ok_def)
  have cnt: "counted (sn_phase s) = None" "\<not> before_end (sn_phase s)" using nr by (cases "sn_phase s"; simp)+
  show ?thesis
  proof (cases "dt_stage t")
    case Spawned
    with run have r: "r = Some (t\<lparr>dt_stage := Metering (\<not> sn_recorded s)\<rparr>)" "s' = s\<lparr>sn_recorded := True\<rparr>" by auto
    have same: "audits ?s = audits s" "meters ?s = meters s" "routes ?s = routes s" "numbers ?s = numbers s"
      "sn_cells ?s = sn_cells s"
      by (simp_all add: r count_defs numbers_def)
    have "task_fits ?s x \<longleftrightarrow> task_fits s x" "effect_fits ?s e \<longleftrightarrow> effect_fits s e" for x e
      unfolding task_fits_def effect_fits_def same by (rule refl)+
    moreover have "task_fits s (t\<lparr>dt_stage := Metering (\<not> sn_recorded s)\<rparr>)" using t by (simp add: task_fits_def)
    moreover have "pending ?s = pending s + (if sn_recorded s then 0 else 1)"
      using split Spawned by (simp add: pending_def r)
    ultimately show ?thesis
      using ok rest nr cnt same split by (auto simp: stream_ok_def r)
  next
    case (Metering won)
    with run have r: "r = Some (t\<lparr>dt_stage := Finishing\<rparr>)"
      "s' = emit (if won then [Metered (u64_as_i64 (dt_prompt t)) (u64_as_i64 (dt_completion t))] else []) s"
      by auto
    have same: "audits ?s = audits s" "routes ?s = routes s" "numbers ?s = numbers s"
      "sn_cells ?s = sn_cells s"
      and more: "length (meters ?s) = length (meters s) + (if won then 1 else 0)"
      by (simp_all add: r count_defs numbers_def)
    have fits: "task_fits ?s x \<longleftrightarrow> task_fits s x" "effect_fits ?s e \<longleftrightarrow> effect_fits s e" for x e
      unfolding task_fits_def effect_fits_def same by (rule refl)+
    have m: "effect_fits s (Metered (u64_as_i64 (dt_prompt t)) (u64_as_i64 (dt_completion t)))"
      using t by (auto simp: task_fits_def effect_fits_def Let_def split: prod.splits)
    have p: "pending ?s + (if won then 1 else 0) = pending s"
      using split Metering by (cases won) (simp_all add: pending_def r)
    have "task_fits s (t\<lparr>dt_stage := Finishing\<rparr>)" using t by (simp add: task_fits_def)
    moreover have "length (meters ?s) + pending ?s = length (meters s) + pending s" using more p by simp
    ultimately show ?thesis
      using ok rest nr cnt same split m Metering
      unfolding stream_ok_def fits by (auto simp: r)
  next
    case Finishing
    let ?es = "if sn_finalized s then [] else [Audited (dt_code t) (u64_as_i64 (dt_prompt t))
      (u64_as_i64 (dt_completion t)) (dt_text t) (dt_source t)]"
    from Finishing run have r: "r = None" "s' = emit ?es (s\<lparr>sn_finalized := True\<rparr>)"
      by (auto simp: finish_def emit_def)
    have same: "meters ?s = meters s" "routes ?s = routes s" "numbers ?s = numbers s" "pending ?s = pending s"
      "sn_cells ?s = sn_cells s"
      using split Finishing by (simp_all add: r count_defs numbers_def pending_def)
    have a: "length (audits ?s) = 1" using ok by (simp add: r count_defs stream_ok_def)
    have fits: "task_fits ?s x \<longleftrightarrow> task_fits s x" "effect_fits ?s e \<longleftrightarrow> effect_fits s e" for x e
      unfolding task_fits_def effect_fits_def same by (rule refl)+
    have "effect_fits s (Audited (dt_code t) (u64_as_i64 (dt_prompt t)) (u64_as_i64 (dt_completion t)) (dt_text t) (dt_source t))"
      using t by (auto simp: task_fits_def effect_fits_def Let_def split: prod.splits)
    then show ?thesis
      using ok rest nr cnt same split a Finishing
      unfolding stream_ok_def fits by (auto simp: r)
  qed
qed

lemma stream_step_ok:
  assumes "stream_step s s'" and "stream_ok s"
  shows "stream_ok s'"
  using assms
proof (induction rule: stream_step.induct)
  case (Poll s)
  show ?case
  proof (cases "sn_phase s")
    case (Chunks xs)
    with Poll poll_early_ok [of s xs] show ?thesis by simp
  next
    case Flush
    with Poll poll_early_ok [of s "[]"] show ?thesis by metis
  next
    case Terminal
    with Poll poll_terminal_ok [of s] show ?thesis by metis
  next
    case (Swapped p d source won)
    with Poll poll_swapped_ok [of s p d source won] show ?thesis by metis
  next
    case (Settled_up p d source)
    with Poll poll_settled_ok [of s p d source] show ?thesis by metis
  qed (use Poll in simp_all)
next
  case (Drop s)
  then show ?case by (blast intro: drop_body_ok)
next
  case (Task k s t s')
  let ?ts = "sn_tasks s"
  have "?ts = take k ?ts @ ?ts ! k # drop (Suc k) ?ts" by (rule task_list [OF Task(1)])
  from task_step_ok [OF Task(3) this Task(2)] show ?case
    using Task(1) by (simp add: put_task_def upd_conv_take_nth_drop split: option.splits)
qed


section \<open>Progress: what was received, sent and restored\<close>

definition frame_texts :: "json \<Rightarrow> string list" where
  "frame_texts frame = (case chunk_choices frame of Some cs \<Rightarrow> List.map_filter delta_content cs | None \<Rightarrow> [])"

definition item_texts :: "provider_error + json \<Rightarrow> string list" where
  "item_texts item = (case item of Inl err \<Rightarrow> [] | Inr chunk \<Rightarrow> frame_texts chunk)"

definition received :: "(provider_error + json) list \<Rightarrow> string list" where
  "received items = concat (map item_texts items)"

definition sent_texts :: "stream_run \<Rightarrow> string list" where
  "sent_texts s = concat (map (\<lambda>e. case e of Emit frame \<Rightarrow> frame_texts frame | _ \<Rightarrow> []) (sn_trace s))"

definition failed :: "(provider_error + json) list \<Rightarrow> bool" where
  "failed items \<longleftrightarrow> (\<exists>err. Inl err \<in> set items)"

lemma delta_put [simp]: "delta_content choice \<noteq> None \<Longrightarrow> delta_content (put_delta_content tx choice) = Some tx"
  by (auto simp: delta_content_def put_delta_content_def split: json.splits option.splits)

lemma map_filter_Cons: "List.map_filter f (x # xs) = (case f x of Some y \<Rightarrow> [y] | None \<Rightarrow> []) @ List.map_filter f xs"
  by (simp add: List.map_filter_simps split: option.split)

lemma feed_all_append:
  "feed_all (xs @ ys) st =
     (let (a, st1) = feed_all xs st; (b, st2) = feed_all ys st1 in (a @ b, st2))"
  by (induction xs arbitrary: st) (auto simp: Let_def split: prod.splits)

lemma map_choices_texts:
  assumes "map_choices cs sc = (cs', sc')"
  shows "feed_all (List.map_filter delta_content cs) (sc_restore sc) =
      (concat (List.map_filter delta_content cs'), sc_restore sc') \<and>
    sc_completion sc' = sc_completion sc @ concat (List.map_filter delta_content cs') \<and>
    sc_usage sc' = sc_usage sc \<and> sc_error sc' = sc_error sc"
  using assms
proof (induction cs arbitrary: sc cs' sc')
  case Nil
  then show ?case by (simp add: List.map_filter_simps)
next
  case (Cons c cs)
  obtain c1 sc1 where c1: "map_choice c sc = (c1, sc1)" by fastforce
  with Cons.prems obtain cs1 where r: "map_choices cs sc1 = (cs1, sc')" "cs' = c1 # cs1"
    by (auto split: prod.splits)
  note IH = Cons.IH [OF r(1)]
  show ?case
  proof (cases "delta_content c")
    case None
    with c1 have "c1 = c" "sc1 = sc" by (simp_all add: map_choice_def)
    with IH r(2) None show ?thesis by (simp add: map_filter_Cons)
  next
    case (Some d)
    obtain tx st where f: "feed d (sc_restore sc) = (tx, st)" by fastforce
    with c1 Some have "c1 = put_delta_content tx c" "sc1 = sc\<lparr>sc_restore := st, sc_completion := sc_completion sc @ tx\<rparr>"
      by (simp_all add: map_choice_def)
    with IH r(2) Some f show ?thesis by (simp add: map_filter_Cons)
  qed
qed

lemma note_usage_simps [simp]:
  "sc_restore (note_usage chunk sc) = sc_restore sc" "sc_completion (note_usage chunk sc) = sc_completion sc"
  "sc_error (note_usage chunk sc) = sc_error sc"
  by (simp_all add: note_usage_def)

lemma map_chunk_texts:
  assumes "map_chunk chunk sc = (frame, sc')"
  shows "feed_all (frame_texts chunk) (sc_restore sc) = (concat (frame_texts frame), sc_restore sc') \<and>
    sc_completion sc' = sc_completion sc @ concat (frame_texts frame) \<and> sc_error sc' = sc_error sc"
proof (cases "chunk_choices chunk")
  case None
  with assms show ?thesis by (auto simp: map_chunk_def frame_texts_def)
next
  case (Some cs)
  then obtain m where m: "chunk = JObj m" by (cases chunk) (auto simp: chunk_choices_def)
  obtain cs' sc1 where c: "map_choices cs (note_usage chunk sc) = (cs', sc1)" by fastforce
  with assms Some have "frame = put_choices cs' chunk" "sc' = sc1" by (simp_all add: map_chunk_def)
  with map_choices_texts [OF c] Some m show ?thesis
    by (simp add: frame_texts_def put_choices_def chunk_choices_def)
qed

text \<open>The invariant: \<open>session\<close> is the restore session at the start.\<close>

definition text_ok :: "stream_restore \<Rightarrow> (provider_error + json) list \<Rightarrow> stream_run \<Rightarrow> bool" where
  "text_ok session items s \<longleftrightarrow>
     feed_all (received items) session = (sc_completion (sn_cells s), sc_restore (sn_cells s)) \<and>
     concat (sent_texts s) = sc_completion (sn_cells s) \<and> sc_error (sn_cells s) = failed items"

definition served_ok :: "stream_restore \<Rightarrow> (provider_error + json) list \<Rightarrow> stream_run \<Rightarrow> bool" where
  "served_ok session items s \<longleftrightarrow>
     streamed (received items) session = sc_completion (sn_cells s) \<and>
     concat (sent_texts s) = sc_completion (sn_cells s) \<and> sc_error (sn_cells s) = failed items"

definition progress :: "stream_restore \<Rightarrow> (provider_error + json) list \<Rightarrow> stream_run \<Rightarrow> bool" where
  "progress session items s \<longleftrightarrow>
     (case sn_phase s of
        Chunks rest \<Rightarrow> \<exists>pre. items = pre @ rest \<and> text_ok session pre s
      | Flush \<Rightarrow> text_ok session items s
      | Dropped \<Rightarrow> routes s \<noteq> [] \<longrightarrow> served_ok session items s \<and> meters s \<noteq> []
      | Settled_up p d source \<Rightarrow> served_ok session items s \<and> meters s \<noteq> []
      | Served \<Rightarrow> served_ok session items s \<and> meters s \<noteq> []
      | _ \<Rightarrow> served_ok session items s)"

lemma frame_texts_simps [simp]:
  "frame_texts (error_frame err) = []" "frame_texts (flush_frame tx) = [tx]"
  by (simp_all add: frame_texts_def error_frame_def flush_frame_def chunk_choices_def delta_content_def
      List.map_filter_simps)

lemma sent_emit [simp]:
  "sent_texts (emit es s) = sent_texts s @ concat (map (\<lambda>e. case e of Emit frame \<Rightarrow> frame_texts frame | _ \<Rightarrow> []) es)"
  by (simp add: sent_texts_def)

lemma served_ok_same:
  "sn_cells s' = sn_cells s \<Longrightarrow> sent_texts s' = sent_texts s \<Longrightarrow> served_ok session items s' = served_ok session items s"
  by (simp add: served_ok_def)

lemma received_snoc [simp]: "received (xs @ [x]) = received xs @ item_texts x" "received [] = []"
  by (simp_all add: received_def)

lemma failed_snoc [simp]: "failed (xs @ [Inl e]) = True" "failed (xs @ [Inr c]) = failed xs" "\<not> failed []"
  by (auto simp: failed_def)

lemma poll_progress_chunk:
  assumes "progress session items s" and "sn_phase s = Chunks (x # rest)"
  shows "progress session items (poll s (sn_phase s))"
proof -
  from assms obtain pre where pre: "items = pre @ x # rest" "text_ok session pre s" by (auto simp: progress_def)
  have items: "items = (pre @ [x]) @ rest" using pre(1) by simp
  show ?thesis
  proof (cases x)
    case (Inl err)
    have "text_ok session (pre @ [x]) (poll s (sn_phase s))"
      using pre(2) assms(2) Inl by (simp add: text_ok_def item_texts_def) (simp add: sent_texts_def)
    with items assms(2) Inl show ?thesis unfolding progress_def by auto
  next
    case (Inr chunk)
    obtain frame sc where m: "map_chunk chunk (sn_cells s) = (frame, sc)" by fastforce
    have "text_ok session (pre @ [x]) (poll s (sn_phase s))"
      using pre(2) assms(2) Inr m map_chunk_texts [OF m]
      by (simp add: text_ok_def item_texts_def feed_all_append) (simp add: sent_texts_def)
    with items assms(2) Inr m show ?thesis unfolding progress_def by auto
  qed
qed

lemma poll_progress_flush:
  assumes "progress session items s" and "sn_phase s = Flush"
  shows "progress session items (poll s (sn_phase s))"
proof -
  obtain tx st where f: "flush (sc_restore (sn_cells s)) = (tx, st)" by fastforce
  from assms have t: "text_ok session items s" by (simp add: progress_def)
  with f have "served_ok session items (poll s (sn_phase s))"
    using assms(2) by (simp add: text_ok_def served_ok_def streamed_def Let_def) (simp add: sent_texts_def)
  moreover have "sn_phase (poll s (sn_phase s)) = Terminal" using assms(2) f by (simp add: Let_def)
  ultimately show ?thesis by (simp add: progress_def)
qed

lemma stream_step_progress:
  assumes "stream_step s s'" and "stream_ok s" and "progress session items s"
  shows "progress session items s'"
  using assms
proof (induction rule: stream_step.induct)
  case (Poll s)
  show ?case
  proof (cases "sn_phase s")
    case (Chunks xs)
    show ?thesis
    proof (cases xs)
      case Nil
      with Chunks Poll(3) show ?thesis by (simp add: progress_def text_ok_def sent_texts_def)
    next
      case (Cons x rest)
      with Chunks Poll(3) poll_progress_chunk show ?thesis by blast
    qed
  next
    case Flush
    with Poll(3) poll_progress_flush show ?thesis by blast
  next
    case Terminal
    with Poll(3) show ?thesis by (simp add: progress_def served_ok_def sent_texts_def split: prod.splits)
  next
    case (Swapped p d source won)
    with Poll(2) have "won \<or> meters s \<noteq> []" by (cases won) (auto simp: stream_ok_def pending_def)
    with Swapped Poll(3) show ?thesis
      by (auto simp: progress_def served_ok_def sent_texts_def count_defs Let_def)
  next
    case (Settled_up p d source)
    with Poll(3) show ?thesis
      by (simp add: progress_def served_ok_def sent_texts_def count_defs finish_def Let_def)
  qed (use Poll in simp_all)
next
  case (Drop s)
  have "routes s = []" if "running (sn_phase s)" using Drop(2) that by (auto simp: stream_ok_def)
  with Drop show ?case
    by (cases "sn_phase s") (simp_all add: progress_def drop_body_def served_ok_def sent_texts_def count_defs Let_def)
next
  case (Task k s t s')
  have ph: "\<not> running (sn_phase s)" using Task(1,3) by (auto simp: stream_ok_def)
  have "sn_phase s' = sn_phase s \<and> sn_cells s' = sn_cells s \<and> sent_texts s' = sent_texts s \<and> routes s' = routes s \<and>
      (meters s \<noteq> [] \<longrightarrow> meters s' \<noteq> [])"
    using Task(2)
    by (cases "dt_stage (sn_tasks s ! k)") (auto simp: sent_texts_def count_defs finish_def split: if_splits)
  with Task(4) ph show ?case
    by (cases "sn_phase s") (auto simp: progress_def served_ok_def sent_texts_def count_defs)
qed

lemma stream_reach_progress:
  assumes "stream_reach (open_stream c fl items) s"
  shows "stream_ok s \<and> progress (stream_restore_session c (fl_dlp fl)) items s"
  using assms
proof (induction rule: stream_reach.induct)
  case Opened
  have "progress (stream_restore_session c (fl_dlp fl)) items (open_stream c fl items)"
    by (simp add: progress_def open_stream_def text_ok_def sent_texts_def)
  with open_stream_ok show ?case by blast
next
  case (Stepped s s')
  then show ?case using stream_step_ok stream_step_progress by blast
qed

section \<open>What the usage numbers are made of\<close>

text \<open>
  The usage objects of the chunks that arrived, and the numbers of the reply: those of the last such
  object, or an estimate from the prompt and the restored text.
\<close>

definition usages :: "(provider_error + json) list \<Rightarrow> (nat \<times> nat) list" where
  "usages items = List.map_filter
     (\<lambda>item. case item of Inl err \<Rightarrow> None | Inr chunk \<Rightarrow> given_usage (jget ''usage'' chunk)) items"

definition reply_usage :: "string \<Rightarrow> (provider_error + json) list \<Rightarrow> string \<Rightarrow> nat \<times> nat \<times> string" where
  "reply_usage prompt items tx =
     (if usages items = [] then (chars_count prompt div 4, chars_count tx div 4, ''estimated'')
      else (fst (last (usages items)), snd (last (usages items)), ''upstream''))"

lemma usages_snoc [simp]:
  "usages (xs @ [Inl err]) = usages xs" "usages [] = []"
  "usages (xs @ [Inr chunk]) =
     (case given_usage (jget ''usage'' chunk) of Some u \<Rightarrow> usages xs @ [u] | None \<Rightarrow> usages xs)"
  by (auto simp: usages_def List.map_filter_def split: option.split)

text \<open>The cells after the items \<open>pre\<close>: the text that was sent, and the last usage object.\<close>

definition cells_of :: "(provider_error + json) list \<Rightarrow> stream_run \<Rightarrow> bool" where
  "cells_of pre s \<longleftrightarrow> concat (sent_texts s) = sc_completion (sn_cells s) \<and>
     given_usage (sc_usage (sn_cells s)) = (if usages pre = [] then None else Some (last (usages pre)))"

definition heard :: "string \<Rightarrow> (provider_error + json) list \<Rightarrow> stream_run \<Rightarrow> bool" where
  "heard prompt items s \<longleftrightarrow> sn_prompt s = prompt \<and>
     (case sn_phase s of
        Chunks rest \<Rightarrow> \<exists>pre. items = pre @ rest \<and> cells_of pre s
      | Dropped \<Rightarrow> \<exists>pre rest. items = pre @ rest \<and> cells_of pre s \<and> (routes s \<noteq> [] \<longrightarrow> rest = [])
      | _ \<Rightarrow> cells_of items s)"

lemma cells_of_same:
  "sn_cells s' = sn_cells s \<Longrightarrow> sent_texts s' = sent_texts s \<Longrightarrow> cells_of pre s' = cells_of pre s"
  by (simp add: cells_of_def)

lemma map_chunk_usage:
  assumes "map_chunk chunk sc = (frame, sc')"
  shows "given_usage (sc_usage sc') =
    (if given_usage (jget ''usage'' chunk) \<noteq> None then given_usage (jget ''usage'' chunk) else given_usage (sc_usage sc))"
proof (cases "chunk_choices chunk")
  case None
  with assms show ?thesis by (auto simp: map_chunk_def note_usage_def)
next
  case (Some cs)
  obtain cs' sc1 where c: "map_choices cs (note_usage chunk sc) = (cs', sc1)" by fastforce
  with assms Some have "sc' = sc1" by (simp add: map_chunk_def)
  with map_choices_texts [OF c] show ?thesis by (simp add: note_usage_def)
qed

lemma poll_heard_chunk:
  assumes "heard prompt items s" and "sn_phase s = Chunks (x # rest)"
  shows "heard prompt items (poll s (sn_phase s))"
proof -
  from assms obtain pre where pre: "items = pre @ x # rest" "cells_of pre s" "sn_prompt s = prompt"
    by (auto simp: heard_def)
  have items: "items = (pre @ [x]) @ rest" using pre(1) by simp
  show ?thesis
  proof (cases x)
    case (Inl err)
    have "cells_of (pre @ [x]) (poll s (sn_phase s))"
      using pre(2) assms(2) Inl by (simp add: cells_of_def) (simp add: sent_texts_def)
    with items assms(2) Inl pre(3) show ?thesis unfolding heard_def by auto
  next
    case (Inr chunk)
    obtain frame sc where m: "map_chunk chunk (sn_cells s) = (frame, sc)" by fastforce
    have "cells_of (pre @ [x]) (poll s (sn_phase s))"
      using pre(2) assms(2) Inr m map_chunk_texts [OF m] map_chunk_usage [OF m]
      by (auto simp: cells_of_def sent_texts_def split: option.split)
    with items assms(2) Inr m pre(3) show ?thesis unfolding heard_def by auto
  qed
qed

lemma poll_heard_flush:
  assumes "heard prompt items s" and "sn_phase s = Flush"
  shows "heard prompt items (poll s (sn_phase s))"
proof -
  obtain tx st where f: "flush (sc_restore (sn_cells s)) = (tx, st)" by fastforce
  from assms have t: "cells_of items s" "sn_prompt s = prompt" by (simp_all add: heard_def)
  with f have "cells_of items (poll s (sn_phase s))"
    using assms(2) by (simp add: cells_of_def Let_def) (simp add: sent_texts_def)
  moreover have "sn_phase (poll s (sn_phase s)) = Terminal" "sn_prompt (poll s (sn_phase s)) = sn_prompt s"
    using assms(2) f by (simp_all add: Let_def)
  ultimately show ?thesis using t(2) by (simp add: heard_def)
qed

lemma stream_step_heard:
  assumes "stream_step s s'" and "stream_ok s" and "heard prompt items s"
  shows "heard prompt items s'"
  using assms
proof (induction rule: stream_step.induct)
  case (Poll s)
  show ?case
  proof (cases "sn_phase s")
    case (Chunks xs)
    show ?thesis
    proof (cases xs)
      case Nil
      with Chunks Poll(3) show ?thesis by (simp add: heard_def cells_of_def sent_texts_def)
    next
      case (Cons x rest)
      with Chunks Poll(3) poll_heard_chunk show ?thesis by blast
    qed
  next
    case Flush
    with Poll(3) poll_heard_flush show ?thesis by blast
  next
    case Terminal
    with Poll(3) show ?thesis by (simp add: heard_def cells_of_def sent_texts_def split: prod.splits)
  next
    case (Swapped p d source won)
    with Poll(3) show ?thesis by (auto simp: heard_def cells_of_def sent_texts_def Let_def)
  next
    case (Settled_up p d source)
    with Poll(3) show ?thesis by (simp add: heard_def cells_of_def sent_texts_def finish_def Let_def)
  qed (use Poll in simp_all)
next
  case (Drop s)
  have "routes s = []" if "running (sn_phase s)" using Drop(2) that by (auto simp: stream_ok_def)
  with Drop show ?case
    by (cases "sn_phase s")
      (auto simp: heard_def drop_body_def cells_of_def sent_texts_def count_defs Let_def)
next
  case (Task k s t s')
  have ph: "\<not> running (sn_phase s)" using Task(1,3) by (auto simp: stream_ok_def)
  have same: "sn_phase s' = sn_phase s \<and> sn_cells s' = sn_cells s \<and> sent_texts s' = sent_texts s \<and> routes s' = routes s \<and>
      sn_prompt s' = sn_prompt s"
    using Task(2)
    by (cases "dt_stage (sn_tasks s ! k)") (auto simp: sent_texts_def count_defs finish_def split: if_splits)
  with Task(4) ph show ?case
    by (cases "sn_phase s") (auto simp: heard_def cells_of_def sent_texts_def count_defs)
qed

lemma stream_reach_heard:
  assumes "stream_reach (open_stream c fl items) s"
  shows "heard (prompt_text (fl_payload fl)) items s"
  using assms
proof (induction rule: stream_reach.induct)
  case Opened
  show ?case by (simp add: heard_def cells_of_def open_stream_def sent_texts_def given_usage_def)
next
  case (Stepped s s')
  then show ?case using stream_step_heard stream_reach_progress by blast
qed

text \<open>At every moment the numbers of the cells are those of the reply so far.\<close>

lemma numbers_heard:
  assumes "stream_reach (open_stream c fl items) s"
  obtains pre rest where "items = pre @ rest"
    "numbers s = reply_usage (prompt_text (fl_payload fl)) pre (concat (sent_texts s))"
    "concat (sent_texts s) = sc_completion (sn_cells s)" "routes s \<noteq> [] \<Longrightarrow> rest = []"
proof -
  note h = stream_reach_heard [OF assms]
  have ok: "stream_ok s" using stream_reach_progress [OF assms] by blast
  then have r: "running (sn_phase s) \<Longrightarrow> routes s = []" by (simp add: stream_ok_def)
  have "\<exists>pre rest. items = pre @ rest \<and> cells_of pre s \<and> (routes s \<noteq> [] \<longrightarrow> rest = [])"
    using h r by (cases "sn_phase s") (auto simp: heard_def)
  then obtain pre rest where p: "items = pre @ rest" "cells_of pre s" "routes s \<noteq> [] \<longrightarrow> rest = []" by blast
  moreover have "numbers s = reply_usage (prompt_text (fl_payload fl)) pre (concat (sent_texts s))"
    using p(2) h
    by (auto simp: numbers_def usage_numbers_def reply_usage_def cells_of_def heard_def estimate_usage_def split: prod.split)
  ultimately show ?thesis using that by (simp add: cells_of_def)
qed

section \<open>Properties\<close>

lemma filter_single: "filter P xs = [e] \<Longrightarrow> e \<in> set xs \<and> P e"
  by (drule arg_cong [of _ _ set]) auto

definition quiescent :: "stream_run \<Rightarrow> bool" where
  "quiescent s \<longleftrightarrow> sn_phase s = Dropped \<and> sn_tasks s = []"

lemma accounted_once:
  assumes "stream_reach (open_stream c fl items) s"
  shows "length (audits s) \<le> 1 \<and> length (meters s) \<le> 1 \<and> length (routes s) \<le> 1 \<and>
    (quiescent s \<longrightarrow> length (audits s) = 1 \<and> length (meters s) = (if sn_lost s then 0 else 1))"
proof -
  have ok: "stream_ok s" using stream_reach_progress [OF assms] by blast
  have "quiescent s \<Longrightarrow> pending s = 0 \<and> sn_recorded s \<and> sn_finalized s"
    using ok by (auto simp: quiescent_def stream_ok_def pending_def)
  with ok show ?thesis by (auto simp: stream_ok_def split: if_splits)
qed

text \<open>The accounting of a reachable state, with its contents.\<close>

lemma accounted_contents:
  assumes "stream_reach (open_stream c fl items) s" and "numbers s = (p, d, source)"
  shows "meters s \<in> {[], [Metered (u64_as_i64 p) (u64_as_i64 d)]} \<and>
    routes s \<in> {[], [Routed (i64_add (u64_as_i64 p) (u64_as_i64 d))]} \<and>
    (audits s = [] \<or> (\<exists>code. audits s = [Audited code (u64_as_i64 p) (u64_as_i64 d) (sc_completion (sn_cells s)) source]))"
proof -
  have ok: "stream_ok s" using stream_reach_progress [OF assms(1)] by blast
  then have fits: "effect_fits s e" if "e \<in> set (sn_trace s)" for e using that by (simp add: stream_ok_def)
  note le = accounted_once [OF assms(1)]
  have one: "xs = [] \<or> (\<exists>e. xs = [e])" if "length xs \<le> 1" for xs :: "effect list"
    using that by (cases xs) auto
  have in_trace: "filter P (sn_trace s) = [e] \<Longrightarrow> effect_fits s e \<and> P e" for P e
    using filter_single [of P "sn_trace s" e] fits [of e] by blast
  have "meters s = [e] \<Longrightarrow> e = Metered (u64_as_i64 p) (u64_as_i64 d)" for e
    unfolding meters_def using assms(2) by (cases e) (auto simp: effect_fits_def dest!: in_trace)
  moreover have "routes s = [e] \<Longrightarrow> e = Routed (i64_add (u64_as_i64 p) (u64_as_i64 d))" for e
    unfolding routes_def using assms(2) by (cases e) (auto simp: effect_fits_def dest!: in_trace)
  moreover have "\<exists>code. e = Audited code (u64_as_i64 p) (u64_as_i64 d) (sc_completion (sn_cells s)) source"
    if "audits s = [e]" for e
    using in_trace [OF that [unfolded audits_def]] assms(2) by (cases e) (auto simp: effect_fits_def)
  ultimately show ?thesis using le one [of "meters s"] one [of "routes s"] one [of "audits s"] by blast
qed






text \<open>
  C19: (Truthful rows) A row "ok" of a stream is written only when every chunk of the provider arrived:
  its text is exactly what was sent to the client, which is the restored text of the whole reply; its
  numbers are those of the last usage object of the reply, or the estimate from the prompt and
  the restored text, marked as such; and the same numbers were metered and fed to routing.
\<close>

theorem ok_row_is_truthful:
  assumes "stream_reach (open_stream c fl items) s" and "Audited ''ok'' p d tx source \<in> set (sn_trace s)"
    and "vault_ok (ds_vault (fl_dlp fl))" and "separate (ds_vault (fl_dlp fl))"
  shows "\<not> failed items \<and> tx = concat (sent_texts s) \<and>
    tx = deanonymize (concat (received items)) (ds_vault (fl_dlp fl)) (ds_scope (fl_dlp fl)) (restore_policy c) \<and>
    (\<exists>prompt completion. reply_usage (prompt_text (fl_payload fl)) items tx = (prompt, completion, source) \<and>
       p = u64_as_i64 prompt \<and> d = u64_as_i64 completion) \<and>
    meters s = [Metered p d] \<and> routes s = [Routed (i64_add p d)]"
proof -
  have ok: "stream_ok s" and pr: "progress (stream_restore_session c (fl_dlp fl)) items s"
    using stream_reach_progress [OF assms(1)] by blast+
  have fits: "\<forall>e \<in> set (sn_trace s). effect_fits s e" using ok by (simp add: stream_ok_def)
  with assms(2) have a: "effect_fits s (Audited ''ok'' p d tx source)" by blast
  then have r: "routes s \<noteq> []" "\<not> sc_error (sn_cells s)" "tx = sc_completion (sn_cells s)"
    by (auto simp: effect_fits_def final_code_def Let_def split: prod.splits if_splits)
  have "\<not> running (sn_phase s)" using ok r(1) by (auto simp: stream_ok_def)
  with pr r(1) have served: "served_ok (stream_restore_session c (fl_dlp fl)) items s" "meters s \<noteq> []"
    by (cases "sn_phase s"; simp add: progress_def)+
  have le: "length (meters s) = 1" "length (routes s) = 1"
    using accounted_once [OF assms(1)] served(2) r(1)
    by (metis One_nat_def le_antisym length_greater_0_conv Suc_leI)+
  obtain e where m: "meters s = [e]" using le(1) by (auto simp: length_Suc_conv)
  then have "e \<in> set (sn_trace s)" "case e of Metered p d \<Rightarrow> True | _ \<Rightarrow> False"
    unfolding meters_def by (blast dest: filter_single)+
  with fits a m have "meters s = [Metered p d]"
    by (cases e) (auto simp: effect_fits_def Let_def split: prod.splits)
  moreover obtain e' where m': "routes s = [e']" using le(2) by (auto simp: length_Suc_conv)
  then have "e' \<in> set (sn_trace s)" "case e' of Routed n \<Rightarrow> True | _ \<Rightarrow> False"
    unfolding routes_def by (blast dest: filter_single)+
  with fits a m' have "routes s = [Routed (i64_add p d)]"
    by (cases e') (auto simp: effect_fits_def Let_def split: prod.splits)
  moreover have "streamed (received items) (stream_restore_session c (fl_dlp fl)) =
      deanonymize (concat (received items)) (ds_vault (fl_dlp fl)) (ds_scope (fl_dlp fl)) (restore_policy c)"
    unfolding stream_restore_session_def by (rule streaming_restored [OF assms(3,4)])
  moreover obtain prompt completion where "numbers s = (prompt, completion, source)"
      "p = u64_as_i64 prompt" "d = u64_as_i64 completion"
    using a by (cases "numbers s") (auto simp: effect_fits_def Let_def)
  moreover from r(1) have "numbers s = reply_usage (prompt_text (fl_payload fl)) items (sc_completion (sn_cells s))"
    by (rule_tac numbers_heard [OF assms(1)]) simp
  ultimately show ?thesis using served(1) r(2,3) by (auto simp: served_ok_def)
qed

text \<open>Every step uses up work.\<close>

fun phase_work :: "phase \<Rightarrow> nat" where
  "phase_work (Chunks xs) = 12 + length xs"
| "phase_work Flush = 11"
| "phase_work Terminal = 10"
| "phase_work (Swapped p d source won) = 9"
| "phase_work (Settled_up p d source) = 8"
| "phase_work Served = 4"
| "phase_work Dropped = 0"

fun stage_work :: "stage \<Rightarrow> nat" where
  "stage_work Spawned = 3" | "stage_work (Metering won) = 2" | "stage_work Finishing = 1"

definition work :: "stream_run \<Rightarrow> nat" where
  "work s = phase_work (sn_phase s) + (\<Sum>t\<leftarrow>sn_tasks s. stage_work (dt_stage t))"

lemma work_spawn [simp]: "work (spawn_drop s) = work s + 3"
  by (rule spawn_drop_tasks [of s]) (simp add: work_def)

lemma step_uses_work: "stream_step s s' \<Longrightarrow> work s' < work s"
proof (induction rule: stream_step.induct)
  case (Poll s)
  have w: "work (emit es s') = work s'" for es s' by (simp add: work_def)
  show ?case
  proof (cases "sn_phase s")
    case (Chunks xs)
    then show ?thesis by (cases xs; cases "hd xs") (auto simp: work_def split: prod.splits)
  next
    case (Settled_up p d source)
    then show ?thesis by (simp add: Let_def) (simp add: work_def)
  qed (use Poll in \<open>auto simp: work_def Let_def split: prod.splits\<close>)
next
  case (Drop s)
  then show ?case by (cases "sn_phase s") (simp_all add: drop_body_def Let_def, simp_all add: work_def)
next
  case (Task k s t s')
  let ?ts = "sn_tasks s"
  have ts: "?ts = take k ?ts @ ?ts ! k # drop (Suc k) ?ts" by (rule task_list [OF Task(1)])
  have ph: "sn_phase s' = sn_phase s"
    using Task(2) by (cases "dt_stage (?ts ! k)") (auto split: if_splits)
  have "(\<Sum>t\<leftarrow>put_task k t ?ts. stage_work (dt_stage t)) < (\<Sum>t\<leftarrow>?ts. stage_work (dt_stage t))"
    using Task(1,2)
    by (subst (2) ts, cases "dt_stage (?ts ! k)") (auto simp: put_task_def upd_conv_take_nth_drop)
  with ph show ?case by (simp add: work_def)
qed

lemma step_enabled: "\<not> quiescent s \<Longrightarrow> \<exists>s'. stream_step s s'"
proof (cases "sn_phase s = Dropped")
  case True
  assume "\<not> quiescent s"
  with True have "0 < length (sn_tasks s)" by (simp add: quiescent_def)
  then show ?thesis using stream_step.Task [of 0 s] by (metis surj_pair)
next
  case False
  then show ?thesis using stream_step.Drop by blast
qed

lemma quiescent_stuck: "quiescent s \<Longrightarrow> \<not> stream_step s s'"
  by (auto simp: quiescent_def elim: stream_step.cases)

lemma reach_quiescent: "\<exists>s'. stream_reach s s' \<and> quiescent s'"
proof (induction "work s" arbitrary: s rule: less_induct)
  case less
  show ?case
  proof (cases "quiescent s")
    case True
    then show ?thesis using Opened by blast
  next
    case False
    then obtain s1 where s1: "stream_step s s1" using step_enabled by blast
    with less [OF step_uses_work [OF s1]] obtain s' where "stream_reach s1 s'" "quiescent s'" by blast
    moreover have "stream_reach s s1" using Opened s1 by (rule Stepped)
    ultimately show ?thesis using stream_reach_trans by blast
  qed
qed

text \<open>
  C20: (Every stream is finished) From every reachable state the run ends, whatever is scheduled, after
  at most as many steps as its remaining work, which starts at twelve plus the number of chunks;
  it stops only when the body is gone and every task has run, some run gets there, and the audit
  row has been written then.
\<close>

theorem stream_finishes:
  assumes "stream_reach (open_stream c fl items) s"
  shows "work s \<le> length items + 12 \<and> (\<forall>s'. stream_step s s' \<longrightarrow> work s' < work s) \<and>
    (quiescent s \<longleftrightarrow> (\<forall>s'. \<not> stream_step s s')) \<and> (\<exists>s'. stream_reach s s' \<and> quiescent s') \<and>
    (\<forall>s'. stream_reach s s' \<longrightarrow> quiescent s' \<longrightarrow> (\<exists>code p d tx source. audits s' = [Audited code p d tx source]))"
proof -
  have "work s \<le> length items + 12"
    using assms
  proof (induction rule: stream_reach.induct)
    case Opened
    show ?case by (simp add: work_def open_stream_def)
  next
    case (Stepped s s')
    then show ?case using step_uses_work [of s s'] by simp
  qed
  moreover have "\<exists>code p d tx source. audits s' = [Audited code p d tx source]"
    if "stream_reach s s'" "quiescent s'" for s'
  proof -
    have r: "stream_reach (open_stream c fl items) s'" by (rule stream_reach_trans [OF that(1) assms])
    obtain p d source where "numbers s' = (p, d, source)" by (metis prod_cases3)
    from accounted_contents [OF r this] accounted_once [OF r] that(2) show ?thesis by auto
  qed
  ultimately show ?thesis using step_uses_work step_enabled quiescent_stuck reach_quiescent by blast
qed

lemma tasks_run_out:
  assumes "stream_reach s0 s" and "sn_phase s = Dropped"
  shows "\<exists>s'. stream_reach s0 s' \<and> quiescent s' \<and> sn_lost s' = sn_lost s \<and> numbers s' = numbers s"
  using assms
proof (induction "work s" arbitrary: s rule: less_induct)
  case less
  show ?case
  proof (cases "quiescent s")
    case False
    with less.prems(2) have k: "0 < length (sn_tasks s)" by (simp add: quiescent_def)
    obtain t s' where r: "run_task (sn_tasks s ! 0) (dt_stage (sn_tasks s ! 0)) s = (t, s')" by fastforce
    let ?s = "s'\<lparr>sn_tasks := put_task 0 t (sn_tasks s)\<rparr>"
    have st: "stream_step s ?s" using stream_step.Task [OF k r] .
    have "sn_phase s' = sn_phase s" "sn_lost s' = sn_lost s" "numbers s' = numbers s"
      using r by (cases "dt_stage (sn_tasks s ! 0)"; auto simp: numbers_def split: if_splits)+
    then have "sn_phase ?s = Dropped" "sn_lost ?s = sn_lost s" "numbers ?s = numbers s"
      using less.prems(2) by (simp_all add: numbers_def)
    with less.hyps [OF step_uses_work [OF st]] Stepped [OF less.prems(1) st] show ?thesis by simp
  qed (use less.prems in blast)
qed

text \<open>
  C33: (A lost settlement) A stream whose usage is being settled when the client disconnects is never
  metered, although all its chunks were served: its reserve stays open, and its row says
  "cancelled" (or "upstream_error").
\<close>

theorem disconnect_loses_settlement:
  assumes "stream_reach (open_stream c fl items) s" and "sn_phase s = Swapped p d source True"
  shows "\<exists>s'. stream_reach (open_stream c fl items) s' \<and> quiescent s' \<and> meters s' = [] \<and>
    (\<exists>code tx u. audits s' = [Audited code (u64_as_i64 p) (u64_as_i64 d) tx u] \<and> code \<noteq> ''ok'')"
proof -
  have "stream_step s (drop_body s)" using assms(2) by (auto intro: stream_step.Drop)
  then have r: "stream_reach (open_stream c fl items) (drop_body s)" using assms(1) Stepped by blast
  have n: "numbers s = (p, d, source)"
    using stream_reach_progress [OF assms(1)] assms(2) by (auto simp: stream_ok_def)
  have "sn_phase (drop_body s) = Dropped" "sn_lost (drop_body s)" "numbers (drop_body s) = numbers s"
    using assms(2) by (simp_all add: drop_body_def numbers_def)
  with tasks_run_out [OF r] obtain s' where s': "stream_reach (open_stream c fl items) s'" "quiescent s'" "sn_lost s'"
    "numbers s' = (p, d, source)" using n by auto
  have ok: "stream_ok s'" and pr: "progress (stream_restore_session c (fl_dlp fl)) items s'"
    using stream_reach_progress [OF s'(1)] by blast+
  have m: "meters s' = []" and a: "length (audits s') = 1" using accounted_once [OF s'(1)] s'(2,3) by auto
  have rt: "routes s' = []" using pr m s'(2) by (auto simp: progress_def quiescent_def)
  obtain e where e: "audits s' = [e]" using a by (auto simp: length_Suc_conv)
  then have t: "e \<in> set (sn_trace s')" "case e of Audited c p d t u \<Rightarrow> True | _ \<Rightarrow> False"
    unfolding audits_def by (blast dest: filter_single)+
  then have "effect_fits s' e" using ok by (simp add: stream_ok_def)
  with t(2) rt s'(4) have "\<exists>code tx u. e = Audited code (u64_as_i64 p) (u64_as_i64 d) tx u \<and> code \<noteq> ''ok''"
    by (cases e) (auto simp: effect_fits_def final_code_def)
  with s'(1,2) m e show ?thesis by auto
qed

lemma held_bracket:
  assumes "CHR ''['' \<notin> set u"
  shows "hold_back (u @ ''['') = (u, ''['')"
proof -
  have "rfind_char CHR ''['' (u @ CHR ''['' # []) = Some (length u)" by (rule rfind_char_append) simp
  then show ?thesis by (simp add: hold_back_def partial_token_def)
qed

lemma released_bracket:
  assumes "CHR ''['' \<notin> set v"
  shows "hold_back (''[ '' @ v) = (''[ '' @ v, [])"
proof -
  have "rfind_char CHR ''['' ([] @ CHR ''['' # CHR '' '' # v) = Some (length ([] :: string))"
    by (rule rfind_char_append) (use assms in simp)
  then show ?thesis
    by (simp add: hold_back_def partial_token_def is_ascii_alphanumeric_def is_digit_def is_upper_def is_lower_def byte_def)
qed

text \<open>
  C37: (One session for all choices) A chunk with two choices is restored through one session: an opening
  bracket that is held back from the first choice comes out in front of the second choice's text.
\<close>

theorem choices_share_session:
  assumes "delta_content c0 = Some (u @ ''['')" and "delta_content c1 = Some ('' '' @ v)"
    and "CHR ''['' \<notin> set u" and "CHR ''['' \<notin> set v" and "sr_carry (sc_restore sc) = []"
    and "map_choices [c0, c1] sc = (cs, sc')"
  shows "map delta_content cs =
    [Some (stream_text (sc_restore sc) u), Some (stream_text (sc_restore sc) (''[ '' @ v))]"
proof -
  let ?st = "(sc_restore sc)\<lparr>sr_carry := ''[''\<rparr>"
  have f: "feed (u @ ''['') (sc_restore sc) = (stream_text (sc_restore sc) u, ?st)"
    using held_bracket [OF assms(3)] assms(5) by (simp add: feed_def)
  have g: "feed ('' '' @ v) ?st = (stream_text (sc_restore sc) (''[ '' @ v), ?st\<lparr>sr_carry := []\<rparr>)"
    using released_bracket [OF assms(4)] by (simp add: feed_def) (simp add: stream_text_def)
  have d: "delta_content c0 \<noteq> None" "delta_content c1 \<noteq> None" using assms(1,2) by simp_all
  from assms(6) f g have "cs = [put_delta_content (stream_text (sc_restore sc) u) c0,
      put_delta_content (stream_text (sc_restore sc) (''[ '' @ v)) c1]"
    by (auto simp: map_choice_def assms(1,2) split: prod.splits)
  with d show ?thesis by simp
qed

section \<open>Instances\<close>

lemma polls_reach_terminal:
  assumes "stream_reach s0 s" and "sn_phase s = Chunks xs"
  shows "\<exists>s'. stream_reach s0 s' \<and> sn_phase s' = Terminal"
  using assms
proof (induction xs arbitrary: s)
  case Nil
  let ?f = "s\<lparr>sn_phase := Flush\<rparr>"
  have "stream_reach s0 ?f" using Stepped [OF Nil(1)] stream_step.Poll [of s] Nil(2) by simp
  from Stepped [OF this] stream_step.Poll [of ?f] have "stream_reach s0 (poll ?f Flush)" by simp
  moreover have "sn_phase (poll ?f Flush) = Terminal" by (simp add: Let_def split: prod.splits)
  ultimately show ?case by blast
next
  case (Cons x xs)
  have "stream_reach s0 (poll s (Chunks (x # xs)))"
    using Stepped [OF Cons.prems(1)] stream_step.Poll [of s] Cons.prems(2) by simp
  moreover have "sn_phase (poll s (Chunks (x # xs))) = Chunks xs" by (cases x) (simp_all split: prod.splits)
  ultimately show ?case using Cons.IH by blast
qed

lemma terminal_swaps:
  assumes "stream_reach (open_stream c fl items) s" and "sn_phase s = Terminal"
  obtains s' p d source where "stream_reach (open_stream c fl items) s'" "sn_phase s' = Swapped p d source True"
proof -
  obtain p d source where n: "usage_numbers (sn_prompt s) (sn_cells s) = (p, d, source)" by (metis prod_cases3)
  have "\<not> sn_recorded s" using stream_reach_progress [OF assms(1)] assms(2) by (simp add: stream_ok_def)
  with n have "sn_phase (poll s Terminal) = Swapped p d source True" by simp
  moreover have "stream_reach (open_stream c fl items) (poll s Terminal)"
    using Stepped [OF assms(1)] stream_step.Poll [of s] assms(2) by simp
  ultimately show ?thesis using that by blast
qed

lemma stream_serves:
  assumes "\<not> failed items"
  shows "\<exists>s p d tx source. stream_reach (open_stream c fl items) s \<and> sn_phase s = Served \<and>
    Audited ''ok'' p d tx source \<in> set (sn_trace s)"
proof -
  let ?o = "open_stream c fl items"
  have "sn_phase ?o = Chunks items" by (simp add: open_stream_def)
  then obtain t where t: "stream_reach ?o t" "sn_phase t = Terminal" using polls_reach_terminal [OF Opened] by blast
  obtain s p d source where s: "stream_reach ?o s" "sn_phase s = Swapped p d source True"
    using terminal_swaps [OF t] by blast
  let ?u = "poll s (Swapped p d source True)"
  have u: "stream_reach ?o ?u" "sn_phase ?u = Settled_up p d source"
    using Stepped [OF s(1)] stream_step.Poll [of s] s(2) by simp_all
  let ?v = "poll ?u (Settled_up p d source)"
  have v: "stream_reach ?o ?v" "sn_phase ?v = Served"
    using Stepped [OF u(1)] stream_step.Poll [of ?u] u(2) by (simp_all add: Let_def)
  have "stream_ok ?u" "served_ok (stream_restore_session c (fl_dlp fl)) items ?u"
    using stream_reach_progress [OF u(1)] u(2) by (simp_all add: progress_def)
  then have "\<not> sn_finalized ?u" "\<not> sc_error (sn_cells ?u)"
    using u(2) assms by (simp_all add: stream_ok_def served_ok_def)
  then have "Audited ''ok'' (u64_as_i64 p) (u64_as_i64 d) (sc_completion (sn_cells ?u)) source \<in> set (sn_trace ?v)"
    by (simp add: finish_def final_code_def Let_def)
  with v show ?thesis by blast
qed

definition demo_items :: "(provider_error + json) list" where
  "demo_items = [Inr (JObj [(''choices'', JArr [JObj [(''delta'', JObj [(''content'', JStr ''masked [EMA'')])]])]),
     Inr (JObj [(''choices'', JArr [JObj [(''delta'', JObj [(''content'', JStr ''IL_x'')])]])])]"

lemma demo_received: "received demo_items = [''masked [EMA'', ''IL_x'']" "\<not> failed demo_items"
  by (simp_all add: received_def demo_items_def item_texts_def frame_texts_def chunk_choices_def delta_content_def
      List.map_filter_simps failed_def)

abbreviation demo_stream :: stream_run where
  "demo_stream \<equiv> open_stream (demo_chain ''off'' ''mask'') demo_flight demo_items"


theorem ok_row_is_truthful_witness:
  "\<exists>s tx. stream_reach demo_stream s \<and> tx = concat (sent_texts s) \<and>
     tx = deanonymize ''masked [EMAIL_x'' demo_vault demo_scope ''restore''"
proof -
  obtain s p d tx source where s: "stream_reach demo_stream s" "Audited ''ok'' p d tx source \<in> set (sn_trace s)"
    using stream_serves [OF demo_received(2)] by blast
  have "vault_ok (ds_vault (fl_dlp demo_flight))" "separate (ds_vault (fl_dlp demo_flight))"
    using demo_vault_ok demo_separate by (simp_all add: demo_flight_def)
  from ok_row_is_truthful [OF s this] s(1) show ?thesis
    by (auto simp: demo_received demo_flight_def)
qed

theorem stream_finishes_witness:
  "work demo_stream \<le> 14 \<and> \<not> quiescent demo_stream"
  using stream_finishes [OF Opened, of "demo_chain ''off'' ''mask''" demo_flight demo_items] step_enabled
  by (simp add: demo_items_def quiescent_def open_stream_def)

theorem disconnect_loses_settlement_witness:
  "\<exists>s. stream_reach demo_stream s \<and> quiescent s \<and> meters s = []"
proof -
  have "sn_phase demo_stream = Chunks demo_items" by (simp add: open_stream_def)
  then obtain t where t: "stream_reach demo_stream t" "sn_phase t = Terminal"
    using polls_reach_terminal [OF Opened] by blast
  obtain s p d source where s: "stream_reach demo_stream s" "sn_phase s = Swapped p d source True"
    using terminal_swaps [OF t] by blast
  from disconnect_loses_settlement [OF s] show ?thesis by blast
qed

theorem choices_share_session_witness:
  "map delta_content (fst (map_choices
      [JObj [(''delta'', JObj [(''content'', JStr ''list: ['')])], JObj [(''delta'', JObj [(''content'', JStr '' ok'')])]]
      \<lparr>sc_restore = new_stream_restore [] [] ''restore'', sc_completion = [], sc_usage = None, sc_error = False\<rparr>))
   = [Some ''list: '', Some ''[ ok'']"
proof -
  let ?c0 = "JObj [(''delta'', JObj [(''content'', JStr ''list: ['')])]"
  let ?c1 = "JObj [(''delta'', JObj [(''content'', JStr '' ok'')])]"
  let ?sc = "\<lparr>sc_restore = new_stream_restore [] [] ''restore'', sc_completion = [], sc_usage = None, sc_error = False\<rparr>"
  obtain cs sc' where m: "map_choices [?c0, ?c1] ?sc = (cs, sc')" by fastforce
  have "map delta_content cs = [Some (stream_text (sc_restore ?sc) ''list: ''), Some (stream_text (sc_restore ?sc) (''[ '' @ ''ok''))]"
    by (rule choices_share_session [OF _ _ _ _ _ m]) (simp_all add: delta_content_def new_stream_restore_def)
  with m show ?thesis by (simp add: stream_text_def new_stream_restore_def deanonymize_def)
qed

end
