(* ===== verification/Gateway_Traffic.thy ===== *)
theory Gateway_Traffic
  imports Streaming "HOL-Library.Multiset"
begin

text \<open>
  All chat requests of a gateway with the in-memory store over one day, interleaved: requests begin,
  finish, stream and are abandoned in any order, and published attacks reach the router at any
  time.  This traffic is shown to refine the ledger of \<open>Metering_Ledger\<close>: its store is the store of
  a ledger whose open reservations are those of the requests in flight and of the abandoned ones.
\<close>

record flow =
  fw_state :: "mem_store gateway_state"
  fw_flying :: "in_flight list"
  fw_left :: "in_flight list"
  fw_ids :: "string list"
  fw_volume :: int

definition start_flow :: "mem_store gateway_state \<Rightarrow> flow" where
  "start_flow st = \<lparr>fw_state = st, fw_flying = [], fw_left = [], fw_ids = [], fw_volume = 0\<rparr>"

definition reservation_id :: "inputs \<Rightarrow> string" where
  "reservation_id i = hex16 (in_rsv1 i) @ hex16 (in_rsv2 i)"

definition reservations :: "flow \<Rightarrow> reservation option multiset" where
  "reservations f = mset (map fl_reservation (fw_flying f @ fw_left f))"

text \<open>What a request asks for, and whether a result's numbers fit an \<open>i64\<close>.\<close>

definition chat_volume :: "metering \<Rightarrow> string + chat_request \<Rightarrow> int" where
  "chat_volume m parsed =
     (case parsed of Inl rejection \<Rightarrow> 0
      | Inr body \<Rightarrow> asked m (u64_as_i64 (fst (estimate_usage (request_text body) []))) (cr_max_tokens body))"

definition settled_usage :: "in_flight \<Rightarrow> provider_error + json \<Rightarrow> response \<Rightarrow> nat \<times> nat" where
  "settled_usage fl result resp =
     (case result of Inl err \<Rightarrow> (fl_prompt_est fl, 0)
      | Inr completion \<Rightarrow> (let (p, d, source) = completion_usage JNull (snd resp) in (p, d)))"

definition fits :: "nat \<times> nat \<Rightarrow> bool" where
  "fits u \<longleftrightarrow> int (fst u) \<le> i64_max \<and> int (snd u) \<le> i64_max"

fun accounting :: "effect \<Rightarrow> bool" where
  "accounting (Metered p d) = True" | "accounting _ = False"

inductive gateway_step :: "mem_store gateway \<Rightarrow> metering \<Rightarrow> string \<Rightarrow> flow \<Rightarrow> flow \<Rightarrow> bool"
  for gw m day where
  Answer: "chat_begin gw i h parsed (fw_state f) = Some (Reply a, st) \<Longrightarrow> day_string (in_now2 i) = day \<Longrightarrow>
    gateway_step gw m day f (f\<lparr>fw_state := st, fw_volume := fw_volume f + chat_volume m parsed\<rparr>)"
| Begin: "chat_begin gw i h parsed (fw_state f) = Some (In_flight fl, st) \<Longrightarrow> day_string (in_now2 i) = day \<Longrightarrow>
    reservation_id i \<notin> set (fw_ids f) \<Longrightarrow>
    gateway_step gw m day f (f\<lparr>fw_state := st, fw_flying := fl # fw_flying f, fw_ids := reservation_id i # fw_ids f,
      fw_volume := fw_volume f + chat_volume m parsed\<rparr>)"
| Crash: "chat_begin gw i h parsed (fw_state f) = Some (Crashed, st) \<Longrightarrow> gateway_step gw m day f (f\<lparr>fw_state := st\<rparr>)"
| Finish: "fl \<in> set (fw_flying f) \<Longrightarrow> chat_finish gw i fl result (fw_state f) = Some (a, st) \<Longrightarrow>
    day_string (in_now i) = day \<Longrightarrow> fits (settled_usage fl result a) \<Longrightarrow>
    gateway_step gw m day f (f\<lparr>fw_state := st, fw_flying := remove1 fl (fw_flying f),
      fw_volume := fw_volume f + int (fst (settled_usage fl result a)) + int (snd (settled_usage fl result a))\<rparr>)"
| Unopened: "fl \<in> set (fw_flying f) \<Longrightarrow> stream_open_failed gw i fl err (fw_state f) = (a, st) \<Longrightarrow>
    day_string (in_now i) = day \<Longrightarrow> fits (estimate_usage (prompt_text (fl_payload fl)) []) \<Longrightarrow>
    gateway_step gw m day f (f\<lparr>fw_state := st, fw_flying := remove1 fl (fw_flying f),
      fw_volume := fw_volume f + int (fst (estimate_usage (prompt_text (fl_payload fl)) []))\<rparr>)"
| Stream_metered: "fl \<in> set (fw_flying f) \<Longrightarrow> day_string (in_now i) = day \<Longrightarrow> fits (p, d) \<Longrightarrow>
    gateway_step gw m day f (f\<lparr>fw_state := apply_effect gw i fl (Metered (u64_as_i64 p) (u64_as_i64 d)) (fw_state f),
      fw_flying := remove1 fl (fw_flying f), fw_volume := fw_volume f + int p + int d\<rparr>)"
| Stream_effect: "\<not> accounting eff \<Longrightarrow>
    gateway_step gw m day f (f\<lparr>fw_state := apply_effect gw i fl eff (fw_state f)\<rparr>)"
| Abandon: "fl \<in> set (fw_flying f) \<Longrightarrow>
    gateway_step gw m day f (f\<lparr>fw_flying := remove1 fl (fw_flying f), fw_left := fl # fw_left f\<rparr>)"
| Attack: "gs_attacks (fw_state f) = (severity, rule, client) # rest \<Longrightarrow>
    gateway_step gw m day f (f\<lparr>fw_state := (fw_state f)\<lparr>gs_attacks := rest,
      gs_router := on_attack_detected now (gs_router (fw_state f)) severity client\<rparr>\<rparr>)"

inductive gateway_traffic :: "mem_store gateway \<Rightarrow> metering \<Rightarrow> string \<Rightarrow> flow \<Rightarrow> flow \<Rightarrow> bool"
  for gw m day f0 where
  Open: "gateway_traffic gw m day f0 f0"
| More: "gateway_traffic gw m day f0 f \<Longrightarrow> gateway_step gw m day f f' \<Longrightarrow> gateway_traffic gw m day f0 f'"

section \<open>The ledger behind the traffic\<close>

definition behind :: "metering \<Rightarrow> string \<Rightarrow> mem_store ledger \<Rightarrow> flow \<Rightarrow> bool" where
  "behind m day l f \<longleftrightarrow> traffic in_memory m day (start_ledger mem_empty) l \<and> lg_store l = gs_store (fw_state f) \<and>
     lg_volume l \<le> fw_volume f \<and> set (rids l) \<subseteq> set (fw_ids f) \<and>
     image_mset Some (mset (lg_open l)) = reservations f"

lemma admit_memory:
  assumes "admit in_memory now r1 r2 m c p md est cap s = (r, s')"
  shows "(\<exists>rsv. r = Inr rsv) \<or> (\<exists>scope limit. r = Inl (QuotaExceeded scope limit))"
  using assms
  by (auto simp: admit_def ensure_ready_def in_memory_def mem_ping_def mem_reserve_def Let_def split: if_splits)

lemma admit_chat_memory:
  assumes "admit_chat gw i lc est cap st = (r, st')" and "gw_metering gw = Some m" and "gw_ops gw = in_memory"
  shows "\<exists>a. admit in_memory (in_now2 i) (in_rsv1 i) (in_rsv2 i) m (lc_client lc) (lc_provider lc) (lc_model lc)
      (u64_as_i64 est) cap (gs_store st) = (a, gs_store st') \<and>
    (case r of Inl refusal \<Rightarrow> (\<exists>e. a = Inl e) | Inr rsv \<Rightarrow> (\<exists>x. a = Inr x \<and> rsv = Some x))"
proof -
  obtain a s where a: "admit in_memory (in_now2 i) (in_rsv1 i) (in_rsv2 i) m (lc_client lc) (lc_provider lc) (lc_model lc)
      (u64_as_i64 est) cap (gs_store st) = (a, s)" by fastforce
  from admit_memory [OF a] a assms show ?thesis by (auto simp: admit_chat_def)
qed

lemma chat_begin_store:
  assumes "chat_begin gw i h parsed st = Some (b, st')" and "gw_metering gw = Some m" and "gw_ops gw = in_memory"
  shows "gs_store st' = gs_store st \<and> (\<forall>fl. b \<noteq> In_flight fl) \<or>
    (\<exists>body c p a. parsed = Inr body \<and> admit in_memory (in_now2 i) (in_rsv1 i) (in_rsv2 i) m c p (cr_model body)
       (u64_as_i64 (fst (estimate_usage (request_text body) []))) (cr_max_tokens body) (gs_store st) = (a, gs_store st') \<and>
     (case b of Reply x \<Rightarrow> (\<exists>e. a = Inl e) | In_flight fl \<Rightarrow> (\<exists>x. a = Inr x \<and> fl_reservation fl = Some x) | Crashed \<Rightarrow> False))"
  using assms(1)
proof (cases rule: chat_begin_cases)
  case (Unrouted body client refusal)
  with route_keeps [OF Unrouted(3)] show ?thesis by simp
next
  case (Invalid body client target e)
  with route_target [OF Invalid(3)] show ?thesis by simp
next
  case (Unconfigured body client provider concrete st1)
  with route_target [OF Unconfigured(3)] show ?thesis by simp
next
  case (Panicked body client provider concrete)
  with route_target [OF Panicked(3)] show ?thesis by simp
next
  case (Blocked body client provider concrete st1 out e)
  with route_target [OF Blocked(3)] show ?thesis by simp
next
  case (Denied body client provider concrete st1 out refusal)
  from admit_chat_memory [OF Denied(8) assms(2,3)] route_target [OF Denied(3)] Denied(1,7) show ?thesis
    by (auto simp: chat_life_def)
next
  case (Sent body client provider concrete st1 out rsv st2)
  from admit_chat_memory [OF Sent(8) assms(2,3)] route_target [OF Sent(3)] Sent(1,9,10) show ?thesis
    by (auto simp: chat_life_def)
qed simp_all

lemma asked_pos: "0 < asked m est cap"
  by (simp add: asked_def)

lemma chat_volume_nonneg: "0 \<le> chat_volume m parsed"
  using asked_pos by (cases parsed) (auto simp: chat_volume_def intro: less_imp_le)

lemma u64_as_i64_fits: "int n \<le> i64_max \<Longrightarrow> u64_as_i64 n = int n"
  by (simp add: u64_as_i64_def in_i64_def i64_min_def)

text \<open>A step that leaves the store and the requests alone.\<close>

lemma behind_idle:
  assumes "behind m day l f" and "gs_store (fw_state f') = gs_store (fw_state f)" and "fw_volume f \<le> fw_volume f'"
    and "set (fw_ids f) \<subseteq> set (fw_ids f')" and "reservations f' = reservations f"
  shows "behind m day l f'"
  using assms by (auto simp: behind_def)

lemma behind_refused:
  assumes "behind m day l f" and "day_string now = day"
    and "admit in_memory now r1 r2 m c p md est cap (gs_store (fw_state f)) = (Inl e, gs_store st)"
  shows "\<exists>l'. behind m day l' (f\<lparr>fw_state := st, fw_volume := fw_volume f + asked m est cap\<rparr>)"
proof -
  let ?l = "l\<lparr>lg_store := gs_store st, lg_volume := lg_volume l + asked m est cap\<rparr>"
  have "ledger_step in_memory m day l ?l"
    using assms by (intro Refused [OF assms(2)]) (simp add: behind_def)
  then have "behind m day ?l (f\<lparr>fw_state := st, fw_volume := fw_volume f + asked m est cap\<rparr>)"
    using assms(1) by (auto simp: behind_def reservations_def rids_def intro: traffic.Next)
  then show ?thesis by blast
qed

lemma behind_admitted:
  assumes "behind m day l f" and "day_string now = day"
    and a: "admit in_memory now r1 r2 m c p md est cap (gs_store (fw_state f)) = (Inr r, gs_store st)"
    and "hex16 r1 @ hex16 r2 \<notin> set (fw_ids f)" and "fl_reservation fl = Some r"
  shows "\<exists>l'. behind m day l' (f\<lparr>fw_state := st, fw_flying := fl # fw_flying f,
    fw_ids := (hex16 r1 @ hex16 r2) # fw_ids f, fw_volume := fw_volume f + asked m est cap\<rparr>)"
proof -
  let ?l = "l\<lparr>lg_store := gs_store st, lg_open := r # lg_open l, lg_volume := lg_volume l + asked m est cap\<rparr>"
  have r: "rsv_id r = hex16 r1 @ hex16 r2" using mem_admitted [OF a] by (simp add: new_reservation_def)
  have "rsv_id r \<notin> set (rids l)" using assms(1,4) r by (auto simp: behind_def)
  then have "ledger_step in_memory m day l ?l"
    using assms(1) a by (intro Admitted [OF assms(2)]) (simp_all add: behind_def)
  then have "behind m day ?l (f\<lparr>fw_state := st, fw_flying := fl # fw_flying f,
      fw_ids := (hex16 r1 @ hex16 r2) # fw_ids f, fw_volume := fw_volume f + asked m est cap\<rparr>)"
    using assms(1,5) r by (auto simp: behind_def reservations_def rids_def intro: traffic.Next)
  then show ?thesis by blast
qed

lemma mset_map_remove1: "x \<in> set xs \<Longrightarrow> mset (map g xs) = add_mset (g x) (mset (map g (remove1 x xs)))"
  by (induction xs) auto

lemma reservations_remove:
  assumes "fl \<in> set (fw_flying f)"
  shows "reservations f = add_mset (fl_reservation fl) (mset (map fl_reservation (remove1 fl (fw_flying f) @ fw_left f)))"
  unfolding reservations_def map_append mset_append mset_map_remove1 [OF assms] by simp

lemma reserved_in_flight:
  assumes "behind m day l f" and "fl \<in> set (fw_flying f)"
  shows "\<exists>r. fl_reservation fl = Some r"
proof -
  have "fl_reservation fl \<in># image_mset Some (mset (lg_open l))"
    using assms reservations_remove [OF assms(2)] by (simp add: behind_def)
  then show ?thesis by auto
qed

lemma behind_settled:
  assumes b: "behind m day l f" and "day_string now = day" and fl: "fl \<in> set (fw_flying f)"
    and "gs_store st = settle in_memory now r (int p) (int d) (gs_store (fw_state f))" and r: "fl_reservation fl = Some r"
  shows "\<exists>l'. behind m day l' (f\<lparr>fw_state := st, fw_flying := remove1 fl (fw_flying f),
    fw_volume := fw_volume f + int p + int d\<rparr>)"
proof -
  let ?l = "l\<lparr>lg_store := settle in_memory now r (int p) (int d) (lg_store l), lg_open := remove1 r (lg_open l),
    lg_spent := (r, int p + int d) # lg_spent l, lg_volume := lg_volume l + int p + int d\<rparr>"
  have ms: "image_mset Some (mset (lg_open l)) =
      add_mset (Some r) (mset (map fl_reservation (remove1 fl (fw_flying f) @ fw_left f)))"
    using b reservations_remove [OF fl] r by (simp add: behind_def)
  then have "Some r \<in># image_mset Some (mset (lg_open l))" by simp
  then have o: "r \<in> set (lg_open l)" by auto
  have "ledger_step in_memory m day l ?l" by (rule Settled [OF assms(2) o]) simp_all
  moreover have "image_mset Some (mset (remove1 r (lg_open l))) =
      mset (map fl_reservation (remove1 fl (fw_flying f) @ fw_left f))"
  proof -
    have "image_mset Some (mset (lg_open l)) = add_mset (Some r) (image_mset Some (mset (remove1 r (lg_open l))))"
      using mset_map_remove1 [OF o, of Some] unfolding mset_map .
    with ms show ?thesis by (metis add_mset_add_mset_same_iff)
  qed
  moreover have "rsv_id ` set (remove1 r (lg_open l)) \<subseteq> rsv_id ` set (lg_open l)"
    by (rule image_mono [OF set_remove1_subset])
  with o have "set (rids ?l) \<subseteq> set (rids l)" by (auto simp: rids_def)
  ultimately have "behind m day ?l (f\<lparr>fw_state := st, fw_flying := remove1 fl (fw_flying f),
      fw_volume := fw_volume f + int p + int d\<rparr>)"
    using b assms(4) by (auto simp: behind_def reservations_def intro: traffic.Next)
  then show ?thesis by blast
qed

lemma account_store:
  assumes "gw_metering gw = Some m" and "gw_ops gw = in_memory"
  shows "gs_store (account gw now lc (Some r) p d st) = settle in_memory now r p d (gs_store st)"
    "gs_store (settle_open gw now (Some r) p st) = settle in_memory now r p 0 (gs_store st)"
  using assms by (simp_all add: account_def settle_open_def)

lemma chat_finish_store:
  assumes f: "chat_finish gw i fl result st = Some (a, st')" and "gw_metering gw = Some m" and "gw_ops gw = in_memory"
    and "fl_reservation fl = Some r" and fit: "fits (settled_usage fl result a)"
  shows "gs_store st' = settle in_memory (in_now i) r (int (fst (settled_usage fl result a)))
    (int (snd (settled_usage fl result a))) (gs_store st)"
proof (cases result)
  case (Inl err)
  with f have "gs_store st' = gs_store (settle_open gw (in_now i) (fl_reservation fl) (u64_as_i64 (fl_prompt_est fl)) st)"
    by (auto simp: chat_finish_def lifecycle_finish_first Let_def)
  with assms Inl show ?thesis by (simp add: account_store settled_usage_def fits_def u64_as_i64_fits)
next
  case (Inr completion)
  from f [unfolded this] obtain prompt completed source where
    u: "completion_usage JNull (snd a) = (prompt, completed, source)" and
    st': "gs_store st' = gs_store (account gw (in_now i) (fl_life fl) (fl_reservation fl) (u64_as_i64 prompt) (u64_as_i64 completed)
          (observe_request (lc_client (fl_life fl)) (lc_provider (fl_life fl)) (lc_model (fl_life fl)) ''ok''
             prompt completed st))"
    by (rule chat_finish_completion) simp
  have "settled_usage fl result a = (prompt, completed)" using Inr u by (simp add: settled_usage_def)
  with fit st' assms(2-4) show ?thesis by (simp add: account_store fits_def u64_as_i64_fits)
qed

lemma gateway_step_behind:
  assumes "gateway_step gw m day f f'" and "behind m day l f"
    and gw: "gw_metering gw = Some m" "gw_ops gw = in_memory"
  shows "\<exists>l'. behind m day l' f'"
  using assms(1,2)
proof (induction rule: gateway_step.induct)
  case (Answer i h parsed f a st)
  from chat_begin_store [OF Answer(1) gw] show ?case
  proof (elim disjE exE conjE)
    assume "gs_store st = gs_store (fw_state f)"
    then have "behind m day l (f\<lparr>fw_state := st, fw_volume := fw_volume f + chat_volume m parsed\<rparr>)"
      using behind_idle [OF Answer(3)] chat_volume_nonneg by (simp add: reservations_def)
    then show ?thesis by blast
  next
    fix body c p r
    assume "parsed = Inr body" and "admit in_memory (in_now2 i) (in_rsv1 i) (in_rsv2 i) m c p (cr_model body)
        (u64_as_i64 (fst (estimate_usage (request_text body) []))) (cr_max_tokens body) (gs_store (fw_state f)) = (r, gs_store st)"
      and "case Reply a of Reply x \<Rightarrow> \<exists>e. r = Inl e | In_flight fl \<Rightarrow> \<exists>x. r = Inr x \<and> fl_reservation fl = Some x | Crashed \<Rightarrow> False"
    with behind_refused [OF Answer(3,2)] show ?thesis by (auto simp: chat_volume_def)
  qed
next
  case (Begin i h parsed f fl st)
  from chat_begin_store [OF Begin(1) gw] show ?case
  proof (elim disjE exE conjE)
    fix body c p r
    assume "parsed = Inr body" and "admit in_memory (in_now2 i) (in_rsv1 i) (in_rsv2 i) m c p (cr_model body)
        (u64_as_i64 (fst (estimate_usage (request_text body) []))) (cr_max_tokens body) (gs_store (fw_state f)) = (r, gs_store st)"
      and "case In_flight fl of Reply x \<Rightarrow> \<exists>e. r = Inl e | In_flight fl \<Rightarrow> \<exists>x. r = Inr x \<and> fl_reservation fl = Some x | Crashed \<Rightarrow> False"
    with behind_admitted [OF Begin(4,2)] Begin(3) show ?thesis by (auto simp: chat_volume_def reservation_id_def)
  qed simp
next
  case (Crash i h parsed f st)
  from chat_begin_store [OF Crash(1) gw] have "gs_store st = gs_store (fw_state f)" by auto
  then show ?case
    by (intro exI [of _ l] behind_idle [OF Crash(2)]) (simp_all add: reservations_def)
next
  case (Finish fl f i result a st)
  obtain r where r: "fl_reservation fl = Some r" using reserved_in_flight [OF Finish(5,1)] by blast
  from chat_finish_store [OF Finish(2) gw r Finish(4)] behind_settled [OF Finish(5,3,1) _ r] show ?case by blast
next
  case (Unopened fl f i err a st)
  obtain r where r: "fl_reservation fl = Some r" using reserved_in_flight [OF Unopened(5,1)] by blast
  let ?p = "fst (estimate_usage (prompt_text (fl_payload fl)) [])"
  have "u64_as_i64 ?p = int ?p" using Unopened(4) by (simp add: fits_def u64_as_i64_fits)
  with Unopened(2) r gw have "gs_store st = settle in_memory (in_now i) r (int ?p) (int 0) (gs_store (fw_state f))"
    by (auto simp: stream_open_failed_def lifecycle_finish_first account_store Let_def)
  from behind_settled [OF Unopened(5,3,1) this r] show ?case by simp
next
  case (Stream_metered fl f i p d)
  obtain r where r: "fl_reservation fl = Some r" using reserved_in_flight [OF Stream_metered(4,1)] by blast
  have "gs_store (apply_effect gw i fl (Metered (u64_as_i64 p) (u64_as_i64 d)) (fw_state f)) =
      settle in_memory (in_now i) r (int p) (int d) (gs_store (fw_state f))"
    using Stream_metered(3) gw r by (simp add: apply_effect_def account_store fits_def u64_as_i64_fits Let_def)
  from behind_settled [OF Stream_metered(4,2,1) this r] show ?case .
next
  case (Stream_effect eff f i fl)
  then have "gs_store (apply_effect gw i fl eff (fw_state f)) = gs_store (fw_state f)"
    by (cases eff) (simp_all add: apply_effect_def Let_def)
  then show ?case
    by (intro exI [of _ l] behind_idle [OF Stream_effect(2)]) (simp_all add: reservations_def)
next
  case (Abandon fl f)
  have "reservations (f\<lparr>fw_flying := remove1 fl (fw_flying f), fw_left := fl # fw_left f\<rparr>) = reservations f"
    unfolding reservations_remove [OF Abandon(1)] by (simp add: reservations_def)
  then show ?case by (intro exI [of _ l] behind_idle [OF Abandon(2)]) simp_all
next
  case (Attack f severity rule client rest now)
  show ?case by (intro exI [of _ l] behind_idle [OF Attack(2)]) (simp_all add: reservations_def)
qed

section \<open>Properties\<close>

lemma gateway_traffic_behind:
  assumes "gateway_traffic gw m day (start_flow st) f" and "gs_store st = mem_empty"
    and "gw_metering gw = Some m" and "gw_ops gw = in_memory"
  shows "\<exists>l. behind m day l f"
  using assms(1)
proof (induction rule: gateway_traffic.induct)
  case Open
  have "behind m day (start_ledger mem_empty) (start_flow st)"
    using assms(2) by (simp add: behind_def start_flow_def rids_def reservations_def traffic.Start)
  then show ?case by blast
next
  case (More f f')
  then show ?case using gateway_step_behind [OF _ _ assms(3,4)] by blast
qed

text \<open>
  C2: (The gateway refines the ledger) However chat requests begin, finish, stream and are abandoned,
  the gateway's store is that of a ledger of \<open>admit\<close> and \<open>settle\<close> whose open reservations are
  exactly those of the requests in flight or abandoned; so every counter is what these hold plus
  what the settled ones used.  No client gets more requests a day than its quota, and no client and
  no provider more tokens than its quota and what settled requests used beyond their reserves.
\<close>

theorem gateway_refines_ledger:
  assumes "gateway_traffic gw m day (start_flow st) f" and "gs_store st = mem_empty"
    and "gw_metering gw = Some m" and "gw_ops gw = in_memory" and "fw_volume f \<le> i64_max"
  shows "\<exists>l. traffic in_memory m day (start_ledger mem_empty) l \<and> lg_store l = gs_store (fw_state f) \<and>
    image_mset Some (mset (lg_open l)) = mset (map fl_reservation (fw_flying f @ fw_left f)) \<and>
    (\<forall>k. Metering_Store.count (counters (gs_store (fw_state f))) k = balance day l k) \<and>
    (\<forall>c q. 0 \<le> q \<longrightarrow> mt_client_requests m = Some q \<longrightarrow>
       Metering_Store.count (counters (gs_store (fw_state f))) (c_req_of c day) \<le> q) \<and>
    (\<forall>c q. 0 \<le> q \<longrightarrow> mt_client_tokens m = Some q \<longrightarrow>
       Metering_Store.count (counters (gs_store (fw_state f))) (c_tokens_of c day) \<le> q + overshoot day l (c_tokens_of c day)) \<and>
    (\<forall>p q. 0 \<le> q \<longrightarrow> mt_provider_tokens m = Some q \<longrightarrow>
       Metering_Store.count (counters (gs_store (fw_state f))) (p_tokens_of p day) \<le> q + overshoot day l (p_tokens_of p day))"
proof -
  from gateway_traffic_behind [OF assms(1-4)] obtain l where l: "behind m day l f" by blast
  then have t: "traffic in_memory m day (start_ledger mem_empty) l" "lg_volume l \<le> i64_max"
    "lg_store l = gs_store (fw_state f)"
    using assms(5) by (auto simp: behind_def)
  have "\<forall>k. Metering_Store.count (counters (gs_store (fw_state f))) k = balance day l k"
    using ledger_okD(1) [OF mem_traffic_ok [OF t(1,2)]] t(3) by metis
  with quotas_hold [OF t(1,2)] l t show ?thesis by (auto simp: behind_def reservations_def)
qed

lemma demo_volume_fits: "fw_volume (start_flow demo_state) + chat_volume demo_metering (Inr demo_body) \<le> i64_max"
  using demo_est_value
  by (simp add: start_flow_def chat_volume_def demo_est_def asked_def u64_as_i64_fits i64_max_def)
    (simp add: demo_body_def demo_chat_def)

theorem gateway_refines_ledger_witness:
  "Metering_Store.count (counters (gs_store demo_flying)) (c_req_of ''alice'' (day_string (f64_of_int 1000))) \<le> 2"
proof -
  let ?f = "start_flow demo_state"
  let ?f' = "?f\<lparr>fw_state := demo_flying, fw_flying := demo_flight # fw_flying ?f,
    fw_ids := reservation_id demo_inputs # fw_ids ?f, fw_volume := fw_volume ?f + chat_volume demo_metering (Inr demo_body)\<rparr>"
  have st: "fw_state ?f = demo_state" by (simp add: start_flow_def)
  have "gateway_step demo_gateway demo_metering (day_string (f64_of_int 1000)) ?f ?f'"
    by (rule Begin [of _ _ demo_headers]) (simp_all add: st demo_begins, simp_all add: demo_inputs_def start_flow_def)
  then have "gateway_traffic demo_gateway demo_metering (day_string (f64_of_int 1000)) ?f ?f'" using Open More by blast
  moreover have "gs_store demo_state = mem_empty" "gw_metering demo_gateway = Some demo_metering" "gw_ops demo_gateway = in_memory"
    by (simp_all add: demo_state_def demo_gateway_def)
  moreover have "fw_volume ?f' \<le> i64_max" using demo_volume_fits by simp
  ultimately have "\<forall>c q. 0 \<le> q \<longrightarrow> mt_client_requests demo_metering = Some q \<longrightarrow>
       Metering_Store.count (counters (gs_store (fw_state ?f'))) (c_req_of c (day_string (f64_of_int 1000))) \<le> q"
    using gateway_refines_ledger by blast
  then show ?thesis by (simp add: demo_metering_def)
qed

end
