(* ===== verification/Ingress.thy ===== *)
theory Ingress
  imports Api
begin

text \<open>
  The registry of \<open>fwllm-gateway/src/ingress.rs\<close>: tokens, agents and tunnels, the header mask,
  and the handlers of \<open>lib.rs\<close> that issue tokens and admit agents.  The clock reading is the
  argument \<open>now\<close>; the random token and request id are arguments.  A tunnel sender is the
  number of its channel; the channels themselves are in \<open>Tunnel\<close>.
\<close>

section \<open>Data\<close>

record token_entry =
  te_agent_id :: string
  te_token :: string
  te_expires_at :: f64

record agent_conn =
  ac_agent_id :: string
  ac_connected_at :: f64
  ac_last_seen :: f64

record token_summary =
  ts_agent_id :: string
  ts_prefix :: string
  ts_expires_at :: f64

record proxy_request =
  pr_id :: string
  pr_method :: string
  pr_url :: string
  pr_headers :: "(string, string) hmap"
  pr_body :: "string option"
  pr_responder :: nat

record proxy_response =
  ps_status :: nat
  ps_headers :: "(string, string) hmap"
  ps_body :: string

record registry =
  rg_tokens :: "(string, token_entry) hmap"
  rg_agents :: "(string, agent_conn) hmap"
  rg_tunnels :: "(string, nat) hmap"

definition new_registry :: registry where
  "new_registry = \<lparr>rg_tokens = [], rg_agents = [], rg_tunnels = []\<rparr>"

definition tunnel_queue_depth :: nat where
  "tunnel_queue_depth = 16"

definition heartbeat_timeout_secs :: nat where
  "heartbeat_timeout_secs = 90"

section \<open>Tokens\<close>

definition issue_token :: "f64 \<Rightarrow> string \<Rightarrow> string \<Rightarrow> nat \<Rightarrow> registry \<Rightarrow> token_entry \<times> registry" where
  "issue_token now token agent_id ttl_hours rg =
     (let entry = \<lparr>te_agent_id = agent_id, te_token = token,
        te_expires_at = f64_add now (f64_mul (f64_of_int (int ttl_hours)) (f64_of_int 3600))\<rparr>
      in (entry, rg\<lparr>rg_tokens := hput token entry (rg_tokens rg)\<rparr>))"

definition list_tokens :: "registry \<Rightarrow> token_entry list" where
  "list_tokens rg = map snd (rg_tokens rg)"

definition list_token_summaries :: "registry \<Rightarrow> token_summary list" where
  "list_token_summaries rg =
     map (\<lambda>(t, e). \<lparr>ts_agent_id = te_agent_id e, ts_prefix = chars_take 6 (te_token e),
       ts_expires_at = te_expires_at e\<rparr>) (rg_tokens rg)"

definition validate_token :: "f64 \<Rightarrow> string \<Rightarrow> registry \<Rightarrow> token_entry option" where
  "validate_token now token rg =
     (case hget (rg_tokens rg) token of
        None \<Rightarrow> None
      | Some entry \<Rightarrow> if f64_lt (te_expires_at entry) now then None else Some entry)"

section \<open>Agents\<close>

definition register_agent :: "f64 \<Rightarrow> string \<Rightarrow> registry \<Rightarrow> registry" where
  "register_agent now agent_id rg =
     rg\<lparr>rg_agents := hput agent_id
       \<lparr>ac_agent_id = agent_id, ac_connected_at = now, ac_last_seen = now\<rparr> (rg_agents rg)\<rparr>"

definition list_agents :: "registry \<Rightarrow> agent_conn list" where
  "list_agents rg = map snd (rg_agents rg)"

definition register_tunnel :: "f64 \<Rightarrow> string \<Rightarrow> nat \<Rightarrow> registry \<Rightarrow> registry" where
  "register_tunnel now agent_id sender rg =
     register_agent now agent_id (rg\<lparr>rg_tunnels := hput agent_id sender (rg_tunnels rg)\<rparr>)"

definition unregister_agent :: "string \<Rightarrow> registry \<Rightarrow> registry" where
  "unregister_agent agent_id rg =
     rg\<lparr>rg_agents := hdel agent_id (rg_agents rg), rg_tunnels := hdel agent_id (rg_tunnels rg)\<rparr>"

definition touch_agent :: "f64 \<Rightarrow> string \<Rightarrow> registry \<Rightarrow> registry" where
  "touch_agent now agent_id rg =
     (case hget (rg_agents rg) agent_id of
        None \<Rightarrow> rg
      | Some conn \<Rightarrow> rg\<lparr>rg_agents := hput agent_id (conn\<lparr>ac_last_seen := now\<rparr>) (rg_agents rg)\<rparr>)"

definition silent :: "f64 \<Rightarrow> f64 \<Rightarrow> agent_conn \<Rightarrow> bool" where
  "silent now max_age conn \<longleftrightarrow> f64_gt (f64_sub now (ac_last_seen conn)) max_age"

definition is_stale :: "f64 \<Rightarrow> string \<Rightarrow> f64 \<Rightarrow> registry \<Rightarrow> bool" where
  "is_stale now agent_id max_age rg =
     (case hget (rg_agents rg) agent_id of Some conn \<Rightarrow> silent now max_age conn | None \<Rightarrow> True)"

definition sweep_stale :: "f64 \<Rightarrow> f64 \<Rightarrow> registry \<Rightarrow> string list \<times> registry" where
  "sweep_stale now max_age rg =
     (let stale = map fst (filter (\<lambda>(i, c). silent now max_age c) (rg_agents rg))
      in (stale, fold unregister_agent stale rg))"

section \<open>Header mask\<close>

definition masked_headers :: "string list" where
  "masked_headers = [''via'', ''x-forwarded-for'', ''x-forwarded-proto'', ''x-forwarded-host'',
     ''x-real-ip'', ''x-forwarded-port'', ''cf-connecting-ip'', ''cf-ray'', ''server'', ''x-powered-by'']"

definition remove_header :: "string \<Rightarrow> (string, string) hmap \<Rightarrow> (string, string) hmap" where
  "remove_header key hs =
     filter (\<lambda>(k, v). to_ascii_lowercase k \<noteq> key) (hdel (to_ascii_uppercase key) (hdel key hs))"

definition mask_for_tunnel :: "(string, string) hmap \<Rightarrow> (string, string) hmap" where
  "mask_for_tunnel headers =
     (let hs = fold remove_header masked_headers headers in
      if \<exists>(k, v) \<in> set hs. eq_ignore_ascii_case k ''user-agent'' then hs
      else hput ''User-Agent'' ''Firewall-LLM-Agent/0.1'' hs)"

section \<open>Handlers\<close>

text \<open>\<open>CreateTokenRequest\<close> of a JSON object; \<open>None\<close> is what serde rejects.\<close>

definition default_ttl :: nat where
  "default_ttl = 168"

definition create_token_request :: "json \<Rightarrow> (string \<times> nat) option" where
  "create_token_request v =
     (case (Option.bind (jget ''agent_id'' v) as_str, jget ''ttl_hours'' v) of
        (Some agent_id, None) \<Rightarrow> Some (agent_id, default_ttl)
      | (Some agent_id, Some t) \<Rightarrow> map_option (Pair agent_id) (as_u64 t)
      | (None, _) \<Rightarrow> None)"

text \<open>\<open>create_ingress_token\<close>: the body is its agent id and hours, or what the extractor rejected.\<close>

definition create_ingress_token ::
  "token_table \<Rightarrow> token_table \<Rightarrow> f64 \<Rightarrow> string \<Rightarrow> headers \<Rightarrow> string + string \<times> nat \<Rightarrow> registry
     \<Rightarrow> (api_error + token_entry) \<times> registry" where
  "create_ingress_token admin_clients clients now token headers body rg =
     (case require_admin admin_clients clients headers of
        Inl e \<Rightarrow> (Inl e, rg)
      | Inr _ \<Rightarrow>
          (case body of
             Inl rejection \<Rightarrow> (Inl (err_invalid_request (''invalid body: '' @ rejection)), rg)
           | Inr (agent_id, ttl_hours) \<Rightarrow>
               if trim agent_id = [] then (Inl (err_invalid_request ''agent_id is required''), rg)
               else (let (entry, rg') = issue_token now token agent_id ttl_hours rg in (Inr entry, rg'))))"

definition list_ingress_agents ::
  "token_table \<Rightarrow> token_table \<Rightarrow> headers \<Rightarrow> registry \<Rightarrow> api_error + token_summary list \<times> agent_conn list" where
  "list_ingress_agents admin_clients clients headers rg =
     (case require_admin admin_clients clients headers of
        Inl e \<Rightarrow> Inl e
      | Inr _ \<Rightarrow> Inr (list_token_summaries rg, list_agents rg))"

text \<open>\<open>ingress_ws_handler\<close>: the agent whose socket is served, or the answer without an upgrade.\<close>

datatype ws_answer = Serve string | Refuse api_error | Upgrade_required

definition ingress_ws_handler :: "f64 \<Rightarrow> headers \<Rightarrow> bool \<Rightarrow> registry \<Rightarrow> ws_answer" where
  "ingress_ws_handler now headers is_upgrade rg =
     (case validate_token now (bearer_token headers) rg of
        None \<Rightarrow> Refuse (err_auth ''invalid ingress token'' ''invalid_api_key'')
      | Some entry \<Rightarrow> if is_upgrade then Serve (te_agent_id entry) else Upgrade_required)"

section \<open>Lemmas\<close>

lemma hget_remove_header:
  "hget (remove_header key hs) k =
     (if to_ascii_lowercase k = key \<or> k = key \<or> k = to_ascii_uppercase key then None else hget hs k)"
  unfolding remove_header_def by (subst hget_filter_key) simp

lemma fold_remove_header:
  "hget (fold remove_header keys hs) k =
     (if to_ascii_lowercase k \<in> set keys \<or> k \<in> set keys \<or> k \<in> to_ascii_uppercase ` set keys then None
      else hget hs k)"
  by (induction keys arbitrary: hs) (auto simp: hget_remove_header)

lemma hmap_ok_fold_remove: "hmap_ok hs \<Longrightarrow> hmap_ok (fold remove_header keys hs)"
  by (induction keys arbitrary: hs) (simp_all add: remove_header_def)

lemma masked_headers_lower_all:
  "list_all (\<lambda>key. to_ascii_lowercase key = key \<and> to_ascii_lowercase (to_ascii_uppercase key) = key) masked_headers"
  by code_simp

lemma masked_headers_lower:
  "key \<in> set masked_headers \<Longrightarrow> to_ascii_lowercase key = key \<and> to_ascii_lowercase (to_ascii_uppercase key) = key"
  using masked_headers_lower_all by (simp add: list_all_iff)

lemma user_agent_lower:
  "to_ascii_lowercase ''User-Agent'' = ''user-agent''" "to_ascii_lowercase ''user-agent'' = ''user-agent''"
  by code_simp+

lemma hget_masked:
  "hget (fold remove_header masked_headers hs) k =
     (if to_ascii_lowercase k \<in> set masked_headers then None else hget hs k)"
proof -
  have "k \<in> set masked_headers \<or> k \<in> to_ascii_uppercase ` set masked_headers \<Longrightarrow>
      to_ascii_lowercase k \<in> set masked_headers"
    using masked_headers_lower by auto
  then show ?thesis by (auto simp: fold_remove_header)
qed

section \<open>Properties\<close>

text \<open>
  (Tunnel privacy) No forwarding, address or server header leaves through the tunnel in any
  letter case, every other header is passed on unchanged, and there is always a user agent.
\<close>

theorem tunnel_headers_masked:
  assumes "hmap_ok hs"
  shows "(\<forall>k. to_ascii_lowercase k \<in> set masked_headers \<longrightarrow> hget (mask_for_tunnel hs) k = None) \<and>
    (\<forall>k v. to_ascii_lowercase k \<notin> set masked_headers \<longrightarrow> hget hs k = Some v \<longrightarrow>
       hget (mask_for_tunnel hs) k = Some v) \<and>
    (\<exists>k v. eq_ignore_ascii_case k ''user-agent'' \<and> hget (mask_for_tunnel hs) k = Some v)"
proof (cases "\<exists>(k, v) \<in> set (fold remove_header masked_headers hs). eq_ignore_ascii_case k ''user-agent''")
  case True
  then have m: "mask_for_tunnel hs = fold remove_header masked_headers hs" by (simp add: mask_for_tunnel_def)
  from True obtain k v where kv: "(k, v) \<in> set (fold remove_header masked_headers hs)"
    "eq_ignore_ascii_case k ''user-agent''" by auto
  then have g: "hget (fold remove_header masked_headers hs) k = Some v"
    using hget_in_set [OF hmap_ok_fold_remove [OF assms]] by blast
  have "\<exists>k v. eq_ignore_ascii_case k ''user-agent'' \<and> hget (mask_for_tunnel hs) k = Some v"
    unfolding m using g kv(2) by blast
  then show ?thesis by (simp add: m hget_masked)
next
  case False
  then have m: "mask_for_tunnel hs = hput ''User-Agent'' ''Firewall-LLM-Agent/0.1'' (fold remove_header masked_headers hs)"
    unfolding mask_for_tunnel_def Let_def by (rule if_not_P)
  have ua: "to_ascii_lowercase ''User-Agent'' = ''user-agent''" "''user-agent'' \<notin> set masked_headers"
    by (simp_all add: user_agent_lower masked_headers_def)
  have other: "hget hs ''User-Agent'' = None"
  proof (rule ccontr)
    assume "hget hs ''User-Agent'' \<noteq> None"
    then obtain v where "hget (fold remove_header masked_headers hs) ''User-Agent'' = Some v"
      using ua by (auto simp: hget_masked)
    then have "(''User-Agent'', v) \<in> set (fold remove_header masked_headers hs)" by (rule map_of_SomeD)
    with False ua show False by (auto simp: eq_ignore_ascii_case_def user_agent_lower)
  qed
  have "eq_ignore_ascii_case ''User-Agent'' ''user-agent''"
    by (simp add: eq_ignore_ascii_case_def user_agent_lower)
  with other ua show ?thesis unfolding m by (auto simp: hget_masked intro!: exI [of _ "''User-Agent''"])
qed

theorem tunnel_headers_masked_witness:
  "hget (mask_for_tunnel [(''X-Real-IP'', ''10.0.0.1''), (''accept'', ''*'')]) ''X-Real-IP'' = None \<and>
   hget (mask_for_tunnel [(''X-Real-IP'', ''10.0.0.1''), (''accept'', ''*'')]) ''accept'' = Some ''*''"
proof -
  have "hmap_ok [(''X-Real-IP'', ''10.0.0.1''), (''accept'', ''*'')]" by (simp add: hmap_ok_def)
  moreover have "to_ascii_lowercase ''X-Real-IP'' = ''x-real-ip''" "to_ascii_lowercase ''accept'' = ''accept''"
    by code_simp+
  ultimately show ?thesis
    using tunnel_headers_masked [of "[(''X-Real-IP'', ''10.0.0.1''), (''accept'', ''*'')]"]
    by (simp add: masked_headers_def)
qed

text \<open>
  (Token lifetime) A token issued to an agent opens the tunnel of that agent, and no other, until
  its lifetime is over and not after; tokens issued before stay as they were.
\<close>

theorem issued_token_lifetime:
  assumes "issue_token (f64_of_int t) tok agent ttl rg = (entry, rg')"
    and "f64_exact t" and "f64_exact (int ttl)" and "f64_exact (int ttl * 3600)"
    and "f64_exact (t + int ttl * 3600)" and "f64_exact u"
  shows "validate_token (f64_of_int u) tok rg' = (if u \<le> t + int ttl * 3600 then Some entry else None) \<and>
    te_agent_id entry = agent \<and>
    (\<forall>other. other \<noteq> tok \<longrightarrow> validate_token (f64_of_int u) other rg' = validate_token (f64_of_int u) other rg)"
proof -
  have x: "f64_exact 3600" by (simp add: f64_exact_def)
  have "te_expires_at entry = f64_of_int (t + int ttl * 3600)"
    using assms(1) f64_of_int_mul [OF assms(3) x assms(4)] f64_of_int_add [OF assms(2,4,5)]
    by (auto simp: issue_token_def Let_def)
  with assms(1) show ?thesis
    using f64_of_int_lt [OF assms(5,6)] by (auto simp: issue_token_def Let_def validate_token_def)
qed

theorem issued_token_lifetime_witness:
  "validate_token (f64_of_int 9000) ''s3cret'' (snd (issue_token (f64_of_int 1000) ''s3cret'' ''edge'' 2 new_registry)) = None \<and>
   validate_token (f64_of_int 4600) ''s3cret'' (snd (issue_token (f64_of_int 1000) ''s3cret'' ''edge'' 2 new_registry))
     = Some (fst (issue_token (f64_of_int 1000) ''s3cret'' ''edge'' 2 new_registry))"
proof -
  obtain e rg where i: "issue_token (f64_of_int 1000) ''s3cret'' ''edge'' 2 new_registry = (e, rg)" by fastforce
  show ?thesis
    using issued_token_lifetime [OF i, of 9000] issued_token_lifetime [OF i, of 4600]
    by (simp add: i f64_exact_def)
qed

end
