(* ===== verification/Tunnel.thy ===== *)
theory Tunnel
  imports Ingress
begin

text \<open>
  The tunnels of \<open>fwllm-gateway\<close>: \<open>IngressRegistry::forward\<close> of \<open>ingress.rs\<close> and
  \<open>handle_ingress_socket\<close> of \<open>lib.rs\<close>, as a machine of concurrent calls and handlers.

  A channel is known by its number; its receiver and its queue belong to the handler that
  serves the number, so a number without a handler is a closed channel.  Its senders are the
  values of the registry's \<open>tunnels\<close> and the clones that \<open>forward\<close> calls hold until they return.
  A oneshot channel is known by the number of the \<open>forward\<close> call that waits on it; a call whose
  wait is over returns, and drops its clone, in a step of its own; \<open>Expire\<close> is possible at any time, so it
  stands for a caller that gives up as well.  \<open>forward\<close> up to its wait, \<open>register_tunnel\<close> and
  \<open>unregister_agent\<close> are one step each.  A branch of the handler's \<open>select!\<close> is one step; leaving
  the loop, \<open>unregister_agent\<close> and the drop of the handler's locals are part of the step that
  breaks.  JSON parsing is the parameter \<open>parse\<close>.
\<close>

section \<open>State\<close>

datatype wait = Waiting | Answered proxy_response | Abandoned | Timed_out

record forward_call =
  fc_agent :: string
  fc_id :: string
  fc_wait :: wait
  fc_channel :: nat
  fc_returned :: bool

record serving =
  sv_agent :: string
  sv_queue :: "proxy_request list"
  sv_pending :: "(string, nat) hmap"

record tunnel_state =
  tn_registry :: registry
  tn_serving :: "(nat, serving) hmap"
  tn_calls :: "forward_call list"
  tn_next :: nat

definition new_tunnels :: tunnel_state where
  "new_tunnels = \<lparr>tn_registry = new_registry, tn_serving = [], tn_calls = [], tn_next = 0\<rparr>"

text \<open>A send on a oneshot channel, or the drop of its sender: only a waiting call notices.\<close>

definition resolve_call :: "wait \<Rightarrow> nat \<Rightarrow> forward_call list \<Rightarrow> forward_call list" where
  "resolve_call x w calls =
     (if w < length calls \<and> fc_wait (calls ! w) = Waiting
      then calls[w := (calls ! w)\<lparr>fc_wait := x\<rparr>] else calls)"

text \<open>A poll of a call: when its wait is over, it returns and its clone of the sender is dropped.\<close>

definition return_call :: "nat \<Rightarrow> forward_call list \<Rightarrow> forward_call list" where
  "return_call w calls =
     (if w < length calls \<and> fc_wait (calls ! w) \<noteq> Waiting
      then calls[w := (calls ! w)\<lparr>fc_returned := True\<rparr>] else calls)"

text \<open>A sender of the channel is left: the registry's, or that of a call that has not returned.\<close>

definition sender_left :: "nat \<Rightarrow> tunnel_state \<Rightarrow> bool" where
  "sender_left c s \<longleftrightarrow> c \<in> snd ` set (rg_tunnels (tn_registry s)) \<or>
     (\<exists>fc \<in> set (tn_calls s). fc_channel fc = c \<and> \<not> fc_returned fc)"

section \<open>Forwarding\<close>

datatype send_error = Full | Closed

definition try_send :: "nat \<Rightarrow> proxy_request \<Rightarrow> tunnel_state \<Rightarrow> send_error + tunnel_state" where
  "try_send c req s =
     (case hget (tn_serving s) c of
        None \<Rightarrow> Inl Closed
      | Some sv \<Rightarrow>
          if tunnel_queue_depth \<le> length (sv_queue sv) then Inl Full
          else Inr (s\<lparr>tn_serving := hput c (sv\<lparr>sv_queue := sv_queue sv @ [req]\<rparr>) (tn_serving s)\<rparr>))"

fun send_error_message :: "send_error \<Rightarrow> string" where
  "send_error_message Full = ''agent overloaded''"
| "send_error_message Closed = ''agent disconnected''"

text \<open>\<open>forward\<close> up to its wait: an error at once, or the number of the call that waits.\<close>

definition forward ::
  "string \<Rightarrow> string \<Rightarrow> string \<Rightarrow> string \<Rightarrow> (string, string) hmap \<Rightarrow> string option \<Rightarrow> tunnel_state
     \<Rightarrow> (string + nat) \<times> tunnel_state" where
  "forward agent_id rid meth url headers body s =
     (case hget (rg_tunnels (tn_registry s)) agent_id of
        None \<Rightarrow> (Inl (''no tunnel for agent '' @ agent_id), s)
      | Some c \<Rightarrow>
          (let w = length (tn_calls s);
               req = \<lparr>pr_id = rid, pr_method = meth, pr_url = url, pr_headers = mask_for_tunnel headers,
                 pr_body = body, pr_responder = w\<rparr>
           in case try_send c req s of
                Inl e \<Rightarrow> (Inl (send_error_message e), s)
              | Inr s' \<Rightarrow> (Inr w, s'\<lparr>tn_calls := tn_calls s @
                  [\<lparr>fc_agent = agent_id, fc_id = rid, fc_wait = Waiting, fc_channel = c, fc_returned = False\<rparr>]\<rparr>)))"

text \<open>What the waiting \<open>forward\<close> returns.\<close>

fun forward_result :: "wait \<Rightarrow> (string + proxy_response) option" where
  "forward_result Waiting = None"
| "forward_result (Answered r) = Some (Inr r)"
| "forward_result Abandoned = Some (Inl ''agent dropped'')"
| "forward_result Timed_out = Some (Inl ''tunnel timeout'')"

section \<open>The handler of an agent's socket\<close>

datatype frame_in = Text_in string | Ping_in string | Pong_in | Close_in | Other_in

datatype frame_out = Ping_out | Pong_out string | Text_out json

text \<open>The branch of \<open>select!\<close> that is taken; the flags say whether the socket accepts the frame.\<close>

datatype event = Heartbeat bool | Socket "frame_in option" | Request bool

definition connect :: "f64 \<Rightarrow> string \<Rightarrow> tunnel_state \<Rightarrow> tunnel_state" where
  "connect now agent_id s =
     s\<lparr>tn_registry := register_tunnel now agent_id (tn_next s) (tn_registry s),
       tn_serving := hput (tn_next s) \<lparr>sv_agent = agent_id, sv_queue = [], sv_pending = []\<rparr> (tn_serving s),
       tn_next := Suc (tn_next s)\<rparr>"

definition reply_of :: "json \<Rightarrow> proxy_response" where
  "reply_of val =
     \<lparr>ps_status = (case Option.bind (jget ''status'' val) as_u64 of Some n \<Rightarrow> n mod 65536 | None \<Rightarrow> 200),
      ps_headers = (case Option.bind (jget ''headers'' val) as_object of
          Some m \<Rightarrow> map (\<lambda>(k, v). (k, case as_str v of Some s \<Rightarrow> s | None \<Rightarrow> [])) m | None \<Rightarrow> []),
      ps_body = (case Option.bind (jget ''body'' val) as_str of Some s \<Rightarrow> s | None \<Rightarrow> [])\<rparr>"

definition request_frame :: "proxy_request \<Rightarrow> json" where
  "request_frame req = JObj (obj_of
     [(''id'', JStr (pr_id req)), (''method'', JStr (pr_method req)), (''url'', JStr (pr_url req)),
      (''headers'', JObj (obj_of (map (\<lambda>(k, v). (k, JStr v)) (pr_headers req)))),
      (''body'', case pr_body req of Some b \<Rightarrow> JStr b | None \<Rightarrow> JNull)])"

definition in_hand :: "serving \<Rightarrow> nat list" where
  "in_hand sv = map pr_responder (sv_queue sv) @ map snd (sv_pending sv)"

text \<open>After the loop: the agent is unregistered, and the queue and the pending senders are dropped.\<close>

definition disconnect :: "nat \<Rightarrow> serving \<Rightarrow> tunnel_state \<Rightarrow> tunnel_state" where
  "disconnect c sv s =
     s\<lparr>tn_registry := unregister_agent (sv_agent sv) (tn_registry s),
       tn_serving := hdel c (tn_serving s),
       tn_calls := fold (resolve_call Abandoned) (in_hand sv) (tn_calls s)\<rparr>"

definition on_heartbeat :: "f64 \<Rightarrow> bool \<Rightarrow> nat \<Rightarrow> serving \<Rightarrow> tunnel_state \<Rightarrow> frame_out list \<times> tunnel_state" where
  "on_heartbeat now sent c sv s =
     (if \<not> sent then ([], disconnect c sv s)
      else if is_stale now (sv_agent sv) (f64_of_int (int heartbeat_timeout_secs)) (tn_registry s)
      then ([Ping_out], disconnect c sv s)
      else ([Ping_out], s))"

definition on_text :: "(string \<Rightarrow> json option) \<Rightarrow> string \<Rightarrow> nat \<Rightarrow> serving \<Rightarrow> tunnel_state \<Rightarrow> tunnel_state" where
  "on_text parse tx c sv s =
     (case parse tx of None \<Rightarrow> s
      | Some val \<Rightarrow>
          (case Option.bind (jget ''id'' val) as_str of None \<Rightarrow> s
           | Some rid \<Rightarrow>
               (case hget (sv_pending sv) rid of None \<Rightarrow> s
                | Some w \<Rightarrow>
                    s\<lparr>tn_serving := hput c (sv\<lparr>sv_pending := hdel rid (sv_pending sv)\<rparr>) (tn_serving s),
                      tn_calls := resolve_call (Answered (reply_of val)) w (tn_calls s)\<rparr>)))"

definition on_socket ::
  "f64 \<Rightarrow> (string \<Rightarrow> json option) \<Rightarrow> frame_in option \<Rightarrow> nat \<Rightarrow> serving \<Rightarrow> tunnel_state
     \<Rightarrow> frame_out list \<times> tunnel_state" where
  "on_socket now parse frame c sv s =
     (case frame of
        None \<Rightarrow> ([], disconnect c sv s)
      | Some (Text_in tx) \<Rightarrow> ([], on_text parse tx c sv s)
      | Some (Ping_in d) \<Rightarrow> ([Pong_out d], s)
      | Some Pong_in \<Rightarrow> ([], s\<lparr>tn_registry := touch_agent now (sv_agent sv) (tn_registry s)\<rparr>)
      | Some Close_in \<Rightarrow> ([], disconnect c sv s)
      | Some Other_in \<Rightarrow> ([], s))"

text \<open>\<open>rx.recv()\<close>: \<open>None\<close> while the queue is empty and a sender is left.\<close>

definition on_request ::
  "bool \<Rightarrow> nat \<Rightarrow> serving \<Rightarrow> tunnel_state \<Rightarrow> (frame_out list \<times> tunnel_state) option" where
  "on_request sent c sv s =
     (case sv_queue sv of
        [] \<Rightarrow> if sender_left c s then None else Some ([], disconnect c sv s)
      | req # rest \<Rightarrow>
          (let old = (case hget (sv_pending sv) (pr_id req) of None \<Rightarrow> [] | Some w \<Rightarrow> [w]);
               sv' = sv\<lparr>sv_queue := rest, sv_pending := hput (pr_id req) (pr_responder req) (sv_pending sv)\<rparr>;
               s' = s\<lparr>tn_serving := hput c sv' (tn_serving s),
                      tn_calls := fold (resolve_call Abandoned) old (tn_calls s)\<rparr>
           in Some (if sent then ([Text_out (request_frame req)], s') else ([], disconnect c sv' s'))))"

fun handle ::
  "f64 \<Rightarrow> (string \<Rightarrow> json option) \<Rightarrow> event \<Rightarrow> nat \<Rightarrow> serving \<Rightarrow> tunnel_state
     \<Rightarrow> (frame_out list \<times> tunnel_state) option" where
  "handle now parse (Heartbeat sent) c sv s = Some (on_heartbeat now sent c sv s)"
| "handle now parse (Socket frame) c sv s = Some (on_socket now parse frame c sv s)"
| "handle now parse (Request sent) c sv s = on_request sent c sv s"

section \<open>Interleavings\<close>

inductive tunnel_step :: "(string \<Rightarrow> json option) \<Rightarrow> tunnel_state \<Rightarrow> tunnel_state \<Rightarrow> bool"
  for parse :: "string \<Rightarrow> json option" where
  Connect: "tunnel_step parse s (connect now agent s)"
| Forward: "forward agent rid meth url headers body s = (r, s') \<Longrightarrow> tunnel_step parse s s'"
| Expire: "tunnel_step parse s (s\<lparr>tn_calls := return_call w (resolve_call Timed_out w (tn_calls s))\<rparr>)"
| Return: "tunnel_step parse s (s\<lparr>tn_calls := return_call w (tn_calls s)\<rparr>)"
| Handle: "hget (tn_serving s) c = Some sv \<Longrightarrow> handle now parse ev c sv s = Some (out, s') \<Longrightarrow>
    tunnel_step parse s s'"

inductive tunnels_reachable :: "(string \<Rightarrow> json option) \<Rightarrow> tunnel_state \<Rightarrow> bool"
  for parse :: "string \<Rightarrow> json option" where
  Start: "tunnels_reachable parse new_tunnels"
| Step: "tunnels_reachable parse s \<Longrightarrow> tunnel_step parse s s' \<Longrightarrow> tunnels_reachable parse s'"

section \<open>Invariant\<close>

text \<open>A request in a handler's hands is answered to the call that made it, to this agent.\<close>

definition call_matches :: "forward_call list \<Rightarrow> string \<Rightarrow> string \<Rightarrow> nat \<Rightarrow> bool" where
  "call_matches calls agent rid w \<longleftrightarrow>
     w < length calls \<and> fc_agent (calls ! w) = agent \<and> fc_id (calls ! w) = rid"

definition serving_ok :: "forward_call list \<Rightarrow> serving \<Rightarrow> bool" where
  "serving_ok calls sv \<longleftrightarrow> length (sv_queue sv) \<le> tunnel_queue_depth \<and>
     (\<forall>req \<in> set (sv_queue sv). call_matches calls (sv_agent sv) (pr_id req) (pr_responder req)) \<and>
     (\<forall>rid w. (rid, w) \<in> set (sv_pending sv) \<longrightarrow> call_matches calls (sv_agent sv) rid w) \<and>
     hmap_ok (sv_pending sv)"

definition registered :: "tunnel_state \<Rightarrow> string \<Rightarrow> bool" where
  "registered s agent \<longleftrightarrow>
     (case hget (rg_tunnels (tn_registry s)) agent of None \<Rightarrow> False
      | Some c \<Rightarrow> (case hget (tn_serving s) c of None \<Rightarrow> False | Some sv \<Rightarrow> sv_agent sv = agent))"

definition registry_ok :: "tunnel_state \<Rightarrow> bool" where
  "registry_ok s \<longleftrightarrow>
     (\<forall>agent. hget (rg_tunnels (tn_registry s)) agent \<noteq> None \<longrightarrow> registered s agent) \<and>
     (\<forall>agent. hget (rg_agents (tn_registry s)) agent \<noteq> None \<longleftrightarrow>
        hget (rg_tunnels (tn_registry s)) agent \<noteq> None) \<and>
     hmap_ok (rg_tunnels (tn_registry s))"

definition stranded :: "tunnel_state \<Rightarrow> nat \<Rightarrow> bool" where
  "stranded s w \<longleftrightarrow> w < length (tn_calls s) \<and> fc_wait (tn_calls s ! w) = Waiting \<and>
     (\<forall>c sv. hget (tn_serving s) c = Some sv \<longrightarrow> w \<notin> set (in_hand sv))"

definition tunnels_ok :: "tunnel_state \<Rightarrow> bool" where
  "tunnels_ok s \<longleftrightarrow>
     (\<forall>fc \<in> set (tn_calls s). fc_channel fc < tn_next s) \<and>
     (\<forall>c sv. hget (tn_serving s) c = Some sv \<longrightarrow> c < tn_next s \<and> serving_ok (tn_calls s) sv) \<and>
     registry_ok s \<and> (\<forall>w. \<not> stranded s w)"

lemma length_resolve_call [simp]: "length (resolve_call x w calls) = length calls"
  by (simp add: resolve_call_def)

lemma length_return_call [simp]: "length (return_call w calls) = length calls"
  by (simp add: return_call_def)

lemma return_call_keeps [simp]:
  "fc_agent (return_call w calls ! i) = fc_agent (calls ! i)"
  "fc_id (return_call w calls ! i) = fc_id (calls ! i)"
  "fc_wait (return_call w calls ! i) = fc_wait (calls ! i)"
  by (cases "i = w"; simp add: return_call_def)+

lemma channels_kept [simp]:
  "map fc_channel (resolve_call x w calls) = map fc_channel calls"
  "map fc_channel (return_call w calls) = map fc_channel calls"
  "map fc_channel (fold (resolve_call x) ws calls) = map fc_channel calls"
proof -
  show r: "map fc_channel (resolve_call x w calls) = map fc_channel calls" for w and calls :: "forward_call list"
    by (auto simp: resolve_call_def map_update list_update_same_conv)
  show "map fc_channel (return_call w calls) = map fc_channel calls"
    by (auto simp: return_call_def map_update list_update_same_conv)
  show "map fc_channel (fold (resolve_call x) ws calls) = map fc_channel calls"
    by (induction ws arbitrary: calls) (simp_all add: r)
qed

lemma channels_bounded:
  assumes "map fc_channel calls' = map fc_channel calls"
  shows "(\<forall>fc \<in> set calls'. fc_channel fc < n) = (\<forall>fc \<in> set calls. fc_channel fc < n)"
proof -
  have "fc_channel ` set calls' = fc_channel ` set calls" using arg_cong [OF assms, of set] by simp
  then have "(\<forall>x \<in> fc_channel ` set calls'. x < n) = (\<forall>x \<in> fc_channel ` set calls. x < n)" by simp
  then show ?thesis by simp
qed

lemma channels_bound_kept [simp]:
  "(\<forall>fc \<in> set (resolve_call x w calls). fc_channel fc < n) = (\<forall>fc \<in> set calls. fc_channel fc < n)"
  "(\<forall>fc \<in> set (return_call w calls). fc_channel fc < n) = (\<forall>fc \<in> set calls. fc_channel fc < n)"
  "(\<forall>fc \<in> set (fold (resolve_call x) ws calls). fc_channel fc < n) = (\<forall>fc \<in> set calls. fc_channel fc < n)"
  by (rule channels_bounded; simp)+

lemma length_fold_resolve [simp]: "length (fold (resolve_call x) ws calls) = length calls"
  by (induction ws arbitrary: calls) simp_all

lemma resolve_call_keeps [simp]:
  "fc_agent (resolve_call x w calls ! i) = fc_agent (calls ! i)"
  "fc_id (resolve_call x w calls ! i) = fc_id (calls ! i)"
  by (cases "i = w"; simp add: resolve_call_def)+

lemma fold_resolve_keeps [simp]:
  "fc_agent (fold (resolve_call x) ws calls ! i) = fc_agent (calls ! i)"
  "fc_id (fold (resolve_call x) ws calls ! i) = fc_id (calls ! i)"
  by (induction ws arbitrary: calls) simp_all

lemma wait_resolve_call:
  assumes "i < length calls"
  shows "fc_wait (resolve_call x w calls ! i) = (if i = w \<and> fc_wait (calls ! i) = Waiting then x else fc_wait (calls ! i))"
  using assms by (auto simp: resolve_call_def)

lemma wait_fold_resolve:
  assumes "i < length calls" and "x \<noteq> Waiting"
  shows "fc_wait (fold (resolve_call x) ws calls ! i) =
    (if i \<in> set ws \<and> fc_wait (calls ! i) = Waiting then x else fc_wait (calls ! i))"
  using assms by (induction ws arbitrary: calls) (auto simp: wait_resolve_call)

lemma call_matches_resolve [simp]:
  "call_matches (resolve_call x w calls) agent rid v = call_matches calls agent rid v"
  "call_matches (fold (resolve_call x) ws calls) agent rid v = call_matches calls agent rid v"
  by (simp_all add: call_matches_def)

lemma returned_ok [simp]:
  "call_matches (return_call w calls) agent rid v = call_matches calls agent rid v"
  "serving_ok (return_call w calls) sv = serving_ok calls sv"
  by (simp_all add: call_matches_def serving_ok_def)

lemma serving_ok_resolve [simp]:
  "serving_ok (resolve_call x w calls) sv = serving_ok calls sv"
  "serving_ok (fold (resolve_call x) ws calls) sv = serving_ok calls sv"
  by (simp_all add: serving_ok_def)

lemma call_matches_append: "call_matches calls agent rid w \<Longrightarrow> call_matches (calls @ extra) agent rid w"
  by (auto simp: call_matches_def nth_append)

lemma serving_ok_append: "serving_ok calls sv \<Longrightarrow> serving_ok (calls @ extra) sv"
  by (auto simp: serving_ok_def intro: call_matches_append)

section \<open>The steps keep the invariant\<close>

lemma stranded_held: "stranded s w \<Longrightarrow> hget (tn_serving s) c = Some sv \<Longrightarrow> w \<notin> set (in_hand sv)"
  by (simp add: stranded_def)

lemma strandedI:
  assumes "w < length (tn_calls s)" and "fc_wait (tn_calls s ! w) = Waiting"
    and "\<And>c sv. hget (tn_serving s) c = Some sv \<Longrightarrow> w \<notin> set (in_hand sv)"
  shows "stranded s w"
  using assms by (simp add: stranded_def)

lemma put_serving_ok:
  assumes ok: "tunnels_ok s" and c: "hget (tn_serving s) c = Some sv"
    and sv': "serving_ok calls' sv'" "sv_agent sv' = sv_agent sv"
    and same: "\<And>sv0. serving_ok calls' sv0 = serving_ok (tn_calls s) sv0" "length calls' = length (tn_calls s)"
    and chan: "map fc_channel calls' = map fc_channel (tn_calls s)"
    and wait: "\<And>w. w < length calls' \<Longrightarrow> fc_wait (calls' ! w) = Waiting \<Longrightarrow>
      fc_wait (tn_calls s ! w) = Waiting \<and> (w \<in> set (in_hand sv) \<longrightarrow> w \<in> set (in_hand sv'))"
  shows "tunnels_ok (s\<lparr>tn_serving := hput c sv' (tn_serving s), tn_calls := calls'\<rparr>)" (is "tunnels_ok ?s")
proof -
  have reg: "registered s agent \<Longrightarrow> registered ?s agent" for agent
    using c sv'(2) by (auto simp: registered_def split: option.splits)
  have "\<not> stranded ?s w" for w
  proof
    assume st: "stranded ?s w"
    then have w: "w < length calls'" "fc_wait (calls' ! w) = Waiting" by (auto simp: stranded_def)
    have "w \<notin> set (in_hand sv')" using stranded_held [OF st, of c sv'] by simp
    with wait [OF w] have v: "w \<notin> set (in_hand sv)" by blast
    have "stranded s w"
    proof (rule strandedI)
      fix c0 sv0 assume "hget (tn_serving s) c0 = Some sv0"
      then show "w \<notin> set (in_hand sv0)"
        using v c stranded_held [OF st, of c0 sv0] by (cases "c0 = c") auto
    qed (use w wait [OF w] same(2) in simp_all)
    with ok show False by (simp add: tunnels_ok_def)
  qed
  moreover have "\<forall>c0 sv0. hget (tn_serving ?s) c0 = Some sv0 \<longrightarrow> c0 < tn_next ?s \<and> serving_ok (tn_calls ?s) sv0"
    using ok c sv'(1) same(1) by (auto simp: tunnels_ok_def)
  moreover have "registry_ok ?s"
    using ok reg by (auto simp: tunnels_ok_def registry_ok_def)
  moreover have "\<forall>fc \<in> set calls'. fc_channel fc < tn_next s"
    using ok by (simp add: tunnels_ok_def channels_bounded [OF chan])
  ultimately show ?thesis by (simp add: tunnels_ok_def)
qed

lemma disconnect_ok:
  assumes ok: "tunnels_ok s" and c: "hget (tn_serving s) c = Some sv"
  shows "tunnels_ok (disconnect c sv s)" (is "tunnels_ok ?s")
proof -
  have reg: "registered s agent \<Longrightarrow> agent \<noteq> sv_agent sv \<Longrightarrow> registered ?s agent" for agent
    using c by (auto simp: registered_def disconnect_def unregister_agent_def split: option.splits)
  have "registry_ok ?s"
    using ok reg by (auto simp: tunnels_ok_def registry_ok_def disconnect_def unregister_agent_def)
  moreover have "\<not> stranded ?s w" for w
  proof
    assume st: "stranded ?s w"
    then have w: "w < length (tn_calls s)" "fc_wait (tn_calls ?s ! w) = Waiting"
      by (auto simp: stranded_def disconnect_def)
    then have "w \<notin> set (in_hand sv)" "fc_wait (tn_calls s ! w) = Waiting"
      by (auto simp: disconnect_def wait_fold_resolve split: if_splits)
    have "stranded s w"
    proof (rule strandedI)
      fix c0 sv0 assume "hget (tn_serving s) c0 = Some sv0"
      then show "w \<notin> set (in_hand sv0)"
        using \<open>w \<notin> set (in_hand sv)\<close> c stranded_held [OF st, of c0 sv0]
        by (cases "c0 = c") (auto simp: disconnect_def)
    qed (use w(1) \<open>fc_wait (tn_calls s ! w) = Waiting\<close> in simp_all)
    with ok show False by (simp add: tunnels_ok_def)
  qed
  ultimately show ?thesis
    using ok by (auto simp: tunnels_ok_def disconnect_def)
qed

lemma connect_ok:
  assumes ok: "tunnels_ok s"
  shows "tunnels_ok (connect now agent s)" (is "tunnels_ok ?s")
proof -
  have new: "hget (tn_serving s) (tn_next s) = None"
    using ok by (metis not_None_eq order_less_irrefl tunnels_ok_def)
  have reg: "registered ?s b" if "registered s b \<or> b = agent" for b
    using that new by (auto simp: registered_def connect_def register_tunnel_def register_agent_def split: option.splits)
  have "registry_ok ?s"
    using ok reg by (auto simp: tunnels_ok_def registry_ok_def connect_def register_tunnel_def register_agent_def)
  moreover have "\<not> stranded ?s w" for w
  proof
    assume st: "stranded ?s w"
    have "stranded s w"
    proof (rule strandedI)
      fix c0 sv0 assume "hget (tn_serving s) c0 = Some sv0"
      then show "w \<notin> set (in_hand sv0)"
        using new stranded_held [OF st, of c0 sv0] by (cases "c0 = tn_next s") (auto simp: connect_def)
    qed (use st in \<open>simp_all add: stranded_def connect_def\<close>)
    with ok show False by (simp add: tunnels_ok_def)
  qed
  moreover have "serving_ok calls \<lparr>sv_agent = agent, sv_queue = [], sv_pending = []\<rparr>" for calls
    by (simp add: serving_ok_def)
  ultimately show ?thesis
    using ok by (auto simp: tunnels_ok_def connect_def less_Suc_eq)
qed

lemma forward_ok:
  assumes ok: "tunnels_ok s" and f: "forward agent rid meth url headers body s = (r, s')"
  shows "tunnels_ok s'"
proof (cases r)
  case (Inl e)
  with f ok show ?thesis by (auto simp: forward_def Let_def split: option.splits sum.splits)
next
  case (Inr w)
  with f obtain c sv where c: "hget (rg_tunnels (tn_registry s)) agent = Some c" "hget (tn_serving s) c = Some sv"
    and q: "length (sv_queue sv) < tunnel_queue_depth"
    and s': "s' = s\<lparr>tn_serving := hput c (sv\<lparr>sv_queue := sv_queue sv @
        [\<lparr>pr_id = rid, pr_method = meth, pr_url = url, pr_headers = mask_for_tunnel headers,
          pr_body = body, pr_responder = length (tn_calls s)\<rparr>]\<rparr>) (tn_serving s),
        tn_calls := tn_calls s @
          [\<lparr>fc_agent = agent, fc_id = rid, fc_wait = Waiting, fc_channel = c, fc_returned = False\<rparr>]\<rparr>"
    by (auto simp: forward_def try_send_def Let_def split: option.splits sum.splits if_splits)
  from ok c have agent: "sv_agent sv = agent" by (auto simp: tunnels_ok_def registry_ok_def registered_def split: option.splits)
  have "serving_ok (tn_calls s) sv" using ok c by (auto simp: tunnels_ok_def)
  then have "serving_ok (tn_calls s') sv" by (simp add: s' serving_ok_append)
  moreover have "call_matches (tn_calls s') agent rid (length (tn_calls s))"
    by (simp add: s' call_matches_def)
  ultimately have put: "serving_ok (tn_calls s') (sv\<lparr>sv_queue := sv_queue sv @
        [\<lparr>pr_id = rid, pr_method = meth, pr_url = url, pr_headers = mask_for_tunnel headers,
          pr_body = body, pr_responder = length (tn_calls s)\<rparr>]\<rparr>)"
    using q agent by (auto simp: serving_ok_def)
  have "c0 < tn_next s' \<and> serving_ok (tn_calls s') sv0" if g: "hget (tn_serving s') c0 = Some sv0" for c0 sv0
  proof (cases "c0 = c")
    case True
    with g put ok c show ?thesis by (auto simp: s' tunnels_ok_def)
  next
    case False
    with g have "hget (tn_serving s) c0 = Some sv0" by (simp add: s')
    with ok show ?thesis by (auto simp: s' tunnels_ok_def intro: serving_ok_append)
  qed
  moreover have "registered s b \<Longrightarrow> registered s' b" for b
    using c by (auto simp: s' registered_def split: option.splits)
  then have "registry_ok s'"
    using ok by (auto simp: s' tunnels_ok_def registry_ok_def)
  moreover have "\<not> stranded s' v" for v
  proof
    assume st: "stranded s' v"
    have "hget (tn_serving s') c \<noteq> None \<and> length (tn_calls s) \<in> set (in_hand (the (hget (tn_serving s') c)))"
      by (simp add: s' in_hand_def)
    then have "v \<noteq> length (tn_calls s)" using stranded_held [OF st, of c] by auto
    with st have v: "v < length (tn_calls s)" by (auto simp: stranded_def s')
    have "stranded s v"
      unfolding stranded_def
    proof (intro conjI allI impI)
      show "fc_wait (tn_calls s ! v) = Waiting" using st v by (simp add: stranded_def s' nth_append)
      fix c0 sv0 assume g: "hget (tn_serving s) c0 = Some sv0"
      show "v \<notin> set (in_hand sv0)"
        using c g stranded_held [OF st, of c0] by (cases "c0 = c") (auto simp: s' in_hand_def)
    qed (rule v)
    with ok show False by (simp add: tunnels_ok_def)
  qed
  moreover have "c < tn_next s" using ok c by (auto simp: tunnels_ok_def)
  then have "\<forall>fc \<in> set (tn_calls s'). fc_channel fc < tn_next s'"
    using ok by (auto simp: s' tunnels_ok_def)
  ultimately show ?thesis by (auto simp: tunnels_ok_def)
qed

lemma stranded_expire: "stranded (s\<lparr>tn_calls := resolve_call Timed_out w (tn_calls s)\<rparr>) v \<Longrightarrow> stranded s v"
  by (auto simp: stranded_def wait_resolve_call split: if_splits)

lemma expire_ok: "tunnels_ok s \<Longrightarrow> tunnels_ok (s\<lparr>tn_calls := resolve_call Timed_out w (tn_calls s)\<rparr>)"
  using stranded_expire [where s = s and w = w] by (auto simp: tunnels_ok_def registry_ok_def registered_def)

lemma return_ok: "tunnels_ok s \<Longrightarrow> tunnels_ok (s\<lparr>tn_calls := return_call w (tn_calls s)\<rparr>)"
  by (auto simp: tunnels_ok_def registry_ok_def registered_def stranded_def)

lemma hget_touch:
  "hget (rg_agents (touch_agent now a rg)) b = None \<longleftrightarrow> hget (rg_agents rg) b = None"
  "rg_tunnels (touch_agent now a rg) = rg_tunnels rg"
  by (auto simp: touch_agent_def split: option.splits)

lemma touch_ok: "tunnels_ok s \<Longrightarrow> tunnels_ok (s\<lparr>tn_registry := touch_agent now a (tn_registry s)\<rparr>)"
  by (auto simp: tunnels_ok_def registry_ok_def registered_def stranded_def hget_touch simp del: not_None_eq split: option.splits)

lemma on_text_ok:
  assumes ok: "tunnels_ok s" and c: "hget (tn_serving s) c = Some sv"
  shows "tunnels_ok (on_text parse tx c sv s)"
proof -
  have sv: "serving_ok (tn_calls s) sv" using ok c by (auto simp: tunnels_ok_def)
  have "tunnels_ok (s\<lparr>tn_serving := hput c (sv\<lparr>sv_pending := hdel rid (sv_pending sv)\<rparr>) (tn_serving s),
      tn_calls := resolve_call (Answered x) w (tn_calls s)\<rparr>)" if w: "hget (sv_pending sv) rid = Some w" for rid w x
  proof (rule put_serving_ok [OF ok c])
    show "serving_ok (resolve_call (Answered x) w (tn_calls s)) (sv\<lparr>sv_pending := hdel rid (sv_pending sv)\<rparr>)"
      using sv by (auto simp: serving_ok_def AList.delete_eq)
    fix v assume "v < length (resolve_call (Answered x) w (tn_calls s))"
      "fc_wait (resolve_call (Answered x) w (tn_calls s) ! v) = Waiting"
    then have v: "fc_wait (tn_calls s ! v) = Waiting" "v \<noteq> w" by (auto simp: wait_resolve_call split: if_splits)
    have "(rid, v) \<notin> set (sv_pending sv)"
      using w v sv hget_in_set [of "sv_pending sv" rid v] by (simp add: serving_ok_def)
    then have "v \<in> set (in_hand sv) \<longrightarrow> v \<in> set (in_hand (sv\<lparr>sv_pending := hdel rid (sv_pending sv)\<rparr>))"
      by (force simp: in_hand_def AList.delete_eq)
    with v show "fc_wait (tn_calls s ! v) = Waiting \<and>
        (v \<in> set (in_hand sv) \<longrightarrow> v \<in> set (in_hand (sv\<lparr>sv_pending := hdel rid (sv_pending sv)\<rparr>)))" by simp
  qed simp_all
  with ok show ?thesis by (auto simp: on_text_def split: option.splits)
qed

lemma in_hput: "(k', v') \<in> set (hput k v m) \<Longrightarrow> (k', v') = (k, v) \<or> (k', v') \<in> set m"
  by (induction m) (auto split: if_splits)

lemma on_request_ok:
  assumes ok: "tunnels_ok s" and c: "hget (tn_serving s) c = Some sv"
    and r: "on_request sent c sv s = Some (out, s')"
  shows "tunnels_ok s'"
proof (cases "sv_queue sv")
  case Nil
  with r disconnect_ok [OF ok c] show ?thesis by (auto simp: on_request_def split: if_splits)
next
  case (Cons req rest)
  define old where "old = (case hget (sv_pending sv) (pr_id req) of None \<Rightarrow> [] | Some w \<Rightarrow> [w])"
  define sv' where "sv' = sv\<lparr>sv_queue := rest,
    sv_pending := hput (pr_id req) (pr_responder req) (sv_pending sv)\<rparr>"
  define s1 where "s1 = s\<lparr>tn_serving := hput c sv' (tn_serving s),
    tn_calls := fold (resolve_call Abandoned) old (tn_calls s)\<rparr>"
  have sv: "serving_ok (tn_calls s) sv" using ok c by (auto simp: tunnels_ok_def)
  have "tunnels_ok s1"
    unfolding s1_def
  proof (rule put_serving_ok [OF ok c])
    show "serving_ok (fold (resolve_call Abandoned) old (tn_calls s)) sv'"
      using sv Cons by (auto simp: serving_ok_def sv'_def dest!: in_hput)
    show "sv_agent sv' = sv_agent sv" by (simp add: sv'_def)
    fix v assume "v < length (fold (resolve_call Abandoned) old (tn_calls s))"
      "fc_wait (fold (resolve_call Abandoned) old (tn_calls s) ! v) = Waiting"
    then have v: "fc_wait (tn_calls s ! v) = Waiting" "v \<notin> set old" by (auto simp: wait_fold_resolve split: if_splits)
    have "v \<in> set (in_hand sv')" if "v \<in> set (in_hand sv)"
    proof (cases "v \<in> pr_responder ` set (sv_queue sv)")
      case True
      with Cons have "v = pr_responder req \<or> v \<in> pr_responder ` set rest" by auto
      moreover have "pr_responder req \<in> snd ` set (sv_pending sv')"
        using map_of_SomeD [of "sv_pending sv'" "pr_id req"] by (force simp: sv'_def)
      ultimately show ?thesis by (auto simp: in_hand_def sv'_def)
    next
      case False
      with that obtain rid where rid: "(rid, v) \<in> set (sv_pending sv)" by (auto simp: in_hand_def)
      with sv have g: "hget (sv_pending sv) rid = Some v" by (simp add: hget_in_set serving_ok_def)
      with v(2) have "rid \<noteq> pr_id req" by (auto simp: old_def)
      with g have "hget (sv_pending sv') rid = Some v" by (simp add: sv'_def)
      then show ?thesis by (auto simp: in_hand_def dest!: map_of_SomeD intro!: image_eqI [of _ snd "(rid, v)"])
    qed
    with v show "fc_wait (tn_calls s ! v) = Waiting \<and> (v \<in> set (in_hand sv) \<longrightarrow> v \<in> set (in_hand sv'))" by simp
  qed simp_all
  moreover have "hget (tn_serving s1) c = Some sv'" by (simp add: s1_def)
  moreover have "s' = s1 \<or> s' = disconnect c sv' s1"
    using r Cons by (auto simp: on_request_def old_def sv'_def s1_def Let_def split: if_splits)
  ultimately show ?thesis using disconnect_ok by blast
qed

lemma handle_ok:
  assumes ok: "tunnels_ok s" and c: "hget (tn_serving s) c = Some sv"
    and h: "handle now parse ev c sv s = Some (out, s')"
  shows "tunnels_ok s'"
proof (cases ev)
  case (Heartbeat sent)
  with h ok disconnect_ok [OF ok c] show ?thesis by (auto simp: on_heartbeat_def split: if_splits)
next
  case (Socket frame)
  with h ok disconnect_ok [OF ok c] on_text_ok [OF ok c] touch_ok [OF ok] show ?thesis
    by (auto simp: on_socket_def split: option.splits frame_in.splits)
next
  case (Request sent)
  with h on_request_ok [OF ok c] show ?thesis by simp
qed

lemma tunnel_step_ok: "tunnel_step parse s s' \<Longrightarrow> tunnels_ok s \<Longrightarrow> tunnels_ok s'"
proof (induction rule: tunnel_step.induct)
  case (Expire s w)
  then show ?case using return_ok [OF expire_ok] by simp
qed (blast intro: connect_ok forward_ok return_ok handle_ok)+

lemma tunnels_reachable_ok: "tunnels_reachable parse s \<Longrightarrow> tunnels_ok s"
proof (induction rule: tunnels_reachable.induct)
  case Start
  show ?case by (simp add: new_tunnels_def new_registry_def tunnels_ok_def registry_ok_def stranded_def)
next
  case (Step s s')
  then show ?case by (blast intro: tunnel_step_ok)
qed

section \<open>Properties\<close>

lemma registered_serves:
  assumes "tunnels_ok s" and "hget (rg_tunnels (tn_registry s)) agent = Some c"
  obtains sv where "hget (tn_serving s) c = Some sv" "sv_agent sv = agent"
proof -
  from assms have "registered s agent" by (auto simp: tunnels_ok_def registry_ok_def)
  with assms(2) that show ?thesis by (auto simp: registered_def split: option.splits)
qed

text \<open>
  C7: (No forward hangs on a dead tunnel) Whatever happens, a call that still waits is in the queue or
  among the pending requests of a running handler of its own agent, under its own request id; so
  the calls of a socket that ends return at once.
\<close>

theorem waiting_calls_are_held:
  assumes "tunnels_reachable parse s" and "w < length (tn_calls s)" and "fc_wait (tn_calls s ! w) = Waiting"
  shows "\<exists>c sv. hget (tn_serving s) c = Some sv \<and> sv_agent sv = fc_agent (tn_calls s ! w) \<and>
    ((\<exists>req \<in> set (sv_queue sv). pr_responder req = w \<and> pr_id req = fc_id (tn_calls s ! w)) \<or>
     hget (sv_pending sv) (fc_id (tn_calls s ! w)) = Some w)"
proof -
  have ok: "tunnels_ok s" by (rule tunnels_reachable_ok [OF assms(1)])
  with assms(2,3) obtain c sv where c: "hget (tn_serving s) c = Some sv" "w \<in> set (in_hand sv)"
    by (auto simp: tunnels_ok_def stranded_def)
  with ok have sv: "serving_ok (tn_calls s) sv" by (auto simp: tunnels_ok_def)
  from c(2) consider req where "req \<in> set (sv_queue sv)" "pr_responder req = w"
    | rid where "(rid, w) \<in> set (sv_pending sv)" by (auto simp: in_hand_def)
  then show ?thesis
  proof cases
    case 1
    with sv have "call_matches (tn_calls s) (sv_agent sv) (pr_id req) w" by (auto simp: serving_ok_def)
    with c(1) 1 show ?thesis by (auto simp: call_matches_def)
  next
    case 2
    with c(1) sv show ?thesis
      using hget_in_set [of "sv_pending sv" rid w] by (auto simp: serving_ok_def call_matches_def)
  qed
qed

text \<open>
  (Forwarding) To an agent of the agents list a request is queued, unless sixteen requests are
  queued already, which is "agent overloaded"; to any other agent it is refused with "no tunnel".
  No request ever goes to a closed channel.
\<close>

theorem forward_to_listed_agents:
  assumes "tunnels_reachable parse s" and "forward agent rid meth url headers body s = (r, s')"
  shows "if hget (rg_agents (tn_registry s)) agent = None
    then r = Inl (''no tunnel for agent '' @ agent) \<and> s' = s
    else \<exists>c sv. hget (rg_tunnels (tn_registry s)) agent = Some c \<and> hget (tn_serving s) c = Some sv \<and>
      (if length (sv_queue sv) < 16
       then \<exists>w sv'. r = Inr w \<and> w = length (tn_calls s) \<and> fc_wait (tn_calls s' ! w) = Waiting \<and>
         hget (tn_serving s') c = Some sv' \<and> map pr_responder (sv_queue sv') = map pr_responder (sv_queue sv) @ [w] \<and>
         pr_headers (last (sv_queue sv')) = mask_for_tunnel headers
       else length (sv_queue sv) = 16 \<and> r = Inl ''agent overloaded'' \<and> s' = s)"
proof -
  have ok: "tunnels_ok s" by (rule tunnels_reachable_ok [OF assms(1)])
  then have listed: "hget (rg_agents (tn_registry s)) agent = None \<longleftrightarrow> hget (rg_tunnels (tn_registry s)) agent = None"
    unfolding tunnels_ok_def registry_ok_def by blast
  show ?thesis
  proof (cases "hget (rg_tunnels (tn_registry s)) agent")
    case None
    with assms(2) listed show ?thesis by (simp add: forward_def)
  next
    case (Some c)
    from registered_serves [OF ok Some] obtain sv where sv: "hget (tn_serving s) c = Some sv" by blast
    with ok have "length (sv_queue sv) \<le> 16" by (auto simp: tunnels_ok_def serving_ok_def tunnel_queue_depth_def)
    with Some sv assms(2) listed show ?thesis
      by (auto simp: forward_def try_send_def tunnel_queue_depth_def Let_def split: if_splits)
  qed
qed

lemma wait_answered:
  assumes "i < length calls" and "x \<noteq> Waiting" and "\<And>r. x \<noteq> Answered r"
    and "fc_wait (fold (resolve_call x) ws calls ! i) = Answered r"
  shows "fc_wait (calls ! i) = Answered r"
  using assms by (auto simp: wait_fold_resolve split: if_splits)

lemma disconnect_answers:
  "w < length (tn_calls s) \<Longrightarrow> fc_wait (tn_calls (disconnect c sv s) ! w) = Answered r \<Longrightarrow>
   fc_wait (tn_calls s ! w) = Answered r"
  by (auto simp: disconnect_def wait_fold_resolve split: if_splits)

lemma on_request_answers:
  assumes "on_request sent c sv s = Some (out, s')" and "w < length (tn_calls s)"
    and "fc_wait (tn_calls s' ! w) = Answered r"
  shows "fc_wait (tn_calls s ! w) = Answered r"
  using assms
  by (auto simp: on_request_def disconnect_def Let_def wait_fold_resolve wait_resolve_call
      split: if_splits list.splits option.splits)

lemma handle_answers:
  assumes "handle now parse ev c sv s = Some (out, s')" and "w < length (tn_calls s)"
    and "fc_wait (tn_calls s' ! w) = Answered r" and "fc_wait (tn_calls s ! w) \<noteq> Answered r"
  obtains tx where "ev = Socket (Some (Text_in tx))" "s' = on_text parse tx c sv s"
proof (cases ev)
  case (Heartbeat sent)
  with assms have False by (auto simp: on_heartbeat_def dest: disconnect_answers split: if_splits)
  then show ?thesis ..
next
  case (Socket frame)
  with assms that show ?thesis
    by (auto simp: on_socket_def dest: disconnect_answers split: option.splits frame_in.splits)
next
  case (Request sent)
  with assms have False by (auto dest: on_request_answers)
  then show ?thesis ..
qed

text \<open>
  C10: (Replies) A call is answered only once, while it waits, and only by a text frame that names its
  request id and comes through a socket of the agent it was sent to; the answer is that frame.
\<close>

theorem replies_reach_their_call:
  assumes "tunnels_reachable parse s" and "tunnel_step parse s s'" and "w < length (tn_calls s)"
    and "fc_wait (tn_calls s' ! w) = Answered r" and "fc_wait (tn_calls s ! w) \<noteq> Answered r"
  shows "fc_wait (tn_calls s ! w) = Waiting \<and>
    (\<exists>c sv tx val. hget (tn_serving s) c = Some sv \<and> sv_agent sv = fc_agent (tn_calls s ! w) \<and>
       parse tx = Some val \<and> jget ''id'' val = Some (JStr (fc_id (tn_calls s ! w))) \<and> r = reply_of val)"
  using assms(2)
proof cases
  case (Connect now agent)
  with assms(4,5) show ?thesis by (simp add: connect_def)
next
  case (Forward agent rid meth url headers body r')
  with assms(3,4,5) show ?thesis
    by (auto simp: forward_def try_send_def Let_def nth_append split: option.splits sum.splits if_splits)
next
  case (Expire v)
  with assms(3,4,5) show ?thesis by (auto simp: wait_resolve_call split: if_splits)
next
  case (Return v)
  with assms(4,5) show ?thesis by simp
next
  case (Handle c sv now ev out)
  obtain tx where s': "s' = on_text parse tx c sv s"
    using handle_answers [OF Handle(2) assms(3,4,5)] by blast
  with assms(4,5) obtain val rid v where val: "parse tx = Some val" "Option.bind (jget ''id'' val) as_str = Some rid"
    "hget (sv_pending sv) rid = Some v" and calls: "tn_calls s' = resolve_call (Answered (reply_of val)) v (tn_calls s)"
    by (auto simp: on_text_def split: option.splits)
  from calls assms(3,4,5) have w: "w = v" "fc_wait (tn_calls s ! w) = Waiting" "r = reply_of val"
    by (auto simp: wait_resolve_call split: if_splits)
  have "serving_ok (tn_calls s) sv"
    using tunnels_reachable_ok [OF assms(1)] Handle(1) by (auto simp: tunnels_ok_def)
  with val(3) w(1) have m: "call_matches (tn_calls s) (sv_agent sv) rid w"
    using map_of_SomeD [OF val(3)] by (simp add: serving_ok_def)
  from val(2) have "jget ''id'' val = Some (JStr rid)"
    by (cases "jget ''id'' val"; cases "the (jget ''id'' val)") auto
  with m val(1) w Handle(1) show ?thesis by (auto simp: call_matches_def)
qed


section \<open>Witnesses\<close>

definition demo_connected :: tunnel_state where
  "demo_connected = connect (f64_of_int 1000) ''edge'' new_tunnels"

definition demo_waiting :: tunnel_state where
  "demo_waiting = snd (forward ''edge'' ''req-7'' ''POST'' ''http://llm'' [] None demo_connected)"

definition demo_parse :: "string \<Rightarrow> json option" where
  "demo_parse tx = Some (JObj [(''body'', JStr tx), (''id'', JStr ''req-7''), (''status'', JPos 201)])"

definition demo_serving :: serving where
  "demo_serving = \<lparr>sv_agent = ''edge'', sv_queue = [], sv_pending = []\<rparr>"

definition demo_request :: proxy_request where
  "demo_request = \<lparr>pr_id = ''req-7'', pr_method = ''POST'', pr_url = ''http://llm'',
     pr_headers = mask_for_tunnel [], pr_body = None, pr_responder = 0\<rparr>"

definition demo_sent :: tunnel_state where
  "demo_sent = demo_waiting\<lparr>tn_serving := hput 0 (demo_serving\<lparr>sv_pending := [(''req-7'', 0)]\<rparr>) (tn_serving demo_waiting)\<rparr>"

lemma demo_tunnels:
  "tn_serving demo_connected = [(0, demo_serving)]"
  "rg_tunnels (tn_registry demo_connected) = [(''edge'', 0)]"
  "map_option ac_agent_id (hget (rg_agents (tn_registry demo_connected)) ''edge'') = Some ''edge''"
  "tn_calls demo_connected = []" "tn_next demo_connected = 1"
  by (simp_all add: demo_connected_def connect_def register_tunnel_def register_agent_def new_tunnels_def
      new_registry_def demo_serving_def)

lemma demo_forward:
  "forward ''edge'' ''req-7'' ''POST'' ''http://llm'' [] None demo_connected = (Inr 0, demo_waiting)"
  "tn_serving demo_waiting = [(0, demo_serving\<lparr>sv_queue := [demo_request]\<rparr>)]"
  "tn_calls demo_waiting = [\<lparr>fc_agent = ''edge'', fc_id = ''req-7'', fc_wait = Waiting, fc_channel = 0,
    fc_returned = False\<rparr>]"
  by (simp_all add: demo_waiting_def forward_def demo_tunnels try_send_def demo_serving_def
      tunnel_queue_depth_def demo_request_def)

lemma demo_reachable:
  "tunnels_reachable demo_parse demo_connected" "tunnels_reachable demo_parse demo_waiting"
  "tunnels_reachable demo_parse demo_sent"
proof -
  show c: "tunnels_reachable demo_parse demo_connected"
    unfolding demo_connected_def by (rule Step [OF Start Connect])
  show w: "tunnels_reachable demo_parse demo_waiting"
    by (rule Step [OF c Forward [OF demo_forward(1)]])
  have h: "handle (f64_of_int 1000) demo_parse (Request True) 0 (demo_serving\<lparr>sv_queue := [demo_request]\<rparr>) demo_waiting
      = Some ([Text_out (request_frame demo_request)], demo_sent)"
    by (simp add: on_request_def demo_sent_def demo_serving_def demo_request_def)
  show "tunnels_reachable demo_parse demo_sent"
    by (rule Step [OF w Handle [OF _ h]]) (simp add: demo_forward)
qed

theorem waiting_calls_are_held_witness:
  "\<exists>c sv. hget (tn_serving demo_waiting) c = Some sv \<and> sv_agent sv = ''edge'' \<and>
    ((\<exists>req \<in> set (sv_queue sv). pr_responder req = 0 \<and> pr_id req = ''req-7'') \<or>
     hget (sv_pending sv) ''req-7'' = Some 0)"
  using waiting_calls_are_held [OF demo_reachable(2), of 0] by (simp add: demo_forward)

theorem forward_to_listed_agents_witness:
  "\<exists>c sv. hget (rg_tunnels (tn_registry demo_connected)) ''edge'' = Some c \<and>
    hget (tn_serving demo_connected) c = Some sv \<and> length (sv_queue sv) < 16 \<and>
    forward ''edge'' ''req-7'' ''POST'' ''http://llm'' [] None demo_connected = (Inr 0, demo_waiting)"
proof -
  have "hget (rg_agents (tn_registry demo_connected)) ''edge'' \<noteq> None" using demo_tunnels(3) by auto
  then show ?thesis
    using forward_to_listed_agents [OF demo_reachable(1) demo_forward(1)]
    by (auto simp: demo_forward split: if_splits)
qed

theorem replies_reach_their_call_witness:
  "\<exists>s'. tunnel_step demo_parse demo_sent s' \<and>
     fc_wait (tn_calls s' ! 0) = Answered (reply_of (the (demo_parse ''hello''))) \<and>
     fc_wait (tn_calls demo_sent ! 0) = Waiting"
proof -
  let ?sv = "demo_serving\<lparr>sv_pending := [(''req-7'', 0)]\<rparr>"
  let ?s' = "on_text demo_parse ''hello'' 0 ?sv demo_sent"
  have sv: "hget (tn_serving demo_sent) 0 = Some ?sv" by (simp add: demo_sent_def)
  have calls: "tn_calls demo_sent = [\<lparr>fc_agent = ''edge'', fc_id = ''req-7'', fc_wait = Waiting, fc_channel = 0,
    fc_returned = False\<rparr>]"
    by (simp add: demo_sent_def demo_forward)
  have st: "tunnel_step demo_parse demo_sent ?s'"
    by (rule Handle [OF sv, of "f64_of_int 1000" _ "Socket (Some (Text_in ''hello''))" "[]"]) (simp add: on_socket_def)
  have a: "fc_wait (tn_calls ?s' ! 0) = Answered (reply_of (the (demo_parse ''hello'')))"
    by (simp add: on_text_def demo_parse_def calls resolve_call_def)
  have "fc_wait (tn_calls demo_sent ! 0) = Waiting"
    using replies_reach_their_call [OF demo_reachable(3) st _ a] by (simp add: calls)
  with st a show ?thesis by blast
qed


end
