(* ===== verification/Providers.thy ===== *)
theory Providers
  imports Gateway Tunnel
begin

text \<open>
  \<open>fwllm-gateway/src/providers.rs\<close>: the egress client, the requests of the OpenAI-compatible
  provider, its reading of answers and of event streams, and the tunnel provider.  The HTTP
  library is a parameter: what \<open>send\<close> gives is the type \<open>sent\<close>, what parses a proxy URL and builds a client
  are functions.  JSON text is read by \<open>parse\<close>, which gives an error text or a value.
\<close>

section \<open>The egress client\<close>

datatype transport = No_proxy | Proxied string

definition build_client ::
  "(string \<Rightarrow> string option) \<Rightarrow> (transport \<Rightarrow> string option) \<Rightarrow> egress_config \<Rightarrow> string + transport" where
  "build_client proxy_error build_error egress =
     (case (if eg_mode egress = ''direct'' then Inr No_proxy
            else if eg_mode egress = ''single_proxy''
            then (case eg_proxy_url egress of
                    None \<Rightarrow> Inl ''egress.mode=single_proxy requires proxy_url''
                  | Some url \<Rightarrow>
                      (case proxy_error url of Some e \<Rightarrow> Inl (''invalid egress proxy_url: '' @ e)
                       | None \<Rightarrow> Inr (Proxied url)))
            else Inl (''unsupported egress.mode '' @ quoted (eg_mode egress) @ '' in this build'')) of
        Inl e \<Rightarrow> Inl e
      | Inr t \<Rightarrow> (case build_error t of Some e \<Rightarrow> Inl (''http client: '' @ e) | None \<Rightarrow> Inr t))"

section \<open>The OpenAI-compatible provider\<close>

record openai =
  op_transport :: transport
  op_base_url :: string
  op_api_key :: "string option"
  op_extra_headers :: "(string \<times> string) list"

definition with_client :: "string \<Rightarrow> string option \<Rightarrow> (string \<times> string) list \<Rightarrow> transport \<Rightarrow> openai" where
  "with_client base_url api_key extra_headers http =
     \<lparr>op_transport = http, op_base_url = trim_end_matches CHR ''/'' base_url, op_api_key = api_key,
      op_extra_headers = extra_headers\<rparr>"

text \<open>\<open>OpenAiCompatProvider::new\<close>, with a client of its own; an error of the client builder is a panic.\<close>

definition new_openai ::
  "(transport \<Rightarrow> string option) \<Rightarrow> string \<Rightarrow> string option \<Rightarrow> (string \<times> string) list \<Rightarrow> string + openai" where
  "new_openai build_error base_url api_key extra_headers =
     (case build_error No_proxy of Some e \<Rightarrow> Inl (''reqwest client: '' @ e)
      | None \<Rightarrow> Inr (\<lparr>op_transport = No_proxy, op_base_url = trim_end_matches CHR ''/'' base_url, op_api_key = api_key,
          op_extra_headers = extra_headers\<rparr>))"

lemma new_openai_with_client:
  "new_openai build_error base_url api_key hs = Inr p \<Longrightarrow> p = with_client base_url api_key hs No_proxy"
  by (simp add: new_openai_def with_client_def split: option.splits)

record http_request =
  hq_url :: string
  hq_headers :: "(string \<times> string) list"
  hq_body :: json

text \<open>\<open>None\<close> is the panic of an index assignment on a payload that is no object.\<close>

definition stream_body :: "json \<Rightarrow> json option" where
  "stream_body payload =
     Option.bind (jset ''stream'' (JBool True) payload)
       (\<lambda>body. jset ''stream_options'' (with_usage (jget ''stream_options'' body)) body)"

definition build_request :: "openai \<Rightarrow> json \<Rightarrow> bool \<Rightarrow> http_request option" where
  "build_request o' payload stream =
     map_option (\<lambda>body.
       \<lparr>hq_url = op_base_url o' @ ''/chat/completions'',
        hq_headers = [(''content-type'', ''application/json''),
            (''accept'', if stream then ''text/event-stream'' else ''application/json'')]
          @ (case op_api_key o' of Some key \<Rightarrow> [(''authorization'', ''Bearer '' @ key)] | None \<Rightarrow> [])
          @ op_extra_headers o',
        hq_body = body\<rparr>)
       (if stream then stream_body payload else Some payload)"

text \<open>What sending gives: a failure, with a status if the library knows one, or status and body.\<close>

datatype sent = Failed "nat option" string | Answer nat string

definition is_success :: "nat \<Rightarrow> bool" where
  "is_success status \<longleftrightarrow> 200 \<le> status \<and> status < 300"

definition send_failure :: "nat option \<Rightarrow> string \<Rightarrow> provider_error" where
  "send_failure status e = (case status of Some s \<Rightarrow> Http s [] | None \<Rightarrow> Connection e)"

definition body_value :: "(string \<Rightarrow> string + json) \<Rightarrow> string \<Rightarrow> provider_error + json" where
  "body_value parse body =
     (case parse body of Inr v \<Rightarrow> Inr v | Inl e \<Rightarrow> Inl (Connection (''non-JSON body: '' @ e)))"

definition openai_chat :: "(string \<Rightarrow> string + json) \<Rightarrow> sent \<Rightarrow> provider_error + json" where
  "openai_chat parse s =
     (case s of
        Failed status e \<Rightarrow> Inl (send_failure status e)
      | Answer status body \<Rightarrow>
          if \<not> is_success status then Inl (Http status (chars_take 200 body)) else body_value parse body)"

section \<open>Event streams\<close>

text \<open>The lines of a body: \<open>next_line\<close> gives a line without its end, or an I/O error.\<close>

type_synonym line = "string + string"

definition sse_data :: "string \<Rightarrow> string option" where
  "sse_data line = strip_prefix ''data: '' (trim line)"

text \<open>One call of the closure of \<open>unfold\<close>: the next item and the lines after it.\<close>

fun sse_next :: "(string \<Rightarrow> string + json) \<Rightarrow> line list \<Rightarrow> ((provider_error + json) \<times> line list) option" where
  "sse_next parse [] = None"
| "sse_next parse (Inl e # ls) = Some (Inl (Connection e), ls)"
| "sse_next parse (Inr line # ls) =
     (case sse_data line of
        None \<Rightarrow> sse_next parse ls
      | Some data \<Rightarrow>
          if data = ''[DONE]'' then None
          else (case parse data of Inr v \<Rightarrow> Some (Inr v, ls) | Inl e \<Rightarrow> sse_next parse ls))"

lemma sse_next_shorter: "sse_next parse ls = Some (x, ls') \<Longrightarrow> length ls' < length ls"
  by (induction parse ls rule: sse_next.induct)
    (auto split: option.splits sum.splits if_splits intro: less_SucI)

function sse_items :: "(string \<Rightarrow> string + json) \<Rightarrow> line list \<Rightarrow> (provider_error + json) list" where
  "sse_items parse ls = (case sse_next parse ls of None \<Rightarrow> [] | Some (x, ls') \<Rightarrow> x # sse_items parse ls')"
  by pat_completeness auto
termination
  by (relation "measure (\<lambda>(parse, ls). length ls)") (auto dest: sse_next_shorter)

declare sse_items.simps [simp del]

definition openai_stream ::
  "(string \<Rightarrow> string + json) \<Rightarrow> sent \<Rightarrow> line list \<Rightarrow> provider_error + (provider_error + json) list" where
  "openai_stream parse s ls =
     (case s of
        Failed status e \<Rightarrow> Inl (send_failure status e)
      | Answer status body \<Rightarrow>
          if \<not> is_success status then Inl (Http status (chars_take 200 body)) else Inr (sse_items parse ls))"

text \<open>\<open>lines()\<close> of a text that arrived whole, and the frames the gateway itself writes.\<close>

definition strip_cr :: "string \<Rightarrow> string" where
  "strip_cr l = (case strip_suffix [CHR 0x0D] l of Some l' \<Rightarrow> l' | None \<Rightarrow> l)"

definition lines_of :: "string \<Rightarrow> string list" where
  "lines_of tx = (let ps = split_on CHR 0x0A tx in map strip_cr (if last ps = [] then butlast ps else ps))"

definition sse_frame :: "string \<Rightarrow> string" where
  "sse_frame tx = ''data: '' @ tx @ [CHR 0x0A, CHR 0x0A]"

section \<open>The tunnel provider\<close>

record tunnel_provider =
  tp_agent_id :: string
  tp_base_url :: string
  tp_api_key :: "string option"

text \<open>What \<open>chat\<close> forwards: method, URL, headers and body.\<close>

definition tunnel_request ::
  "(json \<Rightarrow> string) \<Rightarrow> tunnel_provider \<Rightarrow> json \<Rightarrow> string \<times> string \<times> (string, string) hmap \<times> string option" where
  "tunnel_request to_text tp payload =
     (''POST'', trim_end_matches CHR ''/'' (tp_base_url tp) @ ''/chat/completions'',
      (let headers = hput ''content-type'' ''application/json'' []
       in case tp_api_key tp of Some key \<Rightarrow> hput ''authorization'' (''Bearer '' @ key) headers | None \<Rightarrow> headers),
      Some (to_text payload))"

definition tunnel_chat :: "(string \<Rightarrow> string + json) \<Rightarrow> string + proxy_response \<Rightarrow> provider_error + json" where
  "tunnel_chat parse forwarded =
     (case forwarded of
        Inl e \<Rightarrow> Inl (Connection e)
      | Inr resp \<Rightarrow>
          if 400 \<le> ps_status resp then Inl (Http (ps_status resp) (chars_take 200 (ps_body resp)))
          else body_value parse (ps_body resp))"

text \<open>The trait's default \<open>chat_stream\<close>, which the tunnel provider keeps.\<close>

definition streaming_unsupported :: "provider_error + (provider_error + json) list" where
  "streaming_unsupported = Inl (Connection ''streaming unsupported'')"

section \<open>Lemmas\<close>

text \<open>The items of a stream, as a description: what each line up to the end marker gives.\<close>

definition is_done :: "line \<Rightarrow> bool" where
  "is_done l \<longleftrightarrow> (case l of Inl e \<Rightarrow> False | Inr line \<Rightarrow> sse_data line = Some ''[DONE]'')"

definition line_item :: "(string \<Rightarrow> string + json) \<Rightarrow> line \<Rightarrow> (provider_error + json) option" where
  "line_item parse l =
     (case l of Inl e \<Rightarrow> Some (Inl (Connection e))
      | Inr line \<Rightarrow> (case sse_data line of None \<Rightarrow> None
          | Some data \<Rightarrow> (case parse data of Inr v \<Rightarrow> Some (Inr v) | Inl e \<Rightarrow> None)))"

lemma sse_items_step:
  "sse_items parse (l # ls) =
     (if is_done l then [] else (case line_item parse l of Some x \<Rightarrow> [x] | None \<Rightarrow> []) @ sse_items parse ls)"
proof (cases l)
  case (Inl e)
  then show ?thesis by (subst sse_items.simps) (simp add: is_done_def line_item_def)
next
  case (Inr line)
  show ?thesis
  proof (cases "line_item parse l")
    case None
    then have "\<not> is_done l \<Longrightarrow> sse_next parse (l # ls) = sse_next parse ls"
      using Inr by (auto simp: is_done_def line_item_def split: option.splits sum.splits)
    then show ?thesis
      using Inr None by (subst (1 2) sse_items.simps) (auto simp: is_done_def split: option.splits)
  next
    case (Some x)
    then have "\<not> is_done l \<Longrightarrow> sse_next parse (l # ls) = Some (x, ls)"
      using Inr by (auto simp: is_done_def line_item_def split: option.splits sum.splits)
    then show ?thesis
      using Inr Some by (subst sse_items.simps) (auto simp: is_done_def split: option.splits)
  qed
qed

lemma sse_items_filter:
  "sse_items parse ls = List.map_filter (line_item parse) (takeWhile (\<lambda>l. \<not> is_done l) ls)"
proof (induction ls)
  case Nil
  show ?case by (simp add: sse_items.simps List.map_filter_simps)
next
  case (Cons l ls)
  then show ?case by (simp add: sse_items_step List.map_filter_simps split: option.split)
qed

lemma split_on_append: "c \<notin> set a \<Longrightarrow> split_on c (a @ c # b) = a # split_on c b"
  by (induction a) auto

lemma split_on_not_Nil [simp]: "split_on c s \<noteq> []"
  by (induction s) (auto split: list.split)

lemma lines_of_append:
  assumes "CHR 0x0A \<notin> set a" and "CHR 0x0D \<notin> set a"
  shows "lines_of (a @ CHR 0x0A # b) = a # lines_of b"
proof -
  have "strip_cr a = a"
    using assms(2) by (auto simp: strip_cr_def strip_suffix_Some split: option.split)
  then show ?thesis
    using split_on_append [OF assms(1), of b] by (simp add: lines_of_def Let_def)
qed

lemma lines_of_Nil [simp]: "lines_of [] = []"
  by (simp add: lines_of_def)

text \<open>The text of a frame: one line of \<open>to_string\<close>'s output, not the end marker.\<close>

definition frame_text :: "string \<Rightarrow> bool" where
  "frame_text t \<longleftrightarrow> CHR 0x0A \<notin> set t \<and> CHR 0x0D \<notin> set t \<and> t \<noteq> [] \<and> visible (last t) \<and> t \<noteq> ''[DONE]''"

lemma sse_data_frame:
  assumes "t \<noteq> []" and "visible (last t)"
  shows "sse_data (''data: '' @ t) = Some t"
proof -
  have "trim (''data: '' @ t) = ''data: '' @ t"
    using assms by (intro trim_visible) (simp add: visible_def byte_def)
  moreover have "strip_prefix ''data: '' (''data: '' @ t) = Some t"
    by (simp add: strip_prefix_Some)
  ultimately show ?thesis by (simp add: sse_data_def)
qed

lemma sse_data_blank [simp]: "sse_data [] = None"
  by (simp add: sse_data_def)

lemma lines_of_frame:
  assumes "CHR 0x0A \<notin> set t" and "CHR 0x0D \<notin> set t"
  shows "lines_of (sse_frame t @ rest) = (''data: '' @ t) # [] # lines_of rest"
proof -
  have "sse_frame t @ rest = (''data: '' @ t) @ CHR 0x0A # [] @ CHR 0x0A # rest"
    by (simp add: sse_frame_def)
  moreover have "lines_of ([] @ CHR 0x0A # rest) = [] # lines_of rest"
    by (rule lines_of_append) simp_all
  ultimately show ?thesis
    using assms by (simp only: lines_of_append [of "''data: '' @ t"]) (subst lines_of_append, simp_all)
qed

lemma sse_items_blank: "sse_items parse (Inr [] # ls) = sse_items parse ls"
  by (simp add: sse_items_step is_done_def line_item_def)

lemma sse_items_frame:
  assumes "frame_text t" and "parse t = Inr v"
  shows "sse_items parse (map Inr (lines_of (sse_frame t @ rest))) =
    Inr v # sse_items parse (map Inr (lines_of rest))"
  using assms
  by (simp add: frame_text_def lines_of_frame sse_items_step [of parse "Inr (''data: '' @ t)"] sse_items_blank
      is_done_def line_item_def sse_data_frame del: append.simps append_Cons)

lemma sse_items_done:
  "sse_items parse (map Inr (lines_of (sse_frame ''[DONE]'' @ rest))) = []"
proof -
  have "sse_data (''data: '' @ ''[DONE]'') = Some ''[DONE]''"
    by (rule sse_data_frame) (simp_all add: visible_def byte_def)
  then show ?thesis
    by (subst lines_of_frame) (simp_all add: sse_items_step is_done_def del: append.simps append_Cons)
qed

section \<open>Properties\<close>

text \<open>
  (Event streams are read back) What the provider reads from a stream of frames, as the gateway
  itself writes them, ended by the marker \<open>[DONE]\<close>, are the values of the frames in order; nothing
  after the marker is read.
\<close>

theorem stream_read_back:
  assumes "is_success status"
    and "\<forall>v \<in> set vs. frame_text (to_text v) \<and> parse (to_text v) = Inr v"
  shows "openai_stream parse (Answer status [])
      (map Inr (lines_of (concat (map (\<lambda>v. sse_frame (to_text v)) vs) @ sse_frame ''[DONE]'' @ rest))) =
    Inr (map Inr vs)"
proof -
  have "sse_items parse
      (map Inr (lines_of (concat (map (\<lambda>v. sse_frame (to_text v)) vs) @ sse_frame ''[DONE]'' @ rest))) = map Inr vs"
    using assms(2)
  proof (induction vs)
    case Nil
    show ?case using sse_items_done [of parse rest] by simp
  next
    case (Cons v vs)
    then show ?case
      using sse_items_frame [of "to_text v" parse v] by simp
  qed
  then show ?thesis using assms(1) by (simp add: openai_stream_def)
qed

text \<open>
  (What a provider's stream delivers) The items are, for each line before the marker, the value
  of its data, or the I/O error of the line; lines that are no data and data that is no JSON are
  passed over without a trace, and an I/O error does not end the stream.
\<close>

theorem stream_items_by_line:
  "openai_stream parse s ls =
     (case s of
        Failed status e \<Rightarrow> Inl (case status of Some n \<Rightarrow> Http n [] | None \<Rightarrow> Connection e)
      | Answer status body \<Rightarrow>
          if 200 \<le> status \<and> status < 300
          then Inr (List.map_filter (line_item parse) (takeWhile (\<lambda>l. \<not> is_done l) ls))
          else Inl (Http status (chars_take 200 body)))"
  by (auto simp: openai_stream_def sse_items_filter is_success_def send_failure_def split: sent.split option.split)

text \<open>
  (Two ways to a provider) The answer of a reply is the same through the tunnel and directly, if its
  status is a success or at least 400; for any other status the tunnel reads the body as a
  completion where the direct provider reports the status as an error.
\<close>

theorem tunnel_and_direct:
  "tunnel_chat parse (Inr r) =
     (if is_success (ps_status r) \<or> 400 \<le> ps_status r then openai_chat parse (Answer (ps_status r) (ps_body r))
      else body_value parse (ps_body r)) \<and>
   (openai_chat parse (Answer (ps_status r) (ps_body r)) =
     (if is_success (ps_status r) then body_value parse (ps_body r)
      else Inl (Http (ps_status r) (chars_take 200 (ps_body r)))))"
  by (simp add: tunnel_chat_def openai_chat_def is_success_def)

section \<open>Witnesses\<close>

definition demo_json_text :: "json \<Rightarrow> string" where
  "demo_json_text v = (case v of JStr s \<Rightarrow> [CHR 0x22] @ s @ [CHR 0x22] | JBool b \<Rightarrow> (if b then ''true'' else ''false'') | _ \<Rightarrow> ''null'')"

definition demo_json_parse :: "string \<Rightarrow> string + json" where
  "demo_json_parse t =
     (if t = ''true'' then Inr (JBool True) else if t = ''null'' then Inr JNull
      else if take 1 t = [CHR 0x22] then Inr (JStr (butlast (tl t))) else Inl ''expected value'')"

theorem stream_read_back_witness:
  "openai_stream demo_json_parse (Answer 200 [])
     (map Inr (lines_of (concat (map (\<lambda>v. sse_frame (demo_json_text v)) [JStr ''hi'', JBool True])
        @ sse_frame ''[DONE]'' @ ''data: true''))) = Inr [Inr (JStr ''hi''), Inr (JBool True)]"
  by (subst stream_read_back)
    (simp_all add: is_success_def frame_text_def demo_json_text_def demo_json_parse_def visible_def byte_def)

end
