(* ===== verification/App_State.thy ===== *)
theory App_State
  imports Gateway_Traffic Providers
begin

text \<open>
  \<open>fwllm-gateway/src/state.rs\<close>: how the gateway is put together from its configuration.
  \<open>Inl\<close> is a panic with its message.  What the libraries say at start-up (proxy URLs, the HTTP client,
  the ONNX model, the Redis URL) is the record \<open>startup\<close>; the maps of the configuration are listed
  in the order of their keys, as a \<open>BTreeMap\<close> iterates.  The publish callback spawns a task that
  tells the router of an attack: \<open>deliver_attack\<close> runs the oldest of them.
\<close>

section \<open>Providers\<close>

record startup =
  su_proxy_error :: "string \<Rightarrow> string option"
  su_build_error :: "transport \<Rightarrow> string option"
  su_load :: "string \<Rightarrow> (string \<Rightarrow> (string \<times> f64) option) option"
  su_redis_error :: "string \<Rightarrow> string option"

text \<open>A provider of the registry; \<open>Given\<close> is one that the caller of \<open>build\<close> hands in.\<close>

datatype 'p provider = Direct openai | Via_tunnel tunnel_provider | Given 'p

definition openrouter_headers :: "(string \<times> string) list" where
  "openrouter_headers = [(''HTTP-Referer'', ''https://github.com/SoldatovAlexander/Firewall-LLM''),
     (''X-Title'', ''Firewall LLM'')]"

definition make_provider :: "transport \<Rightarrow> string \<Rightarrow> provider_config \<Rightarrow> string + 'p provider" where
  "make_provider http name pcfg =
     (if pv_type pcfg = ''tunnel''
      then (case pv_agent_id pcfg of
          None \<Rightarrow> Inl (''tunnel provider '' @ quoted name @ '' requires agent_id'')
        | Some agent_id \<Rightarrow> Inr (Via_tunnel
            \<lparr>tp_agent_id = agent_id, tp_base_url = pv_base_url pcfg, tp_api_key = pv_api_key pcfg\<rparr>))
      else Inr (Direct (with_client (pv_base_url pcfg) (pv_api_key pcfg)
        (if pv_type pcfg = ''openrouter'' then openrouter_headers else []) http)))"

fun make_providers ::
  "transport \<Rightarrow> (string, provider_config) hmap \<Rightarrow> (string, 'p provider) hmap
     \<Rightarrow> string + (string, 'p provider) hmap" where
  "make_providers http [] reg = Inr reg"
| "make_providers http ((name, pcfg) # ps) reg =
     (case make_provider http name pcfg of
        Inl e \<Rightarrow> Inl e
      | Inr p \<Rightarrow> make_providers http ps (hput name p reg))"

section \<open>Building the state\<close>

text \<open>\<open>Duration::from_secs_f64\<close>: its panic, if it panics.\<close>

definition duration_limit :: f64 where
  "duration_limit = f64_of_int (2 ^ 64)"

definition duration_panic :: "f64 \<Rightarrow> string option" where
  "duration_panic secs =
     (if f64_lt secs (f64_of_int 0)
      then Some ''cannot convert float seconds to Duration: value is negative''
      else if f64_lt secs duration_limit then None
      else Some ''cannot convert float seconds to Duration: value is either too big or NaN'')"

definition with_chain :: "config \<Rightarrow> routing_config" where
  "with_chain cfg = (let routing = cfg_routing cfg in
     if rt_default_chain routing = [] then routing\<lparr>rt_default_chain := hkeys (cfg_providers cfg)\<rparr> else routing)"

definition redis_router_panic :: string where
  "redis_router_panic = ''routing.state_store = '' @ quoted ''redis'' @
     '' is not supported by the Rust gateway: use '' @ quoted ''memory'' @
     '' (single process) or the Python gateway for shared routing state''"

definition build_router :: "config \<Rightarrow> string + policy_engine" where
  "build_router cfg =
     (if rt_state_store (cfg_routing cfg) = ''redis'' then Inl redis_router_panic
      else (case validate_routing (with_chain cfg) (hkeys (cfg_providers cfg)) of
          Some msg \<Rightarrow> Inl msg
        | None \<Rightarrow> Inr (new_engine (with_chain cfg))))"

fun config_error_text :: "config_error \<Rightarrow> string" where
  "config_error_text (Io e) = ''io error: '' @ e"
| "config_error_text (Parse e) = ''failed to parse config: '' @ e"
| "config_error_text (Validation e) = ''invalid config: '' @ e"

definition build_inspectors :: "startup \<Rightarrow> config \<Rightarrow> string + chain" where
  "build_inspectors su cfg =
     (case chain_from_config (su_load su) (cfg_inspectors cfg) of
        Inl e \<Rightarrow> Inl (''failed to build inspectors: '' @ config_error_text e)
      | Inr c \<Rightarrow> Inr (c\<lparr>ch_publish := True\<rparr>))"

definition build_metering :: "startup \<Rightarrow> config \<Rightarrow> metering option \<Rightarrow> string + metering option" where
  "build_metering su cfg given =
     (case given of Some m \<Rightarrow> Inr (Some m)
      | None \<Rightarrow>
          (case su_redis_error su (cfg_redis_url cfg) of
             Some e \<Rightarrow> Inl (''invalid redis_url '' @ quoted (cfg_redis_url cfg) @ '': '' @ e)
           | None \<Rightarrow> Inr (Some (new_metering (cfg_quotas cfg)))))"

record 'p app_state =
  as_inspectors :: chain
  as_config :: config
  as_clients :: token_table
  as_admin_clients :: token_table
  as_providers :: "(string, 'p provider) hmap"
  as_router :: policy_engine
  as_metering :: "metering option"
  as_audit :: "audit_log option"
  as_ingress :: registry

definition build ::
  "startup \<Rightarrow> config \<Rightarrow> (string, 'p provider) hmap option \<Rightarrow> metering option \<Rightarrow> audit_log option
     \<Rightarrow> string + 'p app_state" where
  "build su cfg providers metering_override audit =
     (case duration_panic (srv_timeout (cfg_server cfg)) of Some e \<Rightarrow> Inl e | None \<Rightarrow>
     (case build_client (su_proxy_error su) (su_build_error su) (cfg_egress cfg) of
        Inl e \<Rightarrow> Inl (''invalid egress config: '' @ e) | Inr http \<Rightarrow>
     (case (case providers of Some reg \<Rightarrow> Inr reg | None \<Rightarrow> make_providers http (cfg_providers cfg) []) of
        Inl e \<Rightarrow> Inl e | Inr reg \<Rightarrow>
     (case build_router cfg of Inl e \<Rightarrow> Inl e | Inr router \<Rightarrow>
     (case build_inspectors su cfg of Inl e \<Rightarrow> Inl e | Inr inspectors \<Rightarrow>
     (case build_metering su cfg metering_override of Inl e \<Rightarrow> Inl e | Inr metering \<Rightarrow>
        Inr \<lparr>as_inspectors = inspectors, as_config = cfg, as_clients = cfg_clients cfg,
          as_admin_clients = cfg_admin_clients cfg, as_providers = reg, as_router = router,
          as_metering = metering, as_audit = audit, as_ingress = new_registry\<rparr>))))))"

text \<open>\<open>build_app_full\<close>: an audit log that cannot be opened is left out, with a warning.\<close>

definition build_app_full ::
  "startup \<Rightarrow> (audit_config \<Rightarrow> string + audit_log) \<Rightarrow> config \<Rightarrow> (string, 'p provider) hmap option
     \<Rightarrow> metering option \<Rightarrow> string + 'p app_state" where
  "build_app_full su open_audit cfg providers metering =
     build su cfg providers metering
       (case open_audit (cfg_audit cfg) of Inr lg \<Rightarrow> Some lg | Inl e \<Rightarrow> None)"

text \<open>The constructors of \<open>AppState\<close> without an audit log, and \<open>build_app_with_metering\<close>.\<close>

definition new_with_metering ::
  "startup \<Rightarrow> config \<Rightarrow> (string, 'p provider) hmap option \<Rightarrow> metering option \<Rightarrow> string + 'p app_state" where
  "new_with_metering su cfg providers metering_override = build su cfg providers metering_override None"

definition app_state_new :: "startup \<Rightarrow> config \<Rightarrow> (string, 'p provider) hmap option \<Rightarrow> string + 'p app_state" where
  "app_state_new su cfg providers = build su cfg providers None None"

definition build_app ::
  "startup \<Rightarrow> (audit_config \<Rightarrow> string + audit_log) \<Rightarrow> config \<Rightarrow> (string, 'p provider) hmap option \<Rightarrow> string + 'p app_state" where
  "build_app su open_audit cfg providers = build_app_full su open_audit cfg providers None"

section \<open>The gateway of a state\<close>

definition chat_gateway :: "env \<Rightarrow> (string \<Rightarrow> string \<Rightarrow> string) \<Rightarrow> 's store_ops \<Rightarrow> 'p app_state \<Rightarrow> 's gateway" where
  "chat_gateway env redact_re ops app =
     \<lparr>gw_env = env, gw_chain = as_inspectors app, gw_clients = as_clients app,
      gw_providers = hkeys (as_providers app), gw_metering = as_metering app, gw_ops = ops,
      gw_audit_open = (as_audit app \<noteq> None), gw_redact = redact_re\<rparr>"

definition no_log :: audit_log where
  "no_log = \<lparr>al_enabled = False, al_dlp_redact = False, al_rows = [], al_errors = 0\<rparr>"

definition chat_state :: "'s \<Rightarrow> 'p app_state \<Rightarrow> 's gateway_state" where
  "chat_state store app =
     \<lparr>gs_router = as_router app, gs_store = store,
      gs_audit = (case as_audit app of Some lg \<Rightarrow> lg | None \<Rightarrow> no_log),
      gs_attacks = [], gs_sent = [], gs_observed = []\<rparr>"

text \<open>The spawned task of the publish callback, for the oldest attack that was not delivered.\<close>

definition deliver_attack :: "f64 \<Rightarrow> 's gateway_state \<Rightarrow> 's gateway_state" where
  "deliver_attack now st =
     (case gs_attacks st of [] \<Rightarrow> st
      | (severity, rule, client) # rest \<Rightarrow>
          st\<lparr>gs_attacks := rest, gs_router := on_attack_detected now (gs_router st) severity client\<rparr>)"

section \<open>Lemmas\<close>

lemma make_providers_Inr:
  "(\<exists>reg'. make_providers http ps reg = Inr reg') \<longleftrightarrow>
     (\<forall>(n, c) \<in> set ps. pv_type c = ''tunnel'' \<longrightarrow> pv_agent_id c \<noteq> None)"
proof (induction http ps reg rule: make_providers.induct)
  case (1 http reg)
  show ?case by simp
next
  case (2 http name pcfg ps reg)
  show ?case
  proof (cases "pv_type pcfg = ''tunnel'' \<and> pv_agent_id pcfg = None")
    case True
    then show ?thesis by (simp add: make_provider_def)
  next
    case False
    then have "\<exists>p. make_provider http name pcfg = Inr (p :: 'a provider)"
      by (cases "pv_type pcfg = ''tunnel''") (auto simp: make_provider_def)
    then obtain p where "make_provider http name pcfg = Inr (p :: 'a provider)" ..
    with 2 False show ?thesis by auto
  qed
qed

lemma make_providers_keys:
  "make_providers http ps reg = Inr reg' \<Longrightarrow> set (hkeys reg') = set (hkeys reg) \<union> set (hkeys ps)"
  by (induction http ps reg rule: make_providers.induct) (auto split: sum.splits simp: dom_update)

lemma make_providers_get:
  "make_providers http ps reg = Inr reg' \<Longrightarrow> hget reg' n = Some p \<Longrightarrow>
     hget reg n = Some p \<or> (\<exists>c. (n, c) \<in> set ps \<and> make_provider http n c = Inr p)"
  by (induction http ps reg rule: make_providers.induct) (fastforce split: sum.splits if_splits)+

text \<open>A provider never bypasses the egress client.\<close>

definition over :: "transport \<Rightarrow> 'p provider \<Rightarrow> bool" where
  "over http p \<longleftrightarrow> (\<forall>o'. p = Direct o' \<longrightarrow> op_transport o' = http)"

lemma make_provider_over: "make_provider http n c = Inr p \<Longrightarrow> over http p"
  by (auto simp: make_provider_def over_def with_client_def split: option.splits if_splits)

text \<open>The transport of a policy, and whether it can be built.\<close>

definition egress_transport :: "egress_config \<Rightarrow> transport option" where
  "egress_transport egress =
     (if eg_mode egress = ''direct'' then Some No_proxy
      else if eg_mode egress = ''single_proxy'' then map_option Proxied (eg_proxy_url egress) else None)"

definition egress_usable :: "startup \<Rightarrow> egress_config \<Rightarrow> bool" where
  "egress_usable su egress \<longleftrightarrow>
     (case egress_transport egress of None \<Rightarrow> False
      | Some t \<Rightarrow> su_build_error su t = None \<and> (\<forall>url. t = Proxied url \<longrightarrow> su_proxy_error su url = None))"

lemma build_client_Inr:
  "build_client (su_proxy_error su) (su_build_error su) egress = Inr t \<longleftrightarrow>
     egress_usable su egress \<and> egress_transport egress = Some t"
  by (auto simp: build_client_def egress_usable_def egress_transport_def split: option.splits)

lemma duration_panic_None:
  "duration_panic t = None \<longleftrightarrow> \<not> f64_lt t (f64_of_int 0) \<and> f64_lt t duration_limit"
  by (simp add: duration_panic_def)

lemma build_router_Inr:
  "build_router cfg = Inr e \<longleftrightarrow>
     rt_state_store (cfg_routing cfg) \<noteq> ''redis'' \<and>
     validate_routing (with_chain cfg) (hkeys (cfg_providers cfg)) = None \<and> e = new_engine (with_chain cfg)"
  by (auto simp: build_router_def split: option.split)

lemma build_inspectors_Inr:
  "build_inspectors su cfg = Inr c \<longleftrightarrow>
     (\<exists>c'. chain_from_config (su_load su) (cfg_inspectors cfg) = Inr c' \<and> c = c'\<lparr>ch_publish := True\<rparr>)"
  by (auto simp: build_inspectors_def split: sum.split)

lemma chain_from_config_Inr:
  "(\<exists>c. chain_from_config load cfg = Inr c) \<longleftrightarrow>
     (ml_enabled (inj_ml (insp_injection cfg)) \<longrightarrow> load (ml_model_dir (inj_ml (insp_injection cfg))) \<noteq> None)"
  by (auto simp: chain_from_config_def Let_def split: option.split)

lemma build_metering_Inr:
  "build_metering su cfg given = Inr m \<longleftrightarrow>
     (given = None \<longrightarrow> su_redis_error su (cfg_redis_url cfg) = None) \<and>
     m = Some (case given of Some g \<Rightarrow> g | None \<Rightarrow> new_metering (cfg_quotas cfg))"
  by (auto simp: build_metering_def split: option.split)

lemma build_Inr:
  "build su cfg providers given audit = Inr app \<longleftrightarrow>
     duration_panic (srv_timeout (cfg_server cfg)) = None \<and>
     (\<exists>http reg router c m.
        build_client (su_proxy_error su) (su_build_error su) (cfg_egress cfg) = Inr http \<and>
        (case providers of Some r \<Rightarrow> reg = r | None \<Rightarrow> make_providers http (cfg_providers cfg) [] = Inr reg) \<and>
        build_router cfg = Inr router \<and> build_inspectors su cfg = Inr c \<and> build_metering su cfg given = Inr m \<and>
        app = \<lparr>as_inspectors = c, as_config = cfg, as_clients = cfg_clients cfg,
          as_admin_clients = cfg_admin_clients cfg, as_providers = reg, as_router = router,
          as_metering = m, as_audit = audit, as_ingress = new_registry\<rparr>)"
  unfolding build_def by (auto split: option.split sum.split)

lemma startup_iff:
  "(\<exists>app. build su cfg None None audit = Inr app) \<longleftrightarrow>
     (\<not> f64_lt (srv_timeout (cfg_server cfg)) (f64_of_int 0) \<and>
      f64_lt (srv_timeout (cfg_server cfg)) duration_limit) \<and>
     egress_usable su (cfg_egress cfg) \<and>
     list_all (\<lambda>(n, c). pv_type c \<noteq> ''tunnel'' \<or> pv_agent_id c \<noteq> None) (cfg_providers cfg) \<and>
     rt_state_store (cfg_routing cfg) \<noteq> ''redis'' \<and>
     validate_routing (with_chain cfg) (hkeys (cfg_providers cfg)) = None \<and>
     (\<not> ml_enabled (inj_ml (insp_injection (cfg_inspectors cfg))) \<or>
      su_load su (ml_model_dir (inj_ml (insp_injection (cfg_inspectors cfg)))) \<noteq> None) \<and>
     su_redis_error su (cfg_redis_url cfg) = None"
proof -
  have tunnels: "(\<exists>reg. make_providers http (cfg_providers cfg) [] = Inr (reg :: (string, 'a provider) hmap)) \<longleftrightarrow>
      list_all (\<lambda>(n, c). pv_type c \<noteq> ''tunnel'' \<or> pv_agent_id c \<noteq> None) (cfg_providers cfg)" for http
    unfolding make_providers_Inr by (auto simp: list_all_iff)
  have egress: "(\<exists>http. build_client (su_proxy_error su) (su_build_error su) (cfg_egress cfg) = Inr http) \<longleftrightarrow>
      egress_usable su (cfg_egress cfg)"
    by (auto simp: build_client_Inr egress_usable_def split: option.splits)
  have ml: "(\<exists>c. build_inspectors su cfg = Inr c) \<longleftrightarrow>
      \<not> ml_enabled (inj_ml (insp_injection (cfg_inspectors cfg))) \<or>
      su_load su (ml_model_dir (inj_ml (insp_injection (cfg_inspectors cfg)))) \<noteq> None"
    using chain_from_config_Inr [of "su_load su" "cfg_inspectors cfg"] by (auto simp: build_inspectors_Inr)
  show ?thesis
    unfolding build_Inr duration_panic_None [symmetric] tunnels [of undefined, symmetric] egress [symmetric] ml [symmetric]
    using tunnels by (auto simp: build_router_Inr build_metering_Inr)
qed

section \<open>Properties\<close>

text \<open>
  C22: (Fail-fast start-up) The gateway starts on its own configuration exactly when the request
  timeout is a duration, the egress policy is one of the two supported ones and its client can be
  built, every tunnel provider names its agent, routing state is not asked to be in Redis and refers
  to configured providers, an enabled classifier has its model, and the Redis URL is well formed.
\<close>

theorem startup_decided:
  "(\<exists>app. build su cfg None None audit = Inr app) \<longleftrightarrow>
     (\<not> f64_lt (srv_timeout (cfg_server cfg)) (f64_of_int 0) \<and>
      f64_lt (srv_timeout (cfg_server cfg)) duration_limit) \<and>
     egress_usable su (cfg_egress cfg) \<and>
     list_all (\<lambda>(n, c). pv_type c \<noteq> ''tunnel'' \<or> pv_agent_id c \<noteq> None) (cfg_providers cfg) \<and>
     rt_state_store (cfg_routing cfg) \<noteq> ''redis'' \<and>
     validate_routing (with_chain cfg) (hkeys (cfg_providers cfg)) = None \<and>
     (\<not> ml_enabled (inj_ml (insp_injection (cfg_inspectors cfg))) \<or>
      su_load su (ml_model_dir (inj_ml (insp_injection (cfg_inspectors cfg)))) \<noteq> None) \<and>
     su_redis_error su (cfg_redis_url cfg) = None"
  by (rule startup_iff)

text \<open>
  C23: (What a started gateway has) Every provider of the configuration is in the registry and no other,
  every direct provider sends through the transport of the egress policy, so none bypasses a
  configured proxy; requests are always metered; attacks reach the router; and the router starts
  fresh on the configured routing, whose empty chain is all providers.
\<close>

theorem started_gateway:
  assumes "build su cfg None given audit = Inr app"
  shows "set (hkeys (as_providers app)) = set (hkeys (cfg_providers cfg)) \<and>
    (\<forall>n o'. hget (as_providers app) n = Some (Direct o') \<longrightarrow>
       (eg_mode (cfg_egress cfg) = ''direct'' \<and> op_transport o' = No_proxy \<or>
        eg_mode (cfg_egress cfg) = ''single_proxy'' \<and>
          (\<exists>url. eg_proxy_url (cfg_egress cfg) = Some url \<and> op_transport o' = Proxied url))) \<and>
    as_metering app \<noteq> None \<and> ch_publish (as_inspectors app) \<and> as_router app = new_engine (with_chain cfg)"
proof -
  from assms obtain http reg router c m where
    http: "build_client (su_proxy_error su) (su_build_error su) (cfg_egress cfg) = Inr http"
    and reg: "make_providers http (cfg_providers cfg) [] = Inr reg"
    and router: "build_router cfg = Inr router" and c: "build_inspectors su cfg = Inr c"
    and m: "build_metering su cfg given = Inr m"
    and app: "app = \<lparr>as_inspectors = c, as_config = cfg, as_clients = cfg_clients cfg,
          as_admin_clients = cfg_admin_clients cfg, as_providers = reg, as_router = router,
          as_metering = m, as_audit = audit, as_ingress = new_registry\<rparr>"
    by (auto simp: build_Inr)
  have "op_transport o' = http" if "hget reg n = Some (Direct o')" for n o'
    using make_providers_get [OF reg that] make_provider_over by (fastforce simp: over_def)
  then show ?thesis
    using http make_providers_keys [OF reg] router c m
    by (auto simp: app build_client_Inr egress_transport_def build_router_Inr build_inspectors_Inr build_metering_Inr
        split: if_splits)
qed

text \<open>The router of a running gateway is a reachable engine of its routing.\<close>

lemma chat_begin_router:
  assumes "chat_begin gw i h parsed st = Some (b, st')"
  shows "gs_router st' = gs_router st \<or>
    (\<exists>now model client. gs_router st' = snd (resolve now (gs_router st) model client))"
  using assms
proof (cases rule: chat_begin_cases)
  case (Unrouted body client refusal)
  with route_keeps [OF Unrouted(3)] show ?thesis by blast
next
  case (Invalid body client target e)
  with route_keeps [OF Invalid(3)] show ?thesis by blast
next
  case (Unconfigured body client provider concrete st1)
  with route_keeps [OF Unconfigured(3)] show ?thesis by auto
next
  case (Panicked body client provider concrete)
  with route_keeps [OF Panicked(3)] show ?thesis by blast
next
  case (Blocked body client provider concrete st1 out e)
  with route_keeps [OF Blocked(3)] show ?thesis by auto
next
  case (Denied body client provider concrete st1 out refusal)
  with route_keeps [OF Denied(3)] admit_chat_keeps [OF Denied(8)] show ?thesis by auto
next
  case (Sent body client provider concrete st1 out rsv st2)
  with route_keeps [OF Sent(3)] admit_chat_keeps [OF Sent(8)] show ?thesis by auto
qed simp_all

lemma lifecycle_router: "gs_router (snd (lifecycle_finish gw i lc z k p d t s st)) = gs_router st"
  by (simp add: lifecycle_finish_def)

lemma chat_finish_router:
  assumes "chat_finish gw i fl result st = Some (a, st')"
  shows "gs_router st' = gs_router st \<or>
    (\<exists>now p n. gs_router st' = record_tokens_today now (gs_router st) p n)"
proof (cases result)
  case (Inl err)
  then show ?thesis using assms by (auto simp: chat_finish_def lifecycle_finish_def Let_def)
next
  case (Inr completion)
  then show ?thesis
    using assms unfolding chat_finish_def Let_def
    by (auto simp: lifecycle_finish_def split: option.splits prod.splits if_splits) blast+
qed

lemma apply_effect_router:
  "gs_router (apply_effect gw i fl eff st) = gs_router st \<or>
    (\<exists>now p n. gs_router (apply_effect gw i fl eff st) = record_tokens_today now (gs_router st) p n)"
  by (cases eff) (auto simp: apply_effect_def Let_def)

lemma traffic_engine:
  assumes "gateway_traffic gw m day f0 f" and "engine_reach r (gs_router (fw_state f0))"
  shows "engine_reach r (gs_router (fw_state f))"
  using assms
proof (induction rule: gateway_traffic.induct)
  case (More f f')
  have steps: "engine_reach r (snd (resolve now (gs_router (fw_state f)) model client))"
    "engine_reach r (record_tokens_today now (gs_router (fw_state f)) p n)"
    "engine_reach r (on_attack_detected now (gs_router (fw_state f)) sev client)" for now model client p n sev
    using engine_reach.step [OF More.IH] More.prems engine_step.intros by blast+
  have same: "engine_reach r (gs_router (fw_state f))" using More by blast
  from More.hyps(2) show ?case
  proof cases
    case (Answer i h parsed a st)
    with chat_begin_router [OF Answer(2)] steps same show ?thesis by auto
  next
    case (Begin i h parsed fl st)
    with chat_begin_router [OF Begin(2)] steps same show ?thesis by auto
  next
    case (Crash i h parsed st)
    with chat_begin_router [OF Crash(2)] steps same show ?thesis by auto
  next
    case (Finish fl i result a st)
    with chat_finish_router [OF Finish(3)] steps same show ?thesis by auto
  next
    case (Unopened fl i err a st)
    then show ?thesis
      using same by (auto simp: stream_open_failed_def lifecycle_finish_def Let_def split: prod.splits)
  next
    case (Stream_metered fl i p d)
    with apply_effect_router [of gw i fl "Metered (u64_as_i64 p) (u64_as_i64 d)" "fw_state f"] steps same
    show ?thesis by auto
  next
    case (Stream_effect eff i fl)
    with apply_effect_router [of gw i fl eff "fw_state f"] steps same show ?thesis by auto
  qed (use steps same in auto)
qed simp

lemma with_chain_simps [simp]:
  "rt_rules (with_chain cfg) = rt_rules (cfg_routing cfg)"
  "rt_default_chain (with_chain cfg) = [] \<longleftrightarrow> rt_default_chain (cfg_routing cfg) = [] \<and> cfg_providers cfg = []"
  by (auto simp: with_chain_def Let_def)

lemma chat_begin_502:
  assumes "chat_begin gw i h parsed st = Some (Reply resp, st')" and "fst resp = 502"
  shows "\<exists>(body :: chat_request) client p c. fst (resolve (in_now i) (gs_router st) (cr_model body) client) = Inr (p, c) \<and>
    p \<notin> set (gw_providers gw)"
  using assms(1)
proof (cases rule: chat_begin_cases)
  case (Unknown body e)
  with assms(2) require_client_status [OF Unknown(2)] show ?thesis by simp
next
  case (Unrouted body client refusal)
  then have "fst refusal \<noteq> 502"
    by (auto simp: route_request_def Let_def split: prod.splits sum.splits routing_error.splits)
  with Unrouted assms(2) show ?thesis by simp
next
  case (Invalid body client target e)
  with assms(2) validate_status [OF Invalid(4)] show ?thesis by simp
next
  case (Unconfigured body client provider concrete st1)
  with route_target [OF Unconfigured(3)] show ?thesis
    by (intro exI [of _ body] exI [of _ client] exI [of _ provider] exI [of _ concrete]) simp
next
  case (Blocked body client provider concrete st1 out e)
  with assms(2) process_request_status [OF Blocked(5,6)] show ?thesis by simp
next
  case (Denied body client provider concrete st1 out refusal)
  then have "fst refusal \<noteq> 502"
    by (auto simp: admit_chat_def Let_def split: prod.splits sum.splits metering_error.splits option.splits if_splits)
  with Denied assms(2) show ?thesis by simp
qed (use assms in simp_all)

text \<open>
  C14: (No stray route) A gateway that started on its own providers, with at least one of them and
  with rules that only switch to configured ones, never answers that a routed provider is not
  configured, whatever requests, streams and attacks went before.
\<close>

theorem started_gateway_routes:
  assumes "build su cfg None given audit = Inr app" and "cfg_providers cfg \<noteq> []"
    and "\<forall>rule \<in> set (rt_rules (cfg_routing cfg)). \<forall>t.
      act_switch_to (rule_action rule) = Some t \<longrightarrow> t \<in> set (hkeys (cfg_providers cfg))"
    and "gateway_traffic (chat_gateway env redact_re ops app) m day (start_flow (chat_state store app)) f"
    and "chat_begin (chat_gateway env redact_re ops app) i h parsed (fw_state f) = Some (Reply resp, st')"
  shows "fst resp \<noteq> 502"
proof
  assume "fst resp = 502"
  from chat_begin_502 [OF assms(5) this] obtain body :: chat_request and client p c where
    r: "fst (resolve (in_now i) (gs_router (fw_state f)) (cr_model body) client) = Inr (p, c)"
    and p: "p \<notin> set (hkeys (as_providers app))"
    by (auto simp: chat_gateway_def)
  from assms(1) obtain reg http where app: "as_router app = new_engine (with_chain cfg)" "as_providers app = reg"
    and reg: "make_providers http (cfg_providers cfg) [] = Inr reg"
    and v: "validate_routing (with_chain cfg) (hkeys (cfg_providers cfg)) = None"
    by (auto simp: build_Inr build_router_Inr)
  have "engine_reach (with_chain cfg) (gs_router (fw_state f))"
    using traffic_engine [OF assms(4), of "with_chain cfg"] engine_reach.init
    by (simp add: start_flow_def chat_state_def app)
  from resolve_known_provider [OF this v _ _ r] assms(2,3) have "p \<in> set (hkeys (cfg_providers cfg))" by simp
  with p make_providers_keys [OF reg] show False by (simp add: app)
qed

text \<open>Attacks delivered in the order they were published.\<close>

lemma deliver_attacks:
  "gs_attacks st = map (\<lambda>(t, sev, rule). (sev, rule, client)) evs @ rest \<Longrightarrow>
     fold deliver_attack (map fst evs) st =
       st\<lparr>gs_attacks := rest, gs_router := attack_run client (gs_router st) (map (\<lambda>(t, sev, rule). (t, sev)) evs)\<rparr>"
  by (induction evs arbitrary: st) (auto simp: deliver_attack_def)

text \<open>
  C15: (Injections lead to a block) When as many attacks of one client as the configured count are
  published, each counting and still in the window when the next arrives, then their delivery to
  the router closes the gateway to that client until the block ends: every well-formed request of it is
  answered 403, nothing is sent upstream and no quota is touched.
\<close>

theorem published_attacks_block:
  assumes "gs_attacks st = map (\<lambda>(t, sev, rule). (sev, rule, client)) evs @ rest"
    and "burst (gs_router st) [] (map (\<lambda>(t, sev, rule). (t, sev)) evs)"
    and "hget (attack_times (gs_router st)) client = None"
    and "length evs = af_count (failover (gs_router st))" and "evs \<noteq> []"
    and "af_block_source (failover (gs_router st))" and "client \<noteq> []"
    and "f64_lt (in_now i) (block_until (fst (last evs)) (gs_router st))"
    and "require_client (gw_clients gw) h = Inr client"
  shows "\<exists>st'. chat_begin gw i h (Inr body) (fold deliver_attack (map fst evs) st) =
      Some (Reply (into_response (err_blocked ''request source is temporarily blocked'' ''blocked_source'')), st') \<and>
    gs_sent st' = gs_sent st \<and> gs_store st' = gs_store st \<and> gs_attacks st' = rest"
proof -
  let ?evs = "map (\<lambda>(t, sev, rule). (t, sev)) evs"
  define e where "e = attack_run client (gs_router st) ?evs"
  have "fst (last ?evs) = fst (last evs)" using assms(5) by (simp add: last_map split_beta)
  then have "hget (blocked_sources e) client = Some (block_until (fst (last evs)) (gs_router st))"
    using attack_run_trigger [OF assms(2,3) _ _ assms(6,7)] assms(4,5) by (simp add: e_def)
  with assms(8) have "source_blocked (in_now i) e client" by (simp add: source_blocked_def)
  then have "resolve (in_now i) e (cr_model body) client =
      (Inl (Blocked ''request source is temporarily blocked''), e)" by (rule resolve_blocked)
  then show ?thesis
    using assms(9) unfolding deliver_attacks [OF assms(1)] e_def [symmetric]
    by (simp add: chat_begin_def route_request_def Let_def)
qed

section \<open>Witnesses\<close>

text \<open>One direct and one tunnel provider behind a proxy, with the routing of the router's witnesses.\<close>

definition demo_startup :: startup where
  "demo_startup = \<lparr>su_proxy_error = (\<lambda>url. if url = [] then Some ''empty host'' else None),
     su_build_error = (\<lambda>t. None), su_load = (\<lambda>dir. None),
     su_redis_error = (\<lambda>url. if url = [] then Some ''invalid'' else None)\<rparr>"

definition demo_config :: config where
  "demo_config = \<lparr>cfg_server = server_default, cfg_redis_url = ''redis://localhost:6379/0'',
     cfg_providers = [(''a'', \<lparr>pv_type = ''openai'', pv_base_url = ''https://a/v1/'', pv_api_key_env = None,
         pv_api_key = Some ''k'', pv_models = [], pv_agent_id = None\<rparr>),
       (''b'', \<lparr>pv_type = ''tunnel'', pv_base_url = ''http://b/v1'', pv_api_key_env = None,
         pv_api_key = None, pv_models = [], pv_agent_id = Some ''agent-1''\<rparr>)],
     cfg_clients = [(''k'', ''alice'')], cfg_admin_clients = [], cfg_metrics_tokens = [],
     cfg_quotas = quotas_default, cfg_routing = demo_routing,
     cfg_egress = \<lparr>eg_mode = ''single_proxy'', eg_proxy_url = Some ''http://proxy:3128''\<rparr>,
     cfg_inspectors = inspectors_default, cfg_audit = audit_default, cfg_ingress = ingress_default\<rparr>"

lemma demo_timeout: "\<not> f64_lt (f64_of_int 120) (f64_of_int 0)" "f64_lt (f64_of_int 120) duration_limit"
proof -
  show "\<not> f64_lt (f64_of_int 120) (f64_of_int 0)" by (simp add: f64_of_int_simps)
  have e: "(2 :: int) ^ 64 * 2 ^ 1074 = 2 ^ 1138" by (simp only: power_add [symmetric]) simp
  have "(2 :: int) ^ 1138 \<le> 2 ^ 2045" by (rule power_increasing) simp_all
  also have "\<dots> \<le> (2 ^ 53 - 1) * 2 ^ 2045" by (rule mult_le_cancel_right1 [THEN iffD2]) simp
  finally have "\<bar>1 * (2 :: int) ^ 1138\<bar> \<le> f64_top" by (simp add: f64_top_def)
  then have limit: "duration_limit = Fin (2 ^ 1138)"
    using f64_round_exact [of 1 1138] e by (simp add: duration_limit_def f64_of_int_def f64_scale_def)
  have secs: "f64_of_int 120 = Fin (120 * 2 ^ 1074)"
    using f64_of_int_exact [of 120] by (simp only: f64_scale_def) (simp add: f64_exact_def)
  have "120 * (2 :: int) ^ 1074 < 2 ^ 64 * 2 ^ 1074" by (rule mult_strict_right_mono) simp_all
  then show "f64_lt (f64_of_int 120) duration_limit" unfolding limit secs f64_lt.simps e .
qed

lemma demo_routing_valid: "validate_routing (with_chain demo_config) [''a'', ''b''] = None"
  by (simp add: validate_routing_None with_chain_def demo_config_def demo_defs)

theorem startup_decided_witness:
  "\<exists>app :: nat app_state. build demo_startup demo_config None None None = Inr app"
  unfolding startup_decided
proof (intro conjI)
  show "validate_routing (with_chain demo_config) (hkeys (cfg_providers demo_config)) = None"
    using demo_routing_valid by (simp add: demo_config_def)
qed (simp_all add: demo_config_def demo_startup_def demo_timeout egress_usable_def egress_transport_def
    server_default_def inspectors_default_def injection_default_def ml_default_def demo_routing_def routing_default_def)

theorem started_gateway_witness:
  "\<exists>app :: nat app_state. build demo_startup demo_config None None None = Inr app \<and> as_metering app \<noteq> None \<and>
     set (hkeys (as_providers app)) = {''a'', ''b''} \<and>
     (\<forall>o'. hget (as_providers app) ''a'' = Some (Direct o') \<longrightarrow> op_transport o' = Proxied ''http://proxy:3128'')"
proof -
  obtain app :: "nat app_state" where app: "build demo_startup demo_config None None None = Inr app"
    using startup_decided_witness ..
  from started_gateway [OF app] app show ?thesis by (auto simp: demo_config_def)
qed

theorem started_gateway_routes_witness:
  "\<exists>(app :: nat app_state) resp. build demo_startup demo_config None None None = Inr app \<and>
     chat_begin (chat_gateway demo_env (\<lambda>_ t. t) in_memory app) demo_inputs (\<lambda>_. None) (Inr demo_body)
       (chat_state mem_empty app) = Some (Reply resp, chat_state mem_empty app) \<and> fst resp \<noteq> 502"
proof -
  obtain app :: "nat app_state" where app: "build demo_startup demo_config None None None = Inr app"
    using startup_decided_witness ..
  let ?gw = "chat_gateway demo_env (\<lambda>_ t. t) in_memory app" and ?st = "chat_state mem_empty app"
  have "bearer_token (\<lambda>_. None) = []" by (simp add: bearer_token_def)
  then have c: "chat_begin ?gw demo_inputs (\<lambda>_. None) (Inr demo_body) (fw_state (start_flow ?st)) =
      Some (Reply (into_response (err_auth ''missing bearer token'' ''missing_api_key'')), ?st)"
    by (simp add: chat_begin_def require_client_def start_flow_def)
  have "fst (into_response (err_auth ''missing bearer token'' ''missing_api_key'')) \<noteq> 502"
    by (rule started_gateway_routes [OF app _ _ Open c])
      (simp_all add: demo_config_def demo_defs)
  moreover have "fw_state (start_flow ?st) = ?st" by (simp add: start_flow_def)
  ultimately show ?thesis using app c by metis
qed

definition demo_attacks :: "(f64 \<times> string \<times> string) list" where
  "demo_attacks = [(f64_of_int 800, ''high'', ''sig-1''), (f64_of_int 900, ''critical'', ''sig-2'')]"

definition demo_attacked :: "mem_store gateway_state" where
  "demo_attacked = demo_state\<lparr>gs_attacks := [(''high'', ''sig-1'', ''alice''), (''critical'', ''sig-2'', ''alice'')]\<rparr>"

theorem published_attacks_block_witness:
  "\<exists>resp st'. chat_begin demo_gateway demo_inputs demo_headers (Inr demo_body)
      (fold deliver_attack [f64_of_int 800, f64_of_int 900] demo_attacked) = Some (Reply resp, st') \<and>
     fst resp = 403 \<and> gs_sent st' = []"
proof -
  have "burst (gs_router demo_attacked) [] (map (\<lambda>(t, sev, rule). (t, sev)) demo_attacks)"
    by (simp add: demo_attacks_def demo_attacked_def demo_state_def burst_def attack_counts_def in_window_def
        f64_of_int_simps demo_defs)
  moreover have "gs_attacks demo_attacked = map (\<lambda>(t, sev, rule). (sev, rule, ''alice'')) demo_attacks @ []"
    by (simp add: demo_attacks_def demo_attacked_def)
  moreover have "f64_lt (in_now demo_inputs) (block_until (fst (last demo_attacks)) (gs_router demo_attacked))"
    by (simp add: demo_attacks_def demo_attacked_def demo_state_def demo_inputs_def block_until_def
        f64_of_int_simps demo_defs)
  ultimately obtain st' where st': "chat_begin demo_gateway demo_inputs demo_headers (Inr demo_body)
      (fold deliver_attack (map fst demo_attacks) demo_attacked) =
      Some (Reply (into_response (err_blocked ''request source is temporarily blocked'' ''blocked_source'')), st') \<and>
      gs_sent st' = gs_sent demo_attacked \<and> gs_store st' = gs_store demo_attacked \<and> gs_attacks st' = []"
    using published_attacks_block [OF _ _ _ _ _ _ _ _ demo_client, of demo_attacked demo_attacks "[]" demo_inputs demo_body]
    by (auto simp: demo_attacked_def demo_state_def demo_attacks_def demo_defs)
  have "map fst demo_attacks = [f64_of_int 800, f64_of_int 900]" "gs_sent demo_attacked = []"
    by (simp_all add: demo_attacks_def demo_attacked_def demo_state_def)
  moreover have "fst (into_response (err_blocked ''request source is temporarily blocked'' ''blocked_source'')) = 403"
    by simp
  ultimately show ?thesis using st' by metis
qed

end
