(* ===== verification/Audit_Store.thy ===== *)
theory Audit_Store
  imports Audit_Log Config
begin

text \<open>
  The database file of the audit log: \<open>AuditLog::open\<close> of \<open>fwllm-gateway/src/audit.rs\<close> with its migration,
  and the statements of \<open>write\<close> and \<open>search\<close> on the table itself, for the workers that share the
  file.  The table is what its \<open>CREATE TABLE\<close> text declares, and each statement does what its SQL text
  says, one at a time.  A statement may fail for a reason of its own (a locked or damaged
  file): the fault of its step.  Names of columns are compared exactly.
\<close>

section \<open>The table\<close>

datatype cell = Null | Int_cell int | Text_cell string

datatype affinity = Integer_type | Text_type

record column =
  co_name :: string
  co_type :: affinity
  co_not_null :: bool
  co_default :: cell

record audit_table =
  tb_columns :: "column list"
  tb_rows :: "cell list list"
  tb_seq :: int

type_synonym database = "audit_table option"

definition text_column :: "string \<Rightarrow> cell \<Rightarrow> column" where
  "text_column n d = \<lparr>co_name = n, co_type = Text_type, co_not_null = True, co_default = d\<rparr>"

definition integer_column :: "string \<Rightarrow> column" where
  "integer_column n = \<lparr>co_name = n, co_type = Integer_type, co_not_null = True, co_default = Int_cell 0\<rparr>"

text \<open>The primary key takes the next number of its sequence.\<close>

definition id_column :: column where
  "id_column = \<lparr>co_name = ''id'', co_type = Integer_type, co_not_null = False, co_default = Null\<rparr>"

definition base_columns :: "column list" where
  "base_columns = id_column # map (\<lambda>n. text_column n Null) [''ts'', ''client'', ''provider'', ''model'', ''code'']
     @ map integer_column [''prompt_tokens'', ''completion_tokens'']
     @ map (\<lambda>n. text_column n Null) [''messages'', ''response_text'']"

definition source_column :: column where
  "source_column = text_column ''usage_source'' (Text_cell ''upstream'')"

definition request_column :: column where
  "request_column = text_column ''request_id'' (Text_cell [])"

definition create_table :: "database \<Rightarrow> database" where
  "create_table db =
     (case db of Some t \<Rightarrow> Some t
      | None \<Rightarrow> Some \<lparr>tb_columns = base_columns @ [source_column, request_column], tb_rows = [], tb_seq = 0\<rparr>)"

definition column_names :: "database \<Rightarrow> string list" where
  "column_names db = (case db of Some t \<Rightarrow> map co_name (tb_columns t) | None \<Rightarrow> [])"

definition add_column :: "column \<Rightarrow> database \<Rightarrow> string + database" where
  "add_column c db =
     (case db of None \<Rightarrow> Inl ''no such table: audit''
      | Some t \<Rightarrow>
          if co_name c \<in> set (column_names db) then Inl (''duplicate column name: '' @ co_name c)
          else Inr (Some (t\<lparr>tb_columns := tb_columns t @ [c], tb_rows := map (\<lambda>r. r @ [co_default c]) (tb_rows t)\<rparr>)))"

section \<open>Opening\<close>

text \<open>
  The statement that comes next.  After the columns are listed the missing ones are added;
  with none left the log is open.
\<close>

datatype open_phase = Connecting | Batch | Creating | Listing | Adding "column list" | Open_failed string

abbreviation opened :: open_phase where
  "opened \<equiv> Adding []"

definition missing_columns :: "string list \<Rightarrow> column list" where
  "missing_columns names = filter (\<lambda>c. co_name c \<notin> set names) [source_column, request_column]"

fun open_step :: "string option \<Rightarrow> open_phase \<Rightarrow> database \<Rightarrow> open_phase \<times> database" where
  "open_step fault (Open_failed e) db = (Open_failed e, db)"
| "open_step fault (Adding []) db = (Adding [], db)"
| "open_step (Some e) pc db = (Open_failed e, db)"
| "open_step None Connecting db = (Batch, db)"
| "open_step None Batch db = (Creating, db)"
| "open_step None Creating db = (Listing, create_table db)"
| "open_step None Listing db = (Adding (missing_columns (column_names db)), db)"
| "open_step None (Adding (c # cs)) db =
     (case add_column c db of Inl e \<Rightarrow> (Open_failed e, db) | Inr db' \<Rightarrow> (Adding cs, db'))"

text \<open>One worker alone: at most six statements.\<close>

fun open_alone :: "string option list \<Rightarrow> open_phase \<Rightarrow> database \<Rightarrow> open_phase \<times> database" where
  "open_alone [] pc db = (pc, db)"
| "open_alone (f # fs) pc db = (case open_step f pc db of (pc', db') \<Rightarrow> open_alone fs pc' db')"

definition audit_open :: "string option list \<Rightarrow> audit_config \<Rightarrow> database \<Rightarrow> (string + bool \<times> bool) \<times> database" where
  "audit_open faults cfg db =
     (case open_alone (take 6 (faults @ replicate 6 None)) Connecting db of
        (Open_failed e, db') \<Rightarrow> (Inl e, db')
      | (_, db') \<Rightarrow> (Inr (audit_enabled cfg, audit_dlp_redact cfg), db'))"

section \<open>Writing and searching\<close>

definition record_values :: "audit_record \<Rightarrow> (string \<times> cell) list" where
  "record_values r =
     [(''ts'', Text_cell (ar_ts r)), (''client'', Text_cell (ar_client r)), (''provider'', Text_cell (ar_provider r)),
      (''model'', Text_cell (ar_model r)), (''code'', Text_cell (ar_code r)),
      (''prompt_tokens'', Int_cell (ar_prompt_tokens r)), (''completion_tokens'', Int_cell (ar_completion_tokens r)),
      (''messages'', Text_cell (ar_messages r)), (''response_text'', Text_cell (ar_response r)),
      (''usage_source'', Text_cell (ar_usage_source r)), (''request_id'', Text_cell (ar_request_id r))]"

definition cell_for :: "int \<Rightarrow> (string \<times> cell) list \<Rightarrow> column \<Rightarrow> cell" where
  "cell_for seq vs c =
     (if co_name c = ''id'' then Int_cell (seq + 1)
      else case map_of vs (co_name c) of Some v \<Rightarrow> v | None \<Rightarrow> co_default c)"

definition insert_row :: "audit_record \<Rightarrow> database \<Rightarrow> string + database" where
  "insert_row r db =
     (case db of None \<Rightarrow> Inl ''no such table: audit''
      | Some t \<Rightarrow>
          let row = map (cell_for (tb_seq t) (record_values r)) (tb_columns t) in
          if \<not> set (map fst (record_values r)) \<subseteq> set (column_names db) then Inl ''table audit has no such column''
          else if \<not> list_all2 (\<lambda>v c. co_not_null c \<longrightarrow> v \<noteq> Null) row (tb_columns t) then Inl ''NOT NULL constraint failed''
          else Inr (Some (t\<lparr>tb_rows := tb_rows t @ [row], tb_seq := tb_seq t + 1\<rparr>)))"

fun as_text :: "cell option \<Rightarrow> string option" where
  "as_text (Some (Text_cell x)) = Some x"
| "as_text v = None"

fun as_integer :: "cell option \<Rightarrow> int option" where
  "as_integer (Some (Int_cell x)) = Some x"
| "as_integer v = None"

definition row_value :: "column list \<Rightarrow> cell list \<Rightarrow> string \<Rightarrow> cell option" where
  "row_value cols row n = map_of (zip (map co_name cols) row) n"

definition or_else :: "'a option \<Rightarrow> 'a \<Rightarrow> 'a" where
  "or_else x d = (case x of Some y \<Rightarrow> y | None \<Rightarrow> d)"

definition map_row :: "column list \<Rightarrow> cell list \<Rightarrow> audit_record option" where
  "map_row cols row =
     (let tx = (\<lambda>n. as_text (row_value cols row n)); it = (\<lambda>n. as_integer (row_value cols row n)) in
      if (\<exists>n \<in> {''ts'', ''client'', ''provider'', ''model'', ''code'', ''messages'', ''response_text''}. tx n = None) \<or>
         it ''prompt_tokens'' = None \<or> it ''completion_tokens'' = None
      then None
      else Some \<lparr>ar_ts = the (tx ''ts''), ar_client = the (tx ''client''), ar_provider = the (tx ''provider''),
        ar_model = the (tx ''model''), ar_code = the (tx ''code''), ar_prompt_tokens = the (it ''prompt_tokens''),
        ar_completion_tokens = the (it ''completion_tokens''), ar_messages = the (tx ''messages''),
        ar_response = the (tx ''response_text''), ar_usage_source = or_else (tx ''usage_source'') ''upstream'',
        ar_request_id = or_else (tx ''request_id'') []\<rparr>)"

fun row_id :: "cell list \<Rightarrow> int" where
  "row_id (Int_cell i # vs) = i"
| "row_id vs = 0"

definition where_is :: "column list \<Rightarrow> string \<Rightarrow> string option \<Rightarrow> cell list \<Rightarrow> bool" where
  "where_is cols n x row = (case x of None \<Rightarrow> True | Some y \<Rightarrow> row_value cols row n = Some (Text_cell y))"

definition selected_columns :: "string list" where
  "selected_columns =
     [''ts'', ''client'', ''provider'', ''model'', ''code'', ''prompt_tokens'', ''completion_tokens'', ''messages'',
      ''response_text'', ''usage_source'', ''request_id'']"

text \<open>The primary key is the first column; the limit counts rows before they are read.\<close>

definition table_search :: "string option \<Rightarrow> string option \<Rightarrow> nat \<Rightarrow> database \<Rightarrow> audit_record list" where
  "table_search client code limit db =
     (case db of None \<Rightarrow> []
      | Some t \<Rightarrow>
          if \<not> set selected_columns \<subseteq> set (column_names db) then []
          else List.map_filter (map_row (tb_columns t))
            (take (min 1000 (max 1 limit))
              (filter (\<lambda>row. where_is (tb_columns t) ''client'' client row \<and> where_is (tb_columns t) ''code'' code row)
                (rev (sort_key row_id (tb_rows t))))))"

section \<open>Workers on one file\<close>

text \<open>\<open>ws_errors\<close> counts failed writes; \<open>ws_asked\<close> holds the records given to an \<open>INSERT\<close> that met no fault.\<close>

record workers =
  ws_pc :: "nat \<Rightarrow> open_phase"
  ws_db :: database
  ws_errors :: nat
  ws_asked :: "audit_record list"

datatype work = Open_next nat "string option" | Write_row nat "string option" audit_record

fun work_step :: "work \<Rightarrow> workers \<Rightarrow> workers" where
  "work_step (Open_next i fault) w =
     (case open_step fault (ws_pc w i) (ws_db w) of (pc, db) \<Rightarrow> w\<lparr>ws_pc := (ws_pc w)(i := pc), ws_db := db\<rparr>)"
| "work_step (Write_row i fault r) w =
     (if ws_pc w i \<noteq> opened then w
      else case fault of Some e \<Rightarrow> w\<lparr>ws_errors := ws_errors w + 1\<rparr>
      | None \<Rightarrow>
          (case insert_row r (ws_db w) of
             Inl e \<Rightarrow> w\<lparr>ws_errors := ws_errors w + 1, ws_asked := ws_asked w @ [r]\<rparr>
           | Inr db \<Rightarrow> w\<lparr>ws_db := db, ws_asked := ws_asked w @ [r]\<rparr>))"

definition work_run :: "work list \<Rightarrow> workers \<Rightarrow> workers" where
  "work_run ws w = fold work_step ws w"

definition workers_on :: "database \<Rightarrow> workers" where
  "workers_on db = \<lparr>ws_pc = (\<lambda>i. Connecting), ws_db = db, ws_errors = 0, ws_asked = []\<rparr>"

section \<open>The type of the table\<close>

fun cell_ok :: "cell \<Rightarrow> column \<Rightarrow> bool" where
  "cell_ok Null c = (\<not> co_not_null c)"
| "cell_ok (Int_cell i) c = (co_type c = Integer_type)"
| "cell_ok (Text_cell x) c = (co_type c = Text_type)"

definition audit_columns :: "column list" where
  "audit_columns = base_columns @ [source_column, request_column]"

text \<open>Columns of other origin are allowed when an \<open>INSERT\<close> can leave them out.\<close>

definition column_ok :: "column \<Rightarrow> bool" where
  "column_ok c \<longleftrightarrow> c \<in> set audit_columns \<or> co_name c \<notin> set (map co_name audit_columns) \<and> cell_ok (co_default c) c"

definition table_ok :: "audit_table \<Rightarrow> bool" where
  "table_ok t \<longleftrightarrow>
     (\<exists>cs. tb_columns t = id_column # cs) \<and> distinct (map co_name (tb_columns t)) \<and>
     set base_columns \<subseteq> set (tb_columns t) \<and> list_all column_ok (tb_columns t) \<and>
     list_all (\<lambda>r. list_all2 cell_ok r (tb_columns t) \<and> (\<exists>i. hd r = Int_cell i) \<and> row_id r \<le> tb_seq t) (tb_rows t) \<and>
     sorted_wrt (<) (map row_id (tb_rows t))"

definition db_ok :: "database \<Rightarrow> bool" where
  "db_ok db \<longleftrightarrow> (case db of None \<Rightarrow> True | Some t \<Rightarrow> table_ok t)"

definition records :: "database \<Rightarrow> audit_record list" where
  "records db = (case db of None \<Rightarrow> [] | Some t \<Rightarrow> List.map_filter (map_row (tb_columns t)) (tb_rows t))"

definition migrated :: "database \<Rightarrow> bool" where
  "migrated db \<longleftrightarrow> {''usage_source'', ''request_id''} \<subseteq> set (column_names db)"

lemmas column_defs = base_columns_def id_column_def text_column_def integer_column_def source_column_def
  request_column_def

lemma audit_columns_names:
  "map co_name audit_columns = [''id'', ''ts'', ''client'', ''provider'', ''model'', ''code'', ''prompt_tokens'',
     ''completion_tokens'', ''messages'', ''response_text'', ''usage_source'', ''request_id'']"
  by (simp add: audit_columns_def column_defs)

lemma audit_columns_distinct: "distinct (map co_name audit_columns)"
  unfolding audit_columns_names by simp

lemma column_named:
  assumes "table_ok t" and "c \<in> set (tb_columns t)" and "c' \<in> set audit_columns" and "co_name c = co_name c'"
  shows "c = c'"
proof -
  have "column_ok c" using assms(1,2) by (simp add: table_ok_def list_all_iff)
  with assms(3,4) have "c \<in> set audit_columns" by (auto simp: column_ok_def)
  with assms(3,4) audit_columns_distinct show ?thesis by (auto dest: inj_onD [OF distinct_map [THEN iffD1, THEN conjunct2]])
qed

lemma row_value_in:
  assumes "list_all2 cell_ok row cols" and "distinct (map co_name cols)" and "c \<in> set cols"
  shows "\<exists>v. row_value cols row (co_name c) = Some v \<and> cell_ok v c"
  using assms
  by (induction rule: list_all2_induct) (force simp: row_value_def image_iff)+

lemma row_value_out: "n \<notin> set (map co_name cols) \<Longrightarrow> row_value cols row n = None"
  by (auto simp: row_value_def map_of_eq_None_iff dest: set_zip_leftD)

lemma row_value_append:
  "length row = length cols \<Longrightarrow> row_value (cols @ [c]) (row @ [v]) n =
     (case row_value cols row n of Some u \<Rightarrow> Some u | None \<Rightarrow> if n = co_name c then Some v else None)"
  by (cases "map_of (zip (map co_name cols) row) n")
    (simp_all add: row_value_def map_add_def del: map_of_eq_None_iff map_of_zip_is_None)

lemma row_value_map:
  "distinct (map co_name cols) \<Longrightarrow> c \<in> set cols \<Longrightarrow> row_value cols (map f cols) (co_name c) = Some (f c)"
  by (induction cols) (auto simp: row_value_def image_iff)

lemma as_text_ok: "cell_ok v (text_column n d) \<Longrightarrow> \<exists>x. as_text (Some v) = Some x"
  by (cases v) (simp_all add: text_column_def)

lemma as_integer_ok: "cell_ok v (integer_column n) \<Longrightarrow> \<exists>x. as_integer (Some v) = Some x"
  by (cases v) (simp_all add: integer_column_def)

text \<open>Every row of a well-typed table is read.\<close>

lemma map_row_total:
  assumes "list_all2 cell_ok row cols" and "distinct (map co_name cols)" and "set base_columns \<subseteq> set cols"
  shows "map_row cols row \<noteq> None"
proof -
  have v: "\<exists>v. row_value cols row (co_name c) = Some v \<and> cell_ok v c" if "c \<in> set base_columns" for c
    using row_value_in [OF assms(1,2)] assms(3) that by blast
  have "as_text (row_value cols row n) \<noteq> None"
    if "n \<in> {''ts'', ''client'', ''provider'', ''model'', ''code'', ''messages'', ''response_text''}" for n
  proof -
    have "text_column n Null \<in> set base_columns" using that by (auto simp: base_columns_def)
    from v [OF this] show ?thesis using as_text_ok by (fastforce simp: text_column_def)
  qed
  moreover have "as_integer (row_value cols row n) \<noteq> None" if "n \<in> {''prompt_tokens'', ''completion_tokens''}" for n
  proof -
    have "integer_column n \<in> set base_columns" using that by (auto simp: base_columns_def)
    from v [OF this] show ?thesis using as_integer_ok by (fastforce simp: integer_column_def)
  qed
  ultimately show ?thesis by (auto simp: map_row_def Let_def)
qed

lemma audit_column_value:
  "c \<in> set audit_columns \<Longrightarrow> co_name c \<noteq> ''id'' \<Longrightarrow> Some (cell_for seq (record_values r) c) = map_of (record_values r) (co_name c)"
  by (auto simp: audit_columns_def column_defs cell_for_def record_values_def)

lemma record_value_named:
  "set (map fst (record_values r)) = co_name ` set audit_columns - {''id''}"
  unfolding image_set audit_columns_names by (auto simp: record_values_def)

lemma map_row_insert:
  assumes "distinct (map co_name cols)" and "set audit_columns \<subseteq> set cols"
  shows "map_row cols (map (cell_for seq (record_values r)) cols) = Some r"
proof -
  have v: "row_value cols (map (cell_for seq (record_values r)) cols) n = map_of (record_values r) n"
    if n: "n \<in> set (map fst (record_values r))" for n
  proof -
    from n obtain c where c: "c \<in> set audit_columns" "n = co_name c" "n \<noteq> ''id''"
      unfolding record_value_named by blast
    then show ?thesis
      using row_value_map [OF assms(1), of c] audit_column_value [of c seq r] assms(2) by auto
  qed
  have names: "{''ts'', ''client'', ''provider'', ''model'', ''code'', ''messages'', ''response_text'',
      ''prompt_tokens'', ''completion_tokens'', ''usage_source'', ''request_id''} \<subseteq> set (map fst (record_values r))"
    by (simp add: record_values_def)
  show ?thesis
    using names v by (simp add: map_row_def record_values_def or_else_def)
qed

section \<open>What the statements keep\<close>

lemma column_ok_audit: "c \<in> set audit_columns \<Longrightarrow> column_ok c"
  by (simp add: column_ok_def)

lemma create_table_ok:
  assumes "db_ok db"
  shows "db_ok (create_table db)" "records (create_table db) = records db"
    "set (column_names db) \<subseteq> set (column_names (create_table db))" "create_table db \<noteq> None"
proof -
  have "table_ok \<lparr>tb_columns = base_columns @ [source_column, request_column], tb_rows = [], tb_seq = 0\<rparr>"
    using audit_columns_distinct column_ok_audit
    by (simp add: table_ok_def audit_columns_def [symmetric] list_all_iff)
      (simp add: audit_columns_def base_columns_def)
  with assms show "db_ok (create_table db)" by (cases db) (simp_all add: create_table_def db_ok_def)
  show "records (create_table db) = records db" "set (column_names db) \<subseteq> set (column_names (create_table db))"
    "create_table db \<noteq> None"
    by (cases db; simp add: create_table_def records_def column_names_def map_filter_simps)+
qed

lemma map_row_add:
  assumes "length row = length cols" and "c \<in> {source_column, request_column}" and "co_name c \<notin> set (map co_name cols)"
  shows "map_row (cols @ [c]) (row @ [co_default c]) = map_row cols row"
proof -
  have same: "row_value (cols @ [c]) (row @ [co_default c]) n = row_value cols row n" if "n \<noteq> co_name c" for n
    using that row_value_append [OF assms(1)] by (simp split: option.split)
  have new: "row_value (cols @ [c]) (row @ [co_default c]) (co_name c) = Some (co_default c)"
    and old: "row_value cols row (co_name c) = None"
    using row_value_append [OF assms(1)] row_value_out [OF assms(3)] by simp_all
  from assms(2) consider "c = source_column" | "c = request_column" by blast
  then show ?thesis
  proof cases
    case 1
    with same new old show ?thesis by (simp add: map_row_def or_else_def source_column_def text_column_def)
  next
    case 2
    with same new old show ?thesis by (simp add: map_row_def or_else_def request_column_def text_column_def)
  qed
qed

lemma row_id_append: "row \<noteq> [] \<Longrightarrow> row_id (row @ vs) = row_id row"
  by (cases row rule: row_id.cases) simp_all

lemma add_column_ok:
  assumes "table_ok t" and "c \<in> {source_column, request_column}" and "co_name c \<notin> set (column_names (Some t))"
  shows "\<exists>t'. add_column c (Some t) = Inr (Some t') \<and> table_ok t' \<and> records (Some t') = records (Some t) \<and>
    set (column_names (Some t')) = insert (co_name c) (set (column_names (Some t)))"
proof -
  define t' where "t' = t\<lparr>tb_columns := tb_columns t @ [c], tb_rows := map (\<lambda>r. r @ [co_default c]) (tb_rows t)\<rparr>"
  have n: "co_name c \<notin> set (map co_name (tb_columns t))" using assms(3) by (simp add: column_names_def)
  have c: "cell_ok (co_default c) c" "column_ok c"
    using assms(2) by (auto simp: column_defs column_ok_def audit_columns_def)
  have rows: "list_all2 cell_ok r (tb_columns t)" "r \<noteq> []" if "r \<in> set (tb_rows t)" for r
    using assms(1) that by (auto simp: table_ok_def list_all_iff)
  have ids: "map row_id (tb_rows t') = map row_id (tb_rows t)"
    using rows(2) by (simp add: t'_def row_id_append)
  have "table_ok t'"
    unfolding table_ok_def
  proof (intro conjI)
    show "\<exists>cs. tb_columns t' = id_column # cs" "distinct (map co_name (tb_columns t'))"
      "set base_columns \<subseteq> set (tb_columns t')" "list_all column_ok (tb_columns t')"
      using assms(1) n c(2) by (auto simp: table_ok_def t'_def)
    show "sorted_wrt (<) (map row_id (tb_rows t'))" unfolding ids using assms(1) by (simp add: table_ok_def)
    have "list_all2 cell_ok (r @ [co_default c]) (tb_columns t') \<and> (\<exists>i. hd (r @ [co_default c]) = Int_cell i) \<and>
        row_id (r @ [co_default c]) \<le> tb_seq t'" if "r \<in> set (tb_rows t)" for r
      using assms(1) that rows [OF that] c(1) row_id_append [of r "[co_default c]"]
      by (auto simp: table_ok_def list_all_iff t'_def intro: list_all2_appendI)
    then show "list_all (\<lambda>r. list_all2 cell_ok r (tb_columns t') \<and> (\<exists>i. hd r = Int_cell i) \<and> row_id r \<le> tb_seq t') (tb_rows t')"
      by (simp add: list_all_iff t'_def)
  qed
  moreover have "map_row (tb_columns t @ [c]) (r @ [co_default c]) = map_row (tb_columns t) r" if "r \<in> set (tb_rows t)" for r
    using map_row_add [OF _ assms(2) n] rows(1) [OF that] by (simp add: list_all2_lengthD)
  then have "records (Some t') = records (Some t)"
    by (simp add: records_def t'_def map_filter_def comp_def filter_map cong: filter_cong)
  moreover have "add_column c (Some t) = Inr (Some t')" using assms(3) by (simp add: add_column_def t'_def)
  moreover have "set (column_names (Some t')) = insert (co_name c) (set (column_names (Some t)))"
    by (simp add: t'_def column_names_def)
  ultimately show ?thesis by blast
qed

lemma migrated_columns:
  assumes "table_ok t" and "migrated (Some t)"
  shows "set audit_columns \<subseteq> set (tb_columns t)"
proof -
  have "c \<in> set (tb_columns t)" if "c \<in> {source_column, request_column}" for c
  proof -
    have "co_name c \<in> set (map co_name (tb_columns t))"
      using assms(2) that by (auto simp: migrated_def column_names_def column_defs)
    then obtain c' where "c' \<in> set (tb_columns t)" "co_name c' = co_name c" by auto
    with column_named [OF assms(1), of c' c] that show ?thesis by (auto simp: audit_columns_def)
  qed
  with assms(1) show ?thesis by (auto simp: audit_columns_def table_ok_def)
qed

lemma audit_cells:
  "list_all (\<lambda>c. cell_ok (cell_for seq (record_values r) c) c \<and> cell_for seq (record_values r) c \<noteq> Null) audit_columns"
  by (simp add: audit_columns_def column_defs cell_for_def record_values_def)

lemma insert_row_ok:
  assumes "table_ok t" and "migrated (Some t)"
  shows "\<exists>t'. insert_row r (Some t) = Inr (Some t') \<and> table_ok t' \<and> records (Some t') = records (Some t) @ [r] \<and>
    tb_columns t' = tb_columns t"
proof -
  let ?cols = "tb_columns t" and ?f = "cell_for (tb_seq t) (record_values r)"
  define t' where "t' = t\<lparr>tb_rows := tb_rows t @ [map ?f ?cols], tb_seq := tb_seq t + 1\<rparr>"
  note cols = migrated_columns [OF assms]
  have d: "distinct (map co_name ?cols)" and i: "\<exists>cs. ?cols = id_column # cs" using assms(1) by (auto simp: table_ok_def)
  have names: "set (map fst (record_values r)) \<subseteq> set (column_names (Some t))"
    using record_value_named [of r] cols by (auto simp: column_names_def)
  have cell: "cell_ok (?f c) c \<and> (co_not_null c \<longrightarrow> ?f c \<noteq> Null)" if "c \<in> set ?cols" for c
  proof -
    have "column_ok c" using that assms(1) by (simp add: table_ok_def list_all_iff)
    then consider "c \<in> set audit_columns" | "co_name c \<notin> set (map co_name audit_columns)" "cell_ok (co_default c) c"
      by (auto simp: column_ok_def)
    then show ?thesis
    proof cases
      case 1
      then show ?thesis using audit_cells by (auto simp: list_all_iff)
    next
      case 2
      then have "map_of (record_values r) (co_name c) = None" "co_name c \<noteq> ''id''"
        unfolding map_of_eq_None_iff audit_columns_names by (auto simp: record_values_def)
      with 2(2) show ?thesis by (cases "co_default c") (simp_all add: cell_for_def)
    qed
  qed
  then have all2: "list_all2 cell_ok (map ?f ?cols) ?cols" "list_all2 (\<lambda>v c. co_not_null c \<longrightarrow> v \<noteq> Null) (map ?f ?cols) ?cols"
    by (simp_all add: list_all2_conv_all_nth)
  have head: "hd (map ?f ?cols) = Int_cell (tb_seq t + 1)" "row_id (map ?f ?cols) = tb_seq t + 1"
    using i by (auto simp: id_column_def cell_for_def)
  have "table_ok t'"
    using assms(1) all2(1) head
    by (fastforce simp: table_ok_def t'_def list_all_iff sorted_wrt_append)
  moreover have "insert_row r (Some t) = Inr (Some t')"
    using names all2(2) by (simp add: insert_row_def t'_def Let_def)
  moreover have "records (Some t') = records (Some t) @ [r]"
    using map_row_insert [OF d cols] by (simp add: records_def t'_def map_filter_def)
  ultimately show ?thesis by (auto simp: t'_def)
qed

section \<open>Every interleaving\<close>

text \<open>What a worker has established when its next statement runs.\<close>

fun phase_ok :: "open_phase \<Rightarrow> database \<Rightarrow> bool" where
  "phase_ok Listing db = (db \<noteq> None)"
| "phase_ok (Adding cs) db =
     (db \<noteq> None \<and> set cs \<subseteq> {source_column, request_column} \<and>
      (\<forall>c \<in> {source_column, request_column}. co_name c \<in> set (column_names db) \<or> c \<in> set cs))"
| "phase_ok pc db = True"

lemma phase_ok_mono:
  "phase_ok pc db \<Longrightarrow> set (column_names db) \<subseteq> set (column_names db') \<Longrightarrow> (db \<noteq> None \<Longrightarrow> db' \<noteq> None) \<Longrightarrow> phase_ok pc db'"
  by (cases pc) auto

lemma phase_opened: "phase_ok opened db \<Longrightarrow> migrated db"
  by (auto simp: migrated_def column_defs)

lemma missing_columns_ok:
  "db \<noteq> None \<Longrightarrow> phase_ok (Adding (missing_columns (column_names db))) db"
  by (auto simp: missing_columns_def)

lemma open_step_moves:
  "open_step fault pc db = (pc', db') \<Longrightarrow>
     pc' = pc \<and> db' = db \<or> (\<exists>e. pc' = Open_failed e \<and> db' = db) \<or> pc' \<in> {Batch, Creating} \<and> db' = db \<or>
     pc = Creating \<and> pc' = Listing \<and> db' = create_table db \<or>
     pc = Listing \<and> pc' = Adding (missing_columns (column_names db)) \<and> db' = db \<or>
     (\<exists>c cs. pc = Adding (c # cs) \<and> add_column c db = Inr db' \<and> pc' = Adding cs)"
  by (erule open_step.elims) (simp_all split: sum.splits)

lemma open_step_ok:
  assumes "db_ok db" and "phase_ok pc db" and "open_step fault pc db = (pc', db')"
  shows "db_ok db' \<and> phase_ok pc' db' \<and> records db' = records db \<and>
    set (column_names db) \<subseteq> set (column_names db') \<and> (db \<noteq> None \<longrightarrow> db' \<noteq> None)"
proof -
  note created = create_table_ok [OF assms(1)]
  consider "pc' = pc" "db' = db" | e where "pc' = Open_failed e" "db' = db"
    | "pc' \<in> {Batch, Creating}" "db' = db"
    | "pc = Creating" "pc' = Listing" "db' = create_table db"
    | "pc = Listing" "pc' = Adding (missing_columns (column_names db))" "db' = db"
    | c cs where "pc = Adding (c # cs)" "add_column c db = Inr db'" "pc' = Adding cs"
    using open_step_moves [OF assms(3)] by blast
  then show ?thesis
  proof cases
    case 5
    with assms show ?thesis using missing_columns_ok [of db] by simp
  next
    case 6
    with assms(2) obtain t where t: "db = Some t" by auto
    have c: "c \<in> {source_column, request_column}" using assms(2) 6(1) by auto
    have new: "co_name c \<notin> set (column_names (Some t))" using 6(2) t by (auto simp: add_column_def split: if_splits)
    from add_column_ok [OF _ c new] assms(1) 6(2) t obtain t' where t': "db' = Some t'" "table_ok t'"
      "records (Some t') = records (Some t)" "set (column_names (Some t')) = insert (co_name c) (set (column_names (Some t)))"
      by (auto simp: db_ok_def)
    have "phase_ok (Adding cs) db'" using assms(2) 6(1) t t'(1,4) by auto
    with t' t 6(3) show ?thesis by (auto simp: db_ok_def)
  qed (use assms created in \<open>auto simp: column_names_def\<close>)
qed

definition workers_ok :: "database \<Rightarrow> workers \<Rightarrow> bool" where
  "workers_ok db w \<longleftrightarrow>
     db_ok (ws_db w) \<and> (\<forall>i. phase_ok (ws_pc w i) (ws_db w)) \<and> records (ws_db w) = records db @ ws_asked w"

lemma opened_insert:
  assumes "workers_ok db w" and "ws_pc w i = opened"
  shows "\<exists>t t'. ws_db w = Some t \<and> insert_row r (ws_db w) = Inr (Some t') \<and> table_ok t' \<and>
    records (Some t') = records (ws_db w) @ [r] \<and> tb_columns t' = tb_columns t"
proof -
  have p: "phase_ok opened (ws_db w)" using assms by (simp add: workers_ok_def flip: assms(2))
  then obtain t where t: "ws_db w = Some t" by auto
  moreover have "table_ok t" using assms(1) t by (simp add: workers_ok_def db_ok_def)
  ultimately show ?thesis using insert_row_ok [of t r] phase_opened [OF p] by auto
qed

lemma work_step_ok:
  assumes "workers_ok db w"
  shows "workers_ok db (work_step ev w)"
proof (cases ev)
  case (Open_next i fault)
  obtain pc db' where s: "open_step fault (ws_pc w i) (ws_db w) = (pc, db')" by fastforce
  have "db_ok (ws_db w)" "phase_ok (ws_pc w i) (ws_db w)" using assms by (simp_all add: workers_ok_def)
  note o = open_step_ok [OF this s]
  have "phase_ok (ws_pc w j) db'" for j
    using assms o by (auto simp: workers_ok_def intro: phase_ok_mono)
  with assms o s Open_next show ?thesis by (simp add: workers_ok_def)
next
  case (Write_row i fault r)
  show ?thesis
  proof (cases "ws_pc w i = opened \<and> fault = None")
    case False
    then show ?thesis using assms Write_row by (cases fault) (auto simp: workers_ok_def)
  next
    case True
    from opened_insert [OF assms conjunct1 [OF True], of r] obtain t t' where
      t: "ws_db w = Some t" "insert_row r (ws_db w) = Inr (Some t')" "table_ok t'"
        "records (Some t') = records (ws_db w) @ [r]" "tb_columns t' = tb_columns t"
      by blast
    have "phase_ok (ws_pc w j) (Some t')" for j
      using assms phase_ok_mono [of "ws_pc w j" "ws_db w" "Some t'"] t(1,5)
      by (simp add: workers_ok_def column_names_def)
    with assms t True Write_row show ?thesis by (simp add: workers_ok_def db_ok_def)
  qed
qed

lemma workers_on_ok: "db_ok db \<Longrightarrow> workers_ok db (workers_on db)"
  by (simp add: workers_ok_def workers_on_def)

lemma work_run_ok: "db_ok db \<Longrightarrow> workers_ok db (work_run evs (workers_on db))"
proof -
  assume db: "db_ok db"
  have "workers_ok db w \<Longrightarrow> workers_ok db (fold work_step evs w)" for w
    by (induction evs arbitrary: w) (simp_all add: work_step_ok del: work_step.simps)
  with db show ?thesis by (simp add: work_run_def workers_on_ok)
qed

text \<open>Alone, without a fault, a worker opens the log.\<close>

lemma open_alone_succeeds:
  assumes "db_ok db"
  shows "\<exists>db'. open_alone (replicate 6 None) Connecting db = (opened, db') \<and> db_ok db' \<and> migrated db' \<and>
    records db' = records db"
proof -
  define db1 where "db1 = create_table db"
  note created = create_table_ok [OF assms, folded db1_def]
  then obtain t where t: "db1 = Some t" "table_ok t" by (auto simp: db_ok_def)
  have six: "replicate 6 None = [None, None, None, None, None, None :: string option]" by (simp add: eval_nat_numeral)
  have start: "open_alone (replicate 6 None) Connecting db =
      open_alone [None, None] (Adding (missing_columns (column_names db1))) db1"
    by (simp add: six db1_def)
  define cs where "cs = missing_columns (column_names db1)"
  have *: "\<exists>db'. open_alone fs (Adding cs) db2 = (opened, db') \<and> db_ok db' \<and> migrated db' \<and> records db' = records db2"
    if "length cs \<le> length fs" and "set fs \<subseteq> {None}" and "phase_ok (Adding cs) db2" and "db_ok db2"
      and "distinct (map co_name cs)" and "\<forall>c \<in> set cs. co_name c \<notin> set (column_names db2)" for fs cs db2
    using that
  proof (induction fs arbitrary: cs db2)
    case Nil
    then show ?case using phase_opened [of db2] by simp
  next
    case (Cons f fs)
    show ?case
    proof (cases cs)
      case Nil
      with Cons.prems Cons.IH [of "[]" db2] show ?thesis by (cases f) simp_all
    next
      case c: (Cons c cs')
      from Cons.prems(3) obtain t where t: "db2 = Some t" by auto
      with Cons.prems c add_column_ok [of t c] obtain t' where t': "add_column c db2 = Inr (Some t')" "table_ok t'"
        "records (Some t') = records db2" "set (column_names (Some t')) = insert (co_name c) (set (column_names db2))"
        by (auto simp: db_ok_def)
      have "phase_ok (Adding cs') (Some t')" using Cons.prems(3) c t'(4) by auto
      moreover have "\<forall>c \<in> set cs'. co_name c \<notin> set (column_names (Some t'))" using Cons.prems(5,6) c t'(4) by (auto simp: image_iff)
      ultimately show ?thesis using Cons.prems Cons.IH [of cs' "Some t'"] c t' by (simp add: db_ok_def)
    qed
  qed
  have "distinct (map co_name cs)" "\<forall>c \<in> set cs. co_name c \<notin> set (column_names db1)" "length cs \<le> 2"
    by (auto simp: cs_def missing_columns_def column_defs)
  with * [of cs "[None, None]" db1] missing_columns_ok [of db1] created show ?thesis
    by (simp add: start cs_def [symmetric])
qed

lemma audit_open_succeeds:
  assumes "db_ok db"
  shows "\<exists>db'. audit_open [] cfg db = (Inr (audit_enabled cfg, audit_dlp_redact cfg), db') \<and> db_ok db' \<and>
    migrated db' \<and> records db' = records db"
proof -
  obtain db' where "open_alone (replicate 6 None) Connecting db = (opened, db')" "db_ok db'" "migrated db'"
    "records db' = records db"
    using open_alone_succeeds [OF assms] by blast
  then show ?thesis by (simp add: audit_open_def)
qed

section \<open>Searching the table\<close>

lemma map_filter_total: "\<forall>x \<in> set xs. f x \<noteq> None \<Longrightarrow> List.map_filter f xs = map (\<lambda>x. the (f x)) xs"
  by (induction xs) (auto simp: map_filter_simps)

lemma sort_key_strict: "sorted_wrt (<) (map f xs) \<Longrightarrow> sort_key f xs = xs"
  by (rule sort_key_id_if_sorted) (rule strict_sorted_imp_sorted)

lemma map_row_where:
  assumes "map_row cols row = Some r"
  shows "where_is cols ''client'' x row = (case x of Some y \<Rightarrow> ar_client r = y | None \<Rightarrow> True)"
    and "where_is cols ''code'' x row = (case x of Some y \<Rightarrow> ar_code r = y | None \<Rightarrow> True)"
proof -
  have tx: "as_text v = Some z \<longleftrightarrow> v = Some (Text_cell z)" for v z by (cases v rule: as_text.cases) auto
  have "as_text (row_value cols row ''client'') = Some (ar_client r)" "as_text (row_value cols row ''code'') = Some (ar_code r)"
    using assms by (auto simp: map_row_def Let_def split: if_splits)
  then show "where_is cols ''client'' x row = (case x of Some y \<Rightarrow> ar_client r = y | None \<Rightarrow> True)"
    "where_is cols ''code'' x row = (case x of Some y \<Rightarrow> ar_code r = y | None \<Rightarrow> True)"
    by (auto simp: tx where_is_def split: option.split)
qed

lemma search_table:
  assumes "table_ok t" and "migrated (Some t)" and "al_rows lg = records (Some t)"
  shows "table_search client code limit (Some t) = audit_search client code limit lg"
proof -
  let ?cols = "tb_columns t" and ?rows = "tb_rows t" and ?g = "\<lambda>row. the (map_row (tb_columns t) row)"
  let ?p = "\<lambda>row. where_is ?cols ''client'' client row \<and> where_is ?cols ''code'' code row"
  let ?q = "\<lambda>r. (case client of Some c \<Rightarrow> ar_client r = c | None \<Rightarrow> True) \<and> (case code of Some k \<Rightarrow> ar_code r = k | None \<Rightarrow> True)"
  have "set selected_columns \<subseteq> co_name ` set audit_columns"
    unfolding image_set audit_columns_names by (simp add: selected_columns_def)
  also have "\<dots> \<subseteq> set (column_names (Some t))"
    using migrated_columns [OF assms(1,2)] by (auto simp: column_names_def)
  finally have selected: "set selected_columns \<subseteq> set (column_names (Some t))" .
  have total: "map_row ?cols row \<noteq> None" if "row \<in> set ?rows" for row
    using assms(1) map_row_total that by (auto simp: table_ok_def list_all_iff)
  have rows: "records (Some t) = map ?g ?rows"
    unfolding records_def option.case by (rule map_filter_total) (use total in blast)
  have p: "?p row = ?q (?g row)" if "row \<in> set ?rows" for row
    using map_row_where [of ?cols row "?g row"] total [OF that] by simp
  have "sort_key row_id ?rows = ?rows" using assms(1) by (intro sort_key_strict) (simp add: table_ok_def)
  then have "table_search client code limit (Some t) =
      List.map_filter (map_row ?cols) (take (min 1000 (max 1 limit)) (filter ?p (rev ?rows)))"
    using selected by (simp add: table_search_def)
  also have "\<dots> = map ?g (take (min 1000 (max 1 limit)) (filter ?p (rev ?rows)))"
    using total by (intro map_filter_total) (auto dest: in_set_takeD)
  also have "filter ?p (rev ?rows) = filter (\<lambda>row. ?q (?g row)) (rev ?rows)" by (rule filter_cong) (use p in auto)
  also have "map ?g (take (min 1000 (max 1 limit)) (filter (\<lambda>row. ?q (?g row)) (rev ?rows))) =
      take (min 1000 (max 1 limit)) (filter ?q (map ?g (rev ?rows)))"
    by (simp add: take_map filter_map comp_def)
  also have "\<dots> = audit_search client code limit lg"
    by (simp add: audit_search_def assms(3) rows rev_map)
  finally show ?thesis .
qed

section \<open>Properties\<close>

text \<open>
  C16: (The audit table stays well typed) In every interleaving of any number of workers that open and
  write the same file, new or of an older version, with any statements failing, every row has a value of
  the declared type in every column, ids grow, nothing that was readable is lost, and every record
  that an open worker inserts without a fault is read back, in order.
\<close>

theorem audit_table_typed:
  assumes "db_ok db" and "w = work_run evs (workers_on db)"
  shows "db_ok (ws_db w) \<and> records (ws_db w) = records db @ ws_asked w \<and>
    (\<forall>i. ws_pc w i = opened \<longrightarrow> migrated (ws_db w) \<and>
      (\<forall>r. \<exists>db'. insert_row r (ws_db w) = Inr db' \<and> db_ok db' \<and> records db' = records (ws_db w) @ [r]))"
proof -
  have w: "workers_ok db w" using work_run_ok [OF assms(1)] assms(2) by simp
  have "migrated (ws_db w)" if "ws_pc w i = opened" for i
    using w that phase_opened [of "ws_db w"] by (simp add: workers_ok_def flip: that)
  moreover have "\<exists>db'. insert_row r (ws_db w) = Inr db' \<and> db_ok db' \<and> records db' = records (ws_db w) @ [r]"
    if "ws_pc w i = opened" for i r
    using opened_insert [OF w that, of r] by (auto simp: db_ok_def)
  ultimately show ?thesis using w by (simp add: workers_ok_def)
qed

text \<open>
  (A search is a search of the records) The \<open>SELECT\<close> on a migrated table, with its condition, order
  and limit, answers what the search of the audit log answers on the records of the table.
\<close>

theorem search_refines_log:
  assumes "table_ok t" and "migrated (Some t)" and "al_rows lg = records (Some t)"
  shows "table_search client code limit (Some t) = audit_search client code limit lg"
  by (rule search_table [OF assms])

text \<open>
  C35: (Two workers that migrate together) When two workers list the columns of an older file before
  one of them adds \<open>usage_source\<close>, the other's own \<open>ALTER TABLE\<close> is refused, its audit log is not opened,
  and none of its records is ever written.
\<close>

theorem concurrent_migration_fails:
  assumes "add_column source_column db = Inr db'" and "i \<noteq> j" and "ws_db w = db"
    and "ws_pc w i = Adding (source_column # cs)" and "ws_pc w j = Adding (source_column # cs')"
  shows "let w' = work_step (Open_next j None) (work_step (Open_next i None) w) in
    ws_pc w' j = Open_failed ''duplicate column name: usage_source'' \<and>
    (\<forall>evs. ws_pc (work_run evs w') j = Open_failed ''duplicate column name: usage_source'') \<and>
    (\<forall>fault r. work_step (Write_row j fault r) w' = w')"
proof -
  define w' where "w' = work_step (Open_next j None) (work_step (Open_next i None) w)"
  have "add_column source_column db' = Inl ''duplicate column name: usage_source''"
    using assms(1) by (auto simp: add_column_def column_names_def source_column_def text_column_def split: option.splits if_splits)
  then have j: "ws_pc w' j = Open_failed ''duplicate column name: usage_source''"
    using assms by (simp add: w'_def)
  have stay: "ws_pc (work_step ev v) j = Open_failed e" if "ws_pc v j = Open_failed e" for ev v e
    using that by (cases ev) (auto split: prod.splits option.splits sum.splits if_splits)
  have "ws_pc (work_run evs v) j = Open_failed e" if "ws_pc v j = Open_failed e" for evs v e
    unfolding work_run_def using that by (induction evs arbitrary: v) (simp_all add: stay del: work_step.simps)
  moreover have "work_step (Write_row j fault r) w' = w'" for fault r using j by simp
  ultimately show ?thesis unfolding Let_def w'_def [symmetric] using j by blast
qed

section \<open>Witnesses\<close>

definition old_table :: audit_table where
  "old_table = \<lparr>tb_columns = base_columns, tb_rows = [[Int_cell 1, Text_cell ''t'', Text_cell ''a'', Text_cell ''p'',
     Text_cell ''m'', Text_cell ''200'', Int_cell 3, Int_cell 4, Text_cell ''[]'', Text_cell ''hi'']], tb_seq = 1\<rparr>"

definition demo_record :: "string \<Rightarrow> audit_record" where
  "demo_record c = \<lparr>ar_ts = ''t'', ar_client = c, ar_provider = ''p'', ar_model = ''m'', ar_code = ''200'',
     ar_prompt_tokens = 3, ar_completion_tokens = 4, ar_messages = ''[]'', ar_response = ''hi'',
     ar_usage_source = ''upstream'', ar_request_id = []\<rparr>"

lemma old_table_ok: "table_ok old_table"
  by (simp add: table_ok_def old_table_def base_columns_def text_column_def integer_column_def id_column_def
      column_ok_def audit_columns_def)

lemma old_table_records: "records (Some old_table) = [demo_record ''a'']"
  by code_simp

definition both_listed :: "work list" where
  "both_listed = concat (replicate 4 [Open_next 0 None, Open_next 1 None])"

theorem audit_table_typed_witness:
  "records (ws_db (work_run (replicate 6 (Open_next 0 None) @ [Write_row 0 None (demo_record ''b'')])
     (workers_on (Some old_table)))) = [demo_record ''a'', demo_record ''b'']"
proof -
  have "ws_asked (work_run (replicate 6 (Open_next 0 None) @ [Write_row 0 None (demo_record ''b'')])
      (workers_on (Some old_table))) = [demo_record ''b'']"
    by code_simp
  then show ?thesis
    using audit_table_typed [of "Some old_table", OF _ refl] old_table_ok old_table_records
    by (simp add: db_ok_def)
qed

theorem search_refines_log_witness:
  "\<exists>t. add_column source_column (Some old_table) = Inr (Some t) \<and>
     table_search (Some ''a'') None 10 (Some (t\<lparr>tb_columns := tb_columns t @ [request_column],
       tb_rows := map (\<lambda>r. r @ [Text_cell []]) (tb_rows t)\<rparr>)) = [demo_record ''a'']"
proof -
  define t where "t = old_table\<lparr>tb_columns := base_columns @ [source_column], tb_rows := map (\<lambda>r. r @ [Text_cell ''upstream'']) (tb_rows old_table)\<rparr>"
  define t' where "t' = t\<lparr>tb_columns := tb_columns t @ [request_column], tb_rows := map (\<lambda>r. r @ [Text_cell []]) (tb_rows t)\<rparr>"
  have a: "add_column source_column (Some old_table) = Inr (Some t)"
    by (simp add: add_column_def t_def old_table_def column_names_def base_columns_def column_defs)
  have "table_ok t'" "migrated (Some t')"
    by (simp_all add: table_ok_def t'_def t_def old_table_def column_defs column_ok_def audit_columns_def migrated_def column_names_def)
  moreover have "records (Some t') = [demo_record ''a'']"
    by (simp add: records_def t'_def t_def old_table_def map_filter_simps map_row_def row_value_def column_defs demo_record_def or_else_def)
  ultimately have "table_search (Some ''a'') None 10 (Some t') = [demo_record ''a'']"
    using search_refines_log [of t' "\<lparr>al_enabled = True, al_dlp_redact = True, al_rows = [demo_record ''a''], al_errors = 0\<rparr>"
      "Some ''a''" None 10]
    by (simp add: audit_search_def) (simp add: demo_record_def)
  with a show ?thesis by (auto simp: t'_def)
qed

theorem concurrent_migration_fails_witness:
  "let w = work_run both_listed (workers_on (Some old_table)); w' = work_step (Open_next 1 None) (work_step (Open_next 0 None) w) in
    ws_pc w' 1 = Open_failed ''duplicate column name: usage_source''"
proof -
  define w where "w = work_run both_listed (workers_on (Some old_table))"
  have "column_names (Some old_table) = map co_name base_columns" by (simp add: old_table_def column_names_def)
  then have m: "missing_columns (column_names (Some old_table)) = [source_column, request_column]"
    by (simp add: missing_columns_def column_defs)
  have w: "ws_db w = Some old_table" "ws_pc w 0 = Adding (source_column # [request_column])"
    "ws_pc w 1 = Adding (source_column # [request_column])"
    by (simp_all add: w_def both_listed_def work_run_def workers_on_def eval_nat_numeral create_table_def m)
  have "\<exists>db'. add_column source_column (Some old_table) = Inr db'"
    by (simp add: add_column_def old_table_def column_names_def column_defs)
  then obtain db' where "add_column source_column (Some old_table) = Inr db'" by blast
  from concurrent_migration_fails [OF this _ w, of] show ?thesis by (simp add: w_def Let_def)
qed

end
