(* ===== verification/Entry.thy ===== *)
theory Entry
  imports App_State Audit_Store "HOL-Library.Word"
begin

unbundle bit_operations_syntax

text \<open>
  The gateway process: \<open>fwllm-gateway/src/main.rs\<close> and the two routers of \<open>lib.rs\<close>.  The routers are their
  route tables; how axum dispatches on a table is the parameter \<open>serve\<close> with the law \<open>axum_ok\<close>.  Files
  have a mode and a content, as the Unix calls of \<open>std::fs\<close> treat them; the certificate generator, the
  TLS loader, the YAML parser and what the operating system answers are the record \<open>host\<close>.
\<close>

section \<open>Routes\<close>

datatype handler = Healthz | Chat_completions | Admin_audit | Create_ingress_token | List_ingress_agents
  | Ingress_ws | Metrics_page

datatype method_filter = Get_route | Post_route

type_synonym routes = "(string \<times> method_filter \<times> handler) list"

definition main_routes :: routes where
  "main_routes =
     [(''/healthz'', Get_route, Healthz), (''/v1/chat/completions'', Post_route, Chat_completions),
      (''/admin/audit'', Get_route, Admin_audit), (''/admin/ingress/tokens'', Post_route, Create_ingress_token),
      (''/admin/ingress/agents'', Get_route, List_ingress_agents), (''/ingress'', Get_route, Ingress_ws),
      (''/metrics'', Get_route, Metrics_page)]"

definition build_ingress_router :: routes where
  "build_ingress_router = [(''/ingress'', Get_route, Ingress_ws)]"

fun admits_method :: "method_filter \<Rightarrow> string \<Rightarrow> bool" where
  "admits_method Get_route m = (m \<in> {''GET'', ''HEAD''})"
| "admits_method Post_route m = (m = ''POST'')"

text \<open>A request goes to a handler exactly by a route of its path and method; every other is answered 404 or 405.\<close>

definition axum_ok :: "(routes \<Rightarrow> string \<Rightarrow> string \<Rightarrow> handler option) \<Rightarrow> bool" where
  "axum_ok serve \<longleftrightarrow>
     (\<forall>rs m p h. distinct (map fst rs) \<longrightarrow>
        (serve rs m p = Some h \<longleftrightarrow> (\<exists>f. (p, f, h) \<in> set rs \<and> admits_method f m)))"

definition healthz :: response where
  "healthz = (200, JObj [(''status'', JStr ''ok'')])"

section \<open>Certificates\<close>

record unix =
  ux_files :: "(string, nat \<times> string) hmap"
  ux_umask :: nat
  ux_fault :: "string \<Rightarrow> string option"

text \<open>Open for writing, create with a mode less the umask, truncate, and write: an existing file keeps its mode.\<close>

definition write_file :: "string \<Rightarrow> nat \<Rightarrow> string \<Rightarrow> unix \<Rightarrow> (string + unit) \<times> unix" where
  "write_file path mode content ux =
     (case ux_fault ux path of Some e \<Rightarrow> (Inl e, ux)
      | None \<Rightarrow>
          (let m = (case hget (ux_files ux) path of Some (m, _) \<Rightarrow> m | None \<Rightarrow> mode - (mode AND ux_umask ux))
           in (Inr (), ux\<lparr>ux_files := hput path (m, content) (ux_files ux)\<rparr>)))"

text \<open>\<open>0o666\<close>, the mode of \<open>std::fs::write\<close>, and \<open>0o600\<close>.\<close>

definition plain_mode :: nat where
  "plain_mode = 438"

definition key_mode :: nat where
  "key_mode = 384"

definition ensure_self_signed_certs ::
  "(string list \<Rightarrow> string + string \<times> string) \<Rightarrow> string \<Rightarrow> string list \<Rightarrow> unix \<Rightarrow> (string + string \<times> string) \<times> unix" where
  "ensure_self_signed_certs generate dir sans ux =
     (let cert_path = path_join dir ''server.crt''; key_path = path_join dir ''server.key''; ca_path = path_join dir ''ca.crt''
      in if \<forall>p \<in> {cert_path, key_path, ca_path}. hget (ux_files ux) p \<noteq> None then (Inr (cert_path, key_path), ux)
      else case ux_fault ux dir of Some e \<Rightarrow> (Inl e, ux) | None \<Rightarrow>
      (case generate sans of Inl e \<Rightarrow> (Inl e, ux)
       | Inr (cert_pem, key_pem) \<Rightarrow>
      (case write_file cert_path plain_mode cert_pem ux of (Inl e, ux) \<Rightarrow> (Inl e, ux) | (Inr _, ux) \<Rightarrow>
      (case write_file key_path key_mode key_pem ux of (Inl e, ux) \<Rightarrow> (Inl e, ux) | (Inr _, ux) \<Rightarrow>
      (case write_file ca_path plain_mode cert_pem ux of (Inl e, ux) \<Rightarrow> (Inl e, ux) | (Inr _, ux) \<Rightarrow>
         (Inr (cert_path, key_path), ux))))))"

section \<open>Starting\<close>

record host =
  ho_env :: "string \<Rightarrow> string option"
  ho_read :: "string \<Rightarrow> string + string"
  ho_yaml :: "string \<Rightarrow> string + yaml"
  ho_value :: "yaml \<Rightarrow> string + config"
  ho_addr_error :: "string \<Rightarrow> string option"
  ho_startup :: startup
  ho_audit_db :: "string \<Rightarrow> database"
  ho_audit_faults :: "string option list"
  ho_generate :: "string list \<Rightarrow> string + string \<times> string"
  ho_tls_error :: "(nat \<times> string) option \<Rightarrow> (nat \<times> string) option \<Rightarrow> string option"
  ho_bind_error :: "string \<Rightarrow> string option"

definition load_config :: "host \<Rightarrow> string \<Rightarrow> config_error + config" where
  "load_config ho path =
     (case ho_read ho path of Inl e \<Rightarrow> Inl (Io e)
      | Inr raw \<Rightarrow> load_config_from_str (ho_yaml ho) (ho_value ho) (\<lambda>a. ho_addr_error ho a = None) (ho_env ho) raw)"

definition open_audit_log :: "host \<Rightarrow> audit_config \<Rightarrow> string + audit_log" where
  "open_audit_log ho cfg =
     (case audit_open (ho_audit_faults ho) cfg (ho_audit_db ho (audit_db_path cfg)) of
        (Inl e, db) \<Rightarrow> Inl e
      | (Inr (enabled, dlp_redact), db) \<Rightarrow>
          Inr \<lparr>al_enabled = enabled, al_dlp_redact = dlp_redact, al_rows = records db, al_errors = 0\<rparr>)"

datatype stop = Exit_one string | Panic string

record listener =
  ls_addr :: string
  ls_tls :: bool
  ls_routes :: routes

text \<open>The listener for agents, when the configuration enables it.\<close>

definition start_ingress :: "host \<Rightarrow> ingress_config \<Rightarrow> unix \<Rightarrow> (stop + listener list) \<times> unix" where
  "start_ingress ho icfg ux =
     (if \<not> ingress_enabled icfg then (Inr [], ux)
      else let certs_dir = (case ho_env ho ''FWLLM_CERTS_DIR'' of Some d \<Rightarrow> d | None \<Rightarrow> ''./certs'') in
      (case ensure_self_signed_certs (ho_generate ho) certs_dir (ingress_sans icfg) ux of
         (Inl e, ux) \<Rightarrow> (Inl (Exit_one (''ingress cert setup failed: '' @ e)), ux)
       | (Inr (cert_path, key_path), ux) \<Rightarrow>
      (case ho_tls_error ho (hget (ux_files ux) cert_path) (hget (ux_files ux) key_path) of
         Some e \<Rightarrow> (Inl (Exit_one (''ingress TLS config failed: '' @ e)), ux)
       | None \<Rightarrow>
      (case ho_addr_error ho (ingress_listen icfg) of
         Some e \<Rightarrow> (Inl (Exit_one (''invalid ingress.listen '' @ quoted (ingress_listen icfg) @ '': '' @ e)), ux)
       | None \<Rightarrow> (Inr [\<lparr>ls_addr = ingress_listen icfg, ls_tls = True, ls_routes = build_ingress_router\<rparr>], ux)))))"

text \<open>
  The main listener is bound by \<open>main\<close> itself, the one for agents by a task of its own; if either
  cannot be bound the process ends.
\<close>

definition bind_all :: "host \<Rightarrow> listener list \<Rightarrow> string \<Rightarrow> stop option" where
  "bind_all ho ingress addr =
     (case ho_bind_error ho addr of Some e \<Rightarrow> Some (Panic (''bind: '' @ e))
      | None \<Rightarrow>
          (case ingress of [] \<Rightarrow> None
           | l # _ \<Rightarrow> map_option (\<lambda>e. Exit_one (''ingress server error: '' @ e)) (ho_bind_error ho (ls_addr l))))"

definition start :: "host \<Rightarrow> unix \<Rightarrow> (stop + listener list \<times> 'p app_state) \<times> unix" where
  "start ho ux =
     (case ho_env ho ''FWLLM_CONFIG'' of
        None \<Rightarrow> (Inl (Exit_one ''FWLLM_CONFIG environment variable must point to a fwllm.yaml file''), ux)
      | Some config_path \<Rightarrow>
     (case load_config ho config_path of
        Inl err \<Rightarrow> (Inl (Exit_one (''failed to load '' @ config_path @ '': '' @ config_error_text err)), ux)
      | Inr cfg \<Rightarrow>
     (let addr = srv_host (cfg_server cfg) @ '':'' @ dec_nat (srv_port (cfg_server cfg)) in
      case build_app_full (ho_startup ho) (open_audit_log ho) cfg None None of
        Inl e \<Rightarrow> (Inl (Panic e), ux)
      | Inr app \<Rightarrow>
     (case start_ingress ho (cfg_ingress cfg) ux of
        (Inl s, ux) \<Rightarrow> (Inl s, ux)
      | (Inr ingress, ux) \<Rightarrow>
     (case bind_all ho ingress addr of
        Some s \<Rightarrow> (Inl s, ux)
      | None \<Rightarrow> (Inr (ingress @ [\<lparr>ls_addr = addr, ls_tls = False, ls_routes = main_routes\<rparr>], app), ux))))))"

section \<open>Lemmas\<close>

lemma write_file_Inr:
  assumes "write_file path mode content ux = (Inr u, ux')"
  shows "hget (ux_files ux') path = Some (case hget (ux_files ux) path of Some (m, _) \<Rightarrow> m | None \<Rightarrow> mode - (mode AND ux_umask ux), content)"
    and "p \<noteq> path \<Longrightarrow> hget (ux_files ux') p = hget (ux_files ux) p" and "ux_umask ux' = ux_umask ux"
  using assms by (auto simp: write_file_def split: option.splits)

lemma ensure_certs_Inr:
  assumes "ensure_self_signed_certs generate dir sans ux = (Inr (c, k), ux')"
  shows "c = path_join dir ''server.crt'' \<and> k = path_join dir ''server.key'' \<and>
    ((\<forall>p \<in> {c, k, path_join dir ''ca.crt''}. hget (ux_files ux) p \<noteq> None) \<and> ux' = ux \<or>
     (\<exists>cert key. generate sans = Inr (cert, key) \<and>
        (\<exists>m. hget (ux_files ux') c = Some (m, cert)) \<and> (\<exists>m. hget (ux_files ux') (path_join dir ''ca.crt'') = Some (m, cert)) \<and>
        hget (ux_files ux') k =
          Some (case hget (ux_files ux) k of Some (m, _) \<Rightarrow> m | None \<Rightarrow> key_mode - (key_mode AND ux_umask ux), key)))"
proof -
  let ?c = "path_join dir ''server.crt''" and ?k = "path_join dir ''server.key''" and ?a = "path_join dir ''ca.crt''"
  have d: "?c \<noteq> ?k" "?k \<noteq> ?a" "?c \<noteq> ?a" by (simp_all add: path_join_def)
  show ?thesis
  proof (cases "\<forall>p \<in> {?c, ?k, ?a}. hget (ux_files ux) p \<noteq> None")
    case True
    with assms show ?thesis by (auto simp: ensure_self_signed_certs_def Let_def)
  next
    case False
    note run = assms [unfolded ensure_self_signed_certs_def Let_def if_not_P [OF False]]
    from run obtain cert key where g: "generate sans = Inr (cert, key)"
      by (cases "ux_fault ux dir"; cases "generate sans") auto
    note run = run [unfolded g sum.case prod.case]
    from run obtain u1 ux1 where w1: "write_file ?c plain_mode cert ux = (Inr u1, ux1)"
      by (cases "ux_fault ux dir"; cases "write_file ?c plain_mode cert ux"; cases "fst (write_file ?c plain_mode cert ux)") auto
    note run = run [unfolded w1 sum.case prod.case]
    from run obtain u2 ux2 where w2: "write_file ?k key_mode key ux1 = (Inr u2, ux2)"
      by (cases "ux_fault ux dir"; cases "write_file ?k key_mode key ux1"; cases "fst (write_file ?k key_mode key ux1)") auto
    note run = run [unfolded w2 sum.case prod.case]
    from run obtain u3 where w3: "write_file ?a plain_mode cert ux2 = (Inr u3, ux')" and ck: "c = ?c" "k = ?k"
      by (cases "ux_fault ux dir"; cases "write_file ?a plain_mode cert ux2"; cases "fst (write_file ?a plain_mode cert ux2)") auto
    note w1 = write_file_Inr [OF w1] and w2 = write_file_Inr [OF w2] and w3 = write_file_Inr [OF w3]
    have "hget (ux_files ux') ?k = Some (case hget (ux_files ux) ?k of Some (m, _) \<Rightarrow> m | None \<Rightarrow> key_mode - (key_mode AND ux_umask ux), key)"
      using w1(2) [of ?k] w1(3) w2(1) w3(2) [of ?k] d by (simp cong: option.case_cong)
    moreover have "\<exists>m. hget (ux_files ux') ?c = Some (m, cert)"
      using w1(1) w2(2) [of ?c] w3(2) [of ?c] d by simp
    ultimately show ?thesis using g ck w3(1) by blast
  qed
qed

text \<open>No bit of the group or of others in a mode.\<close>

definition private_mode :: "nat \<Rightarrow> bool" where
  "private_mode m \<longleftrightarrow> m AND 63 = 0"

lemma and_push_bit: "push_bit n a AND b = push_bit n (a AND drop_bit n (b :: nat))"
  by (rule bit_eqI) (auto simp: bit_simps)

lemma fresh_key_private: "private_mode (key_mode - (key_mode AND u))"
proof -
  have "key_mode = push_bit 7 3" by (simp add: key_mode_def push_bit_eq_mult)
  then have "key_mode AND u = 128 * (3 AND drop_bit 7 u)"
    using and_push_bit [of 7 3 u] by (simp add: push_bit_eq_mult)
  then have "key_mode - (key_mode AND u) = 128 * (3 - (3 AND drop_bit 7 u))"
    by (simp add: key_mode_def right_diff_distrib')
  moreover have "(128 * x) AND 63 = (0 :: nat)" for x
  proof -
    have "(128 * x) AND 63 = push_bit 7 x AND 63" by (simp add: push_bit_eq_mult ac_simps)
    also have "\<dots> = push_bit 7 (x AND drop_bit 7 63)" by (rule and_push_bit)
    finally show ?thesis by (simp add: drop_bit_eq_div)
  qed
  ultimately show ?thesis by (simp add: private_mode_def)
qed

lemma axum_dispatch:
  assumes "axum_ok serve" and "distinct (map fst rs)"
  shows "serve rs m p = Some h \<longleftrightarrow> (\<exists>f. (p, f, h) \<in> set rs \<and> admits_method f m)"
  using assms unfolding axum_ok_def by blast

lemma routes_distinct: "distinct (map fst main_routes)" "distinct (map fst build_ingress_router)"
  by (simp_all add: main_routes_def build_ingress_router_def)

lemma ingress_dispatch:
  "axum_ok serve \<Longrightarrow> serve build_ingress_router m p = Some h \<longleftrightarrow> p = ''/ingress'' \<and> h = Ingress_ws \<and> m \<in> {''GET'', ''HEAD''}"
  using axum_dispatch [OF _ routes_distinct(2), of serve m p h] by (auto simp: build_ingress_router_def)

lemma ex_method_filter: "(\<exists>f. P f) \<longleftrightarrow> P Get_route \<or> P Post_route"
  by (metis method_filter.exhaust)

lemma main_route_iff:
  "(\<exists>f. (p, f, target) \<in> set main_routes \<and> admits_method f m) \<longleftrightarrow>
     (p, target) \<in> {(''/healthz'', Healthz), (''/admin/audit'', Admin_audit), (''/admin/ingress/agents'', List_ingress_agents),
         (''/ingress'', Ingress_ws), (''/metrics'', Metrics_page)} \<and> m \<in> {''GET'', ''HEAD''} \<or>
     (p, target) \<in> {(''/v1/chat/completions'', Chat_completions), (''/admin/ingress/tokens'', Create_ingress_token)} \<and> m = ''POST''"
proof -
  have get: "(p, Get_route, target) \<in> set main_routes \<longleftrightarrow>
      (p, target) \<in> {(''/healthz'', Healthz), (''/admin/audit'', Admin_audit), (''/admin/ingress/agents'', List_ingress_agents),
         (''/ingress'', Ingress_ws), (''/metrics'', Metrics_page)}"
    by (simp only: main_routes_def list.set insert_iff empty_iff prod.inject method_filter.distinct
        HOL.simp_thms)
  have post: "(p, Post_route, target) \<in> set main_routes \<longleftrightarrow>
      (p, target) \<in> {(''/v1/chat/completions'', Chat_completions), (''/admin/ingress/tokens'', Create_ingress_token)}"
    by (simp only: main_routes_def list.set insert_iff empty_iff prod.inject method_filter.distinct
        HOL.simp_thms)
  show ?thesis unfolding ex_method_filter admits_method.simps get post ..
qed

lemma start_ingress_Inr:
  "start_ingress ho icfg ux = (Inr ls, ux') \<Longrightarrow>
     ls = (if ingress_enabled icfg
           then [\<lparr>ls_addr = ingress_listen icfg, ls_tls = True, ls_routes = build_ingress_router\<rparr>] else [])"
  by (auto simp: start_ingress_def Let_def split: if_splits prod.splits sum.splits option.splits)

lemma start_Inr:
  assumes "start ho ux = (Inr (ls, app), ux')"
  shows "\<exists>path cfg ingress. ho_env ho ''FWLLM_CONFIG'' = Some path \<and> load_config ho path = Inr cfg \<and>
    build_app_full (ho_startup ho) (open_audit_log ho) cfg None None = Inr app \<and>
    start_ingress ho (cfg_ingress cfg) ux = (Inr ingress, ux') \<and>
    bind_all ho ingress (srv_host (cfg_server cfg) @ '':'' @ dec_nat (srv_port (cfg_server cfg))) = None \<and>
    ls = ingress @ [\<lparr>ls_addr = srv_host (cfg_server cfg) @ '':'' @ dec_nat (srv_port (cfg_server cfg)),
      ls_tls = False, ls_routes = main_routes\<rparr>]"
proof -
  obtain path where p: "ho_env ho ''FWLLM_CONFIG'' = Some path"
    using assms by (cases "ho_env ho ''FWLLM_CONFIG''") (simp_all add: start_def)
  note run = assms [unfolded start_def p option.case]
  obtain cfg where c: "load_config ho path = Inr cfg" using run by (cases "load_config ho path") simp_all
  note run = run [unfolded c sum.case Let_def]
  let ?addr = "srv_host (cfg_server cfg) @ '':'' @ dec_nat (srv_port (cfg_server cfg))"
  obtain app' where a: "build_app_full (ho_startup ho) (open_audit_log ho) cfg None None = Inr (app' :: 'a app_state)"
    using run by (cases "build_app_full (ho_startup ho) (open_audit_log ho) cfg None None :: string + 'a app_state") simp_all
  note run = run [unfolded a sum.case]
  obtain ingress ux1 where i: "start_ingress ho (cfg_ingress cfg) ux = (Inr ingress, ux1)"
    using run by (cases "start_ingress ho (cfg_ingress cfg) ux"; cases "fst (start_ingress ho (cfg_ingress cfg) ux)") simp_all
  note run = run [unfolded i prod.case sum.case]
  have b: "bind_all ho ingress ?addr = None" using run by (cases "bind_all ho ingress ?addr") simp_all
  show ?thesis using run p c a i b by simp
qed

section \<open>Properties\<close>

text \<open>
  C17: (The agents' port serves agents only) A gateway that has started listens exactly where the
  configuration it loaded says: in plain text on the address of its host and port, where a request
  reaches a handler exactly by one of the main routes, and, before it and only when ingress is
  enabled, with TLS on the ingress address, where no path but \<open>/ingress\<close> reaches a handler.  Every
  address is bound, and the state is one that \<open>build\<close> makes of that configuration.
\<close>

theorem agent_port_is_ingress_only:
  assumes "start ho ux = (Inr (ls, app), ux')" and "axum_ok serve"
  shows "\<exists>path cfg audit. ho_env ho ''FWLLM_CONFIG'' = Some path \<and> load_config ho path = Inr cfg \<and>
    build (ho_startup ho) cfg None None audit = Inr app \<and>
    map (\<lambda>l. (ls_tls l, ls_addr l)) ls =
      (if ingress_enabled (cfg_ingress cfg) then [(True, ingress_listen (cfg_ingress cfg))] else []) @
      [(False, srv_host (cfg_server cfg) @ '':'' @ dec_nat (srv_port (cfg_server cfg)))] \<and>
    (\<forall>l \<in> set ls. ho_bind_error ho (ls_addr l) = None \<and>
      (if ls_tls l
       then \<forall>m p. serve (ls_routes l) m p = (if p = ''/ingress'' \<and> m \<in> {''GET'', ''HEAD''} then Some Ingress_ws else None)
       else \<forall>m p target. serve (ls_routes l) m p = Some target \<longleftrightarrow>
         (p, target) \<in> {(''/healthz'', Healthz), (''/admin/audit'', Admin_audit), (''/admin/ingress/agents'', List_ingress_agents),
             (''/ingress'', Ingress_ws), (''/metrics'', Metrics_page)} \<and> m \<in> {''GET'', ''HEAD''} \<or>
         (p, target) \<in> {(''/v1/chat/completions'', Chat_completions), (''/admin/ingress/tokens'', Create_ingress_token)} \<and>
           m = ''POST''))"
proof -
  obtain path cfg ingress where s: "ho_env ho ''FWLLM_CONFIG'' = Some path" "load_config ho path = Inr cfg"
    "build_app_full (ho_startup ho) (open_audit_log ho) cfg None None = Inr app"
    "start_ingress ho (cfg_ingress cfg) ux = (Inr ingress, ux')"
    "bind_all ho ingress (srv_host (cfg_server cfg) @ '':'' @ dec_nat (srv_port (cfg_server cfg))) = None"
    "ls = ingress @ [\<lparr>ls_addr = srv_host (cfg_server cfg) @ '':'' @ dec_nat (srv_port (cfg_server cfg)),
      ls_tls = False, ls_routes = main_routes\<rparr>]"
    using start_Inr [OF assms(1)] by blast
  note i = start_ingress_Inr [OF s(4)]
  have bound: "\<forall>l \<in> set ls. ho_bind_error ho (ls_addr l) = None"
    using s(5) unfolding s(6) i by (auto simp: bind_all_def split: option.splits if_splits)
  have tls: "serve build_ingress_router m p = (if p = ''/ingress'' \<and> m \<in> {''GET'', ''HEAD''} then Some Ingress_ws else None)" for m p
  proof (cases "serve build_ingress_router m p")
    case None
    with ingress_dispatch [OF assms(2), of m p Ingress_ws] show ?thesis by auto
  next
    case (Some h)
    with ingress_dispatch [OF assms(2), of m p h] show ?thesis by auto
  qed
  have main: "serve main_routes m p = Some target \<longleftrightarrow>
         (p, target) \<in> {(''/healthz'', Healthz), (''/admin/audit'', Admin_audit), (''/admin/ingress/agents'', List_ingress_agents),
             (''/ingress'', Ingress_ws), (''/metrics'', Metrics_page)} \<and> m \<in> {''GET'', ''HEAD''} \<or>
         (p, target) \<in> {(''/v1/chat/completions'', Chat_completions), (''/admin/ingress/tokens'', Create_ingress_token)} \<and>
           m = ''POST''" for m p target
    unfolding axum_dispatch [OF assms(2) routes_distinct(1)] by (rule main_route_iff)
  obtain audit where "build (ho_startup ho) cfg None None audit = Inr app"
    using s(3) by (auto simp: build_app_full_def)
  moreover have "map (\<lambda>l. (ls_tls l, ls_addr l)) ls =
      (if ingress_enabled (cfg_ingress cfg) then [(True, ingress_listen (cfg_ingress cfg))] else []) @
      [(False, srv_host (cfg_server cfg) @ '':'' @ dec_nat (srv_port (cfg_server cfg)))]"
    unfolding s(6) i by simp
  moreover have "ls_routes l = (if ls_tls l then build_ingress_router else main_routes)" if "l \<in> set ls" for l
    using that unfolding s(6) i by (auto split: if_splits)
  ultimately show ?thesis
    using bound s(1,2) by (intro exI [of _ path] exI [of _ cfg] exI [of _ audit]) (simp add: tls main)
qed

text \<open>
  C30: (The mode of the private key) Generated certificates are in place with the key of the new pair; the
  key file is closed to the group and to others when it did not exist before, and keeps the mode it
  had when it did, however open.
\<close>

theorem key_file_mode:
  assumes "ensure_self_signed_certs generate dir sans ux = (Inr (c, k), ux')"
    and "\<exists>p \<in> {c, k, path_join dir ''ca.crt''}. hget (ux_files ux) p = None"
  shows "\<exists>cert key mode. generate sans = Inr (cert, key) \<and> hget (ux_files ux') k = Some (mode, key) \<and>
    (\<exists>m. hget (ux_files ux') c = Some (m, cert)) \<and>
    (case hget (ux_files ux) k of None \<Rightarrow> private_mode mode | Some (old, _) \<Rightarrow> mode = old)"
proof -
  from ensure_certs_Inr [OF assms(1)] assms(2) obtain cert key where g: "generate sans = Inr (cert, key)"
    "\<exists>m. hget (ux_files ux') c = Some (m, cert)"
    "hget (ux_files ux') k = Some (case hget (ux_files ux) k of Some (m, _) \<Rightarrow> m | None \<Rightarrow> key_mode - (key_mode AND ux_umask ux), key)"
    by auto
  then show ?thesis using fresh_key_private by (cases "hget (ux_files ux) k") auto
qed

section \<open>Witnesses\<close>

definition demo_serve :: "routes \<Rightarrow> string \<Rightarrow> string \<Rightarrow> handler option" where
  "demo_serve rs m p =
     (case find (\<lambda>(q, f, h). q = p \<and> admits_method f m) rs of Some (q, f, h) \<Rightarrow> Some h | None \<Rightarrow> None)"

lemma demo_serve_ok: "axum_ok demo_serve"
  unfolding axum_ok_def
proof (intro allI impI)
  fix rs :: routes and m p h
  assume "distinct (map fst rs)"
  then show "demo_serve rs m p = Some h \<longleftrightarrow> (\<exists>f. (p, f, h) \<in> set rs \<and> admits_method f m)"
  proof (induction rs)
    case (Cons r rs)
    obtain q f g where "r = (q, f, g)" by (cases r)
    with Cons show ?case by (cases "q = p") (force simp: demo_serve_def split: option.splits)+
  qed (simp add: demo_serve_def)
qed

definition agent_ingress :: ingress_config where
  "agent_ingress = \<lparr>ingress_enabled = True, ingress_listen = ''0.0.0.0:8443'', ingress_sans = [''localhost'']\<rparr>"

definition demo_host :: host where
  "demo_host = \<lparr>ho_env = (\<lambda>n. if n = ''FWLLM_CONFIG'' then Some ''fwllm.yaml'' else None), ho_read = (\<lambda>p. Inr []),
     ho_yaml = (\<lambda>raw. Inr (YMap [])), ho_value = (\<lambda>v. Inr (demo_config\<lparr>cfg_ingress := agent_ingress\<rparr>)),
     ho_addr_error = (\<lambda>a. None), ho_startup = demo_startup, ho_audit_db = (\<lambda>p. None), ho_audit_faults = [],
     ho_generate = (\<lambda>sans. Inr (''cert'', ''key'')), ho_tls_error = (\<lambda>c k. None), ho_bind_error = (\<lambda>a. None)\<rparr>"

definition demo_unix :: unix where
  "demo_unix = \<lparr>ux_files = [(''./certs/server.key'', (420, ''old''))], ux_umask = 18, ux_fault = (\<lambda>p. None)\<rparr>"

lemma demo_app: "\<exists>app :: nat app_state. build demo_startup (demo_config\<lparr>cfg_ingress := agent_ingress\<rparr>) None None audit = Inr app"
  unfolding startup_iff
proof (intro conjI)
  show "validate_routing (with_chain (demo_config\<lparr>cfg_ingress := agent_ingress\<rparr>))
      (hkeys (cfg_providers (demo_config\<lparr>cfg_ingress := agent_ingress\<rparr>))) = None"
    using demo_routing_valid by (simp add: demo_config_def with_chain_def split: if_splits)
qed (simp_all add: demo_config_def demo_startup_def demo_timeout egress_usable_def egress_transport_def
    server_default_def inspectors_default_def injection_default_def ml_default_def demo_routing_def routing_default_def)

lemma demo_certs:
  "ensure_self_signed_certs (\<lambda>sans. Inr (''cert'', ''key'')) ''./certs'' sans demo_unix =
     (Inr (''./certs/server.crt'', ''./certs/server.key''),
      demo_unix\<lparr>ux_files := hput ''./certs/ca.crt'' (420, ''cert'') (hput ''./certs/server.key'' (420, ''key'')
        (hput ''./certs/server.crt'' (420, ''cert'') (ux_files demo_unix)))\<rparr>)"
  by (simp add: ensure_self_signed_certs_def demo_unix_def path_join_def write_file_def plain_mode_def Let_def)

lemma demo_starts:
  "\<exists>ls app ux'. start demo_host demo_unix = (Inr (ls, app :: nat app_state), ux')"
proof -
  obtain app :: "nat app_state" where app:
    "build demo_startup (demo_config\<lparr>cfg_ingress := agent_ingress\<rparr>) None None
       (case open_audit_log demo_host (cfg_audit demo_config) of Inr lg \<Rightarrow> Some lg | Inl e \<Rightarrow> None) = Inr app"
    using demo_app by blast
  have "load_config demo_host ''fwllm.yaml'' = Inr (demo_config\<lparr>cfg_ingress := agent_ingress\<rparr>)"
    by (simp add: load_config_def demo_host_def load_config_from_str_def demo_config_def agent_ingress_def)
  moreover have "build_app_full (ho_startup demo_host) (open_audit_log demo_host) (demo_config\<lparr>cfg_ingress := agent_ingress\<rparr>) None None = Inr app"
    using app by (simp add: build_app_full_def) (simp add: demo_host_def)
  moreover have "\<exists>ux'. start_ingress demo_host agent_ingress demo_unix = (Inr [\<lparr>ls_addr = ''0.0.0.0:8443'', ls_tls = True, ls_routes = build_ingress_router\<rparr>], ux')"
    by (simp add: start_ingress_def demo_host_def agent_ingress_def demo_certs)
  then obtain ux' where "start_ingress demo_host agent_ingress demo_unix = (Inr [\<lparr>ls_addr = ''0.0.0.0:8443'', ls_tls = True, ls_routes = build_ingress_router\<rparr>], ux')" ..
  moreover have "ho_bind_error demo_host a = None" "ho_env demo_host ''FWLLM_CONFIG'' = Some ''fwllm.yaml''" for a
    by (simp_all add: demo_host_def)
  ultimately show ?thesis by (simp add: start_def bind_all_def Let_def)
qed

theorem agent_port_is_ingress_only_witness:
  "\<exists>ls (app :: nat app_state) ux'. start demo_host demo_unix = (Inr (ls, app), ux') \<and>
     (\<forall>l \<in> set ls. ls_tls l \<longrightarrow> demo_serve (ls_routes l) ''POST'' ''/v1/chat/completions'' = None)"
proof -
  obtain ls ux' and app :: "nat app_state" where s: "start demo_host demo_unix = (Inr (ls, app), ux')"
    using demo_starts by blast
  from agent_port_is_ingress_only [OF s demo_serve_ok] show ?thesis using s by auto
qed

theorem key_file_mode_witness:
  "\<exists>ux'. ensure_self_signed_certs (\<lambda>sans. Inr (''cert'', ''key'')) ''./certs'' [] demo_unix =
       (Inr (''./certs/server.crt'', ''./certs/server.key''), ux') \<and>
     hget (ux_files ux') ''./certs/server.key'' = Some (420, ''key'') \<and> \<not> private_mode 420"
proof -
  let ?ux = "demo_unix\<lparr>ux_files := hput ''./certs/ca.crt'' (420, ''cert'') (hput ''./certs/server.key'' (420, ''key'')
        (hput ''./certs/server.crt'' (420, ''cert'') (ux_files demo_unix)))\<rparr>"
  have "hget (ux_files demo_unix) ''./certs/server.crt'' = None" "hget (ux_files demo_unix) ''./certs/server.key'' = Some (420, ''old'')"
    by (simp_all add: demo_unix_def)
  with key_file_mode [OF demo_certs]
  have "hget (ux_files ?ux) ''./certs/server.key'' = Some (420, ''key'')" by auto
  then show ?thesis using demo_certs [of "[]"] by (intro exI [of _ ?ux]) (simp add: private_mode_def)
qed

end
