(* ===== verification/Agent.thy ===== *)
theory Agent
  imports Tunnel
begin

text \<open>
  \<open>fwllm-agent/src/main.rs\<close>: the agent at the other end of a tunnel.  It reads request frames from
  its socket one by one, masks their headers, forwards each request with its HTTP client and answers
  with a reply frame; when the tunnel ends it connects again after a back-off.  What the HTTP
  library accepts is the record \<open>http_lib\<close>, its client is the function \<open>send\<close> on a world \<open>'w\<close>, JSON text is
  read by \<open>parse\<close>, and each frame comes with the error, if any, of sending the answer to it.  Its
  arguments and TLS set-up are in \<open>Agent_Start\<close>.
\<close>

section \<open>Headers\<close>

text \<open>\<open>hl_name\<close> is the parsed name in lower case, \<open>hl_text\<close> is \<open>to_str\<close> or the empty text.\<close>

record http_lib =
  hl_name :: "string \<Rightarrow> string option"
  hl_value :: "string \<Rightarrow> bool"
  hl_text :: "string \<Rightarrow> string"
  hl_method :: "string \<Rightarrow> bool"

definition agent_masked :: "string list" where
  "agent_masked = [''via'', ''x-forwarded-for'', ''x-forwarded-proto'', ''x-forwarded-host'', ''x-real-ip'',
     ''x-forwarded-port'', ''cf-connecting-ip'', ''cf-ray'', ''server'', ''x-powered-by'']"

definition mask_headers :: "(string, string) hmap \<Rightarrow> (string, string) hmap" where
  "mask_headers headers =
     (let hs = fold hdel agent_masked headers in
      if hget hs ''user-agent'' = None then hput ''user-agent'' ''Firewall-LLM-Agent/0.1'' hs else hs)"

definition frame_headers :: "http_lib \<Rightarrow> json_map \<Rightarrow> (string, string) hmap" where
  "frame_headers lib m =
     fold (\<lambda>(k, v) hm.
       (case hl_name lib k of None \<Rightarrow> hm
        | Some name \<Rightarrow>
            (let val = (case as_str v of Some s \<Rightarrow> s | None \<Rightarrow> []) in
             if hl_value lib val then hput name val hm else hm))) m []"

definition masked_frame :: "http_lib \<Rightarrow> json_map \<Rightarrow> json_map" where
  "masked_frame lib obj =
     (case Option.bind (map_of obj ''headers'') as_object of
        None \<Rightarrow> obj
      | Some m \<Rightarrow> obj_insert ''headers''
          (JObj (obj_of (map (\<lambda>(k, v). (k, JStr (hl_text lib v))) (mask_headers (frame_headers lib m))))) obj)"

section \<open>Forwarding\<close>

record agent_request =
  aq_method :: string
  aq_url :: string
  aq_headers :: "(string \<times> string) list"
  aq_body :: "string option"

record forward_resp =
  fr_status :: nat
  fr_headers :: json
  fr_body :: string

type_synonym 'w send = "agent_request \<Rightarrow> 'w \<Rightarrow> (string + nat \<times> (string \<times> string) list \<times> string) \<times> 'w"

definition str_or :: "string \<Rightarrow> string \<Rightarrow> json_map \<Rightarrow> string" where
  "str_or d k obj = (case Option.bind (map_of obj k) as_str of Some s \<Rightarrow> s | None \<Rightarrow> d)"

definition outgoing :: "string \<Rightarrow> string \<Rightarrow> json_map \<Rightarrow> agent_request" where
  "outgoing meth url frame =
     \<lparr>aq_method = meth, aq_url = url,
      aq_headers = (case Option.bind (map_of frame ''headers'') as_object of None \<Rightarrow> []
        | Some m \<Rightarrow> List.map_filter (\<lambda>(k, v). map_option (Pair k) (as_str v)) m),
      aq_body = (case Option.bind (map_of frame ''body'') as_str of None \<Rightarrow> None
        | Some b \<Rightarrow> if b = [] then None else Some b)\<rparr>"

definition agent_forward ::
  "http_lib \<Rightarrow> 'w send \<Rightarrow> string \<Rightarrow> string \<Rightarrow> json_map \<Rightarrow> 'w \<Rightarrow> forward_resp \<times> 'w" where
  "agent_forward lib send meth url frame w =
     (if url = [] then (\<lparr>fr_status = 502, fr_headers = JObj [], fr_body = ''missing url''\<rparr>, w)
      else if \<not> hl_method lib meth then (\<lparr>fr_status = 400, fr_headers = JObj [], fr_body = ''invalid method''\<rparr>, w)
      else (case send (outgoing meth url frame) w of
          (Inr (status, hs, body), w') \<Rightarrow>
            (\<lparr>fr_status = status, fr_headers = JObj (obj_of (map (\<lambda>(k, v). (k, JStr (hl_text lib v))) hs)),
              fr_body = body\<rparr>, w')
        | (Inl e, w') \<Rightarrow> (\<lparr>fr_status = 502, fr_headers = JObj [], fr_body = e\<rparr>, w')))"

section \<open>Serving one tunnel\<close>

text \<open>The reply to a frame that is an object.\<close>

definition answer_frame :: "http_lib \<Rightarrow> 'w send \<Rightarrow> json_map \<Rightarrow> 'w \<Rightarrow> json \<times> 'w" where
  "answer_frame lib send obj w =
     (let frame = masked_frame lib obj;
          id = (case map_of frame ''id'' of Some v \<Rightarrow> v | None \<Rightarrow> JStr ''0'');
          (resp, w') = agent_forward lib send (str_or ''GET'' ''method'' frame) (str_or [] ''url'' frame) frame w
      in (JObj (obj_of [(''id'', id), (''status'', JPos (fr_status resp)), (''headers'', fr_headers resp),
            (''body'', JStr (fr_body resp))]), w'))"

datatype agent_frame = Ping_frame string | Text_frame string | Other_frame | Broken string

text \<open>
  \<open>serve_once\<close> after the handshake: the socket's frames with the errors of sending an answer; the
  end of the list is the end of the socket.  The outcome, the frames sent, and the world.
\<close>

fun serve_once ::
  "http_lib \<Rightarrow> (string \<Rightarrow> json option) \<Rightarrow> 'w send \<Rightarrow> (agent_frame \<times> string option) list \<Rightarrow> 'w
     \<Rightarrow> string option \<times> frame_out list \<times> 'w" where
  "serve_once lib parse send [] w = (None, [], w)"
| "serve_once lib parse send ((Broken e, fail) # fs) w = (Some e, [], w)"
| "serve_once lib parse send ((Other_frame, fail) # fs) w = serve_once lib parse send fs w"
| "serve_once lib parse send ((Ping_frame d, fail) # fs) w =
     (case fail of Some e \<Rightarrow> (Some e, [], w)
      | None \<Rightarrow> (case serve_once lib parse send fs w of (r, out, w') \<Rightarrow> (r, Pong_out d # out, w')))"
| "serve_once lib parse send ((Text_frame tx, fail) # fs) w =
     (case Option.bind (parse tx) as_object of
        None \<Rightarrow> serve_once lib parse send fs w
      | Some obj \<Rightarrow>
          (case answer_frame lib send obj w of (reply, w1) \<Rightarrow>
            (case fail of Some e \<Rightarrow> (Some e, [], w1)
             | None \<Rightarrow> (case serve_once lib parse send fs w1 of (r, out, w2) \<Rightarrow> (r, Text_out reply # out, w2)))))"

section \<open>Reconnecting\<close>

definition u32_max :: nat where
  "u32_max = 4294967295"

definition checked_shl :: "nat \<Rightarrow> nat \<Rightarrow> nat option" where
  "checked_shl x n = (if n < 64 then Some ((x * 2 ^ n) mod 2 ^ 64) else None)"

definition backoff_delay :: "nat \<Rightarrow> nat" where
  "backoff_delay attempt =
     (let secs = (case checked_shl 1 (min (attempt - 1) 6) of Some s \<Rightarrow> s | None \<Rightarrow> 64) in min secs 60)"

definition next_attempt :: "nat \<Rightarrow> nat" where
  "next_attempt attempt = min (attempt + 1) u32_max"

text \<open>
  The loop of \<open>main\<close> over the outcomes of its sessions (\<open>None\<close> is a tunnel that was closed without
  an error): the delays it sleeps, and its result if it ends.
\<close>

fun reconnect_loop :: "nat option \<Rightarrow> nat \<Rightarrow> string option list \<Rightarrow> nat list \<times> string option option" where
  "reconnect_loop max_retries attempt [] = ([], None)"
| "reconnect_loop max_retries attempt (outcome # rest) =
     (let attempt = next_attempt attempt in
      if (case max_retries of Some m \<Rightarrow> m < attempt | None \<Rightarrow> False) then ([], Some outcome)
      else (case reconnect_loop max_retries attempt rest of (ds, r) \<Rightarrow> (backoff_delay attempt # ds, r)))"

section \<open>Lemmas\<close>

lemma hget_fold_hdel: "hget (fold hdel ks hs) k = (if k \<in> set ks then None else hget hs k)"
  by (induction ks arbitrary: hs) auto

lemma mask_headers_get:
  "hget (mask_headers hs) k =
     (if k \<in> set agent_masked then None
      else if k = ''user-agent'' \<and> hget hs k = None then Some ''Firewall-LLM-Agent/0.1'' else hget hs k)"
proof -
  have "''user-agent'' \<notin> set agent_masked" by (simp add: agent_masked_def)
  then show ?thesis by (auto simp: mask_headers_def hget_fold_hdel Let_def)
qed

lemma mask_headers_ok: "hmap_ok hs \<Longrightarrow> hmap_ok (mask_headers hs)"
proof -
  assume "hmap_ok hs"
  then have "hmap_ok (fold hdel ks hs)" for ks by (induction ks arbitrary: hs) auto
  then show ?thesis by (simp add: mask_headers_def Let_def)
qed

lemma frame_headers_ok: "hmap_ok (frame_headers lib m)"
proof -
  have "hmap_ok hm \<Longrightarrow> hmap_ok (fold (\<lambda>(k, v) hm.
       (case hl_name lib k of None \<Rightarrow> hm
        | Some name \<Rightarrow>
            (let val = (case as_str v of Some s \<Rightarrow> s | None \<Rightarrow> []) in
             if hl_value lib val then hput name val hm else hm))) m hm)" for hm
    by (induction m arbitrary: hm) (auto simp: Let_def split: option.split)
  then show ?thesis by (simp add: frame_headers_def)
qed

lemma set_foldl_obj: "set (foldl (\<lambda>m (k, v). obj_insert k v m) m kvs) \<subseteq> set m \<union> set kvs"
proof (induction kvs arbitrary: m)
  case (Cons kv kvs)
  have "set (obj_insert k v m) \<subseteq> insert (k, v) (set m)" for k v
    by (induction k v m rule: obj_insert.induct) auto
  with Cons [of "obj_insert (fst kv) (snd kv) m"] show ?case by (fastforce simp: split_beta)
qed simp

lemma set_obj_of: "set (obj_of kvs) \<subseteq> set kvs"
  using set_foldl_obj [of "[]" kvs] by (simp add: obj_of_def)

lemma map_of_foldl_obj: "map_of (foldl (\<lambda>m (k, v). obj_insert k v m) m kvs) = map_of m ++ map_of (rev kvs)"
  by (induction kvs arbitrary: m) (auto simp: fun_eq_iff map_add_def split: option.split)

lemma map_of_obj_of: "map_of (obj_of kvs) = map_of (rev kvs)"
  by (simp add: obj_of_def map_of_foldl_obj)

lemma sorted_obj_of: "sorted_wrt (<) (map fst (obj_of kvs))"
proof -
  have "sorted_wrt (<) (map fst m) \<Longrightarrow> sorted_wrt (<) (map fst (foldl (\<lambda>m (k, v). obj_insert k v m) m kvs))" for m
    by (induction kvs arbitrary: m) (auto intro: sorted_obj_insert)
  then show ?thesis by (simp add: obj_of_def)
qed

lemma map_of_distinct_rev: "distinct (map fst kvs) \<Longrightarrow> map_of (rev kvs) = map_of kvs"
proof (induction kvs)
  case (Cons kv kvs)
  then have "map_of kvs (fst kv) = None" by (simp add: map_of_eq_None_iff)
  with Cons show ?case by (cases kv) (auto simp: fun_eq_iff map_add_def split: option.split)
qed simp

text \<open>What the client is given of a frame that was masked.\<close>

lemma outgoing_headers:
  assumes "map_of frame ''headers'' = Some (JObj (obj_of (map (\<lambda>(k, v). (k, JStr (f v))) hs)))" and "hmap_ok hs"
  shows "map_of (aq_headers (outgoing meth url frame)) k = map_option f (hget hs k)"
    and "(k, v) \<in> set (aq_headers (outgoing meth url frame)) \<Longrightarrow> \<exists>v'. hget hs k = Some v' \<and> v = f v'"
proof -
  let ?m = "obj_of (map (\<lambda>(k, v). (k, JStr (f v))) hs)"
  have str: "(k, v) \<in> set ?m \<Longrightarrow> \<exists>s. v = JStr s" for k v
    using set_obj_of [of "map (\<lambda>(k, v). (k, JStr (f v))) hs"] by auto
  have "List.map_filter (\<lambda>(k, v). map_option (Pair k) (as_str v)) xs = map (\<lambda>(k, v). (k, the (as_str v))) xs"
    if "\<And>k v. (k, v) \<in> set xs \<Longrightarrow> \<exists>s. v = JStr s" for xs
    using that by (induction xs) (fastforce simp: List.map_filter_simps)+
  from this [of ?m] str have aq: "aq_headers (outgoing meth url frame) = map (\<lambda>(k, v). (k, the (as_str v))) ?m"
    by (simp add: outgoing_def assms(1))
  have "distinct (map fst (map (\<lambda>(k, v). (k, JStr (f v))) hs))"
    using assms(2) by (simp add: hmap_ok_def comp_def split_beta)
  then have m: "map_of ?m k = map_option (JStr o f) (hget hs k)" for k
    by (simp add: map_of_obj_of map_of_distinct_rev) (simp add: map_of_map comp_def)
  show "map_of (aq_headers (outgoing meth url frame)) k = map_option f (hget hs k)"
    unfolding aq by (simp add: map_of_map m option.map_comp comp_def)
  have sorted: "distinct (map fst ?m)"
    using sorted_obj_of [of "map (\<lambda>(k, v). (k, JStr (f v))) hs"] by (simp add: strict_sorted_iff)
  assume "(k, v) \<in> set (aq_headers (outgoing meth url frame))"
  then obtain b where b: "(k, b) \<in> set ?m" "v = the (as_str b)" by (auto simp: aq)
  from map_of_is_SomeI [OF sorted b(1)] m [of k] obtain z where "hget hs k = Some z" "b = JStr (f z)" by auto
  with b(2) show "\<exists>v'. hget hs k = Some v' \<and> v = f v'" by simp
qed

lemma request_frame_fields:
  "request_frame req = JObj (obj_of
     [(''id'', JStr (pr_id req)), (''method'', JStr (pr_method req)), (''url'', JStr (pr_url req)),
      (''headers'', JObj (obj_of (map (\<lambda>(k, v). (k, JStr v)) (pr_headers req)))),
      (''body'', case pr_body req of Some b \<Rightarrow> JStr b | None \<Rightarrow> JNull)])"
  by (simp only: request_frame_def)

definition frame_of :: "proxy_request \<Rightarrow> json_map" where
  "frame_of req = obj_of
     [(''id'', JStr (pr_id req)), (''method'', JStr (pr_method req)), (''url'', JStr (pr_url req)),
      (''headers'', JObj (obj_of (map (\<lambda>(k, v). (k, JStr v)) (pr_headers req)))),
      (''body'', case pr_body req of Some b \<Rightarrow> JStr b | None \<Rightarrow> JNull)]"

lemma frame_of_get:
  "map_of (frame_of req) ''id'' = Some (JStr (pr_id req))"
  "map_of (frame_of req) ''method'' = Some (JStr (pr_method req))"
  "map_of (frame_of req) ''url'' = Some (JStr (pr_url req))"
  "map_of (frame_of req) ''headers'' = Some (JObj (obj_of (map (\<lambda>(k, v). (k, JStr v)) (pr_headers req))))"
  "map_of (frame_of req) ''body'' = Some (case pr_body req of Some b \<Rightarrow> JStr b | None \<Rightarrow> JNull)"
  unfolding frame_of_def map_of_obj_of by simp_all

lemma masked_frame_get:
  assumes "map_of obj ''headers'' = Some (JObj m)"
  shows "map_of (masked_frame lib obj) ''headers'' = Some (JObj (obj_of
      (map (\<lambda>(k, v). (k, JStr (hl_text lib v))) (mask_headers (frame_headers lib m)))))"
    and "k \<noteq> ''headers'' \<Longrightarrow> map_of (masked_frame lib obj) k = map_of obj k"
  unfolding masked_frame_def assms by simp_all

text \<open>The request that the agent sends for a frame of the gateway.\<close>

definition agent_sends :: "http_lib \<Rightarrow> proxy_request \<Rightarrow> agent_request" where
  "agent_sends lib req = outgoing (pr_method req) (pr_url req) (masked_frame lib (frame_of req))"

lemma agent_sends_fields:
  "aq_method (agent_sends lib req) = pr_method req" "aq_url (agent_sends lib req) = pr_url req"
  "aq_body (agent_sends lib req) = (if pr_body req = Some [] then None else pr_body req)"
  by (auto simp: agent_sends_def outgoing_def masked_frame_get(2) [OF frame_of_get(4)] frame_of_get split: option.split)

lemma agent_sends_masked:
  "(k, v) \<in> set (aq_headers (agent_sends lib req)) \<Longrightarrow> k \<notin> set agent_masked"
  using outgoing_headers(2) [OF masked_frame_get(1) [OF frame_of_get(4)] mask_headers_ok [OF frame_headers_ok]]
  unfolding agent_sends_def by (fastforce simp: mask_headers_get split: if_splits)

lemma agent_sends_user_agent: "\<exists>v. map_of (aq_headers (agent_sends lib req)) ''user-agent'' = Some v"
  unfolding agent_sends_def
  by (subst outgoing_headers(1) [OF masked_frame_get(1) [OF frame_of_get(4)] mask_headers_ok [OF frame_headers_ok]])
    (auto simp: mask_headers_get agent_masked_def)

lemma answer_frame_request:
  assumes "pr_url req \<noteq> []" and "hl_method lib (pr_method req)"
    and "send (agent_sends lib req) w = (Inr (status, hs, body), w')"
  shows "answer_frame lib send (frame_of req) w =
    (JObj (obj_of [(''id'', JStr (pr_id req)), (''status'', JPos status),
       (''headers'', JObj (obj_of (map (\<lambda>(k, v). (k, JStr (hl_text lib v))) hs))), (''body'', JStr body)]), w')"
  using assms
  by (simp add: answer_frame_def Let_def str_or_def masked_frame_get(2) [OF frame_of_get(4)] frame_of_get
      agent_forward_def agent_sends_def [symmetric] del: obj_insert.simps)

lemma reply_of_answer:
  assumes "status < 65536"
  shows "reply_of (JObj (obj_of [(''id'', i), (''status'', JPos status), (''headers'', JObj m), (''body'', JStr body)])) =
    \<lparr>ps_status = status, ps_headers = map (\<lambda>(k, v). (k, case as_str v of Some s \<Rightarrow> s | None \<Rightarrow> [])) m, ps_body = body\<rparr>"
  using assms by (simp add: reply_of_def map_of_obj_of)

section \<open>Properties\<close>

text \<open>
  (Back-off) The delay before a reconnection doubles from one second and is capped at sixty; it
  is never less than a second, never more than a minute, and never shrinks.
\<close>

theorem backoff_bounds:
  "backoff_delay attempt = (if attempt = 0 then 1 else min 60 (2 ^ (attempt - 1))) \<and>
   1 \<le> backoff_delay attempt \<and> backoff_delay attempt \<le> 60 \<and>
   backoff_delay attempt \<le> backoff_delay (attempt + 1)"
proof -
  have cap: "backoff_delay n = min 60 (2 ^ (n - 1))" for n
  proof (cases "n - 1 < 6")
    case True
    then have "n - 1 \<in> {0, 1, 2, 3, 4, 5}" by auto
    then show ?thesis by (auto simp: backoff_delay_def checked_shl_def)
  next
    case False
    then have "(2 :: nat) ^ 6 \<le> 2 ^ (n - 1)" by (intro power_increasing) simp_all
    with False show ?thesis by (simp add: backoff_delay_def checked_shl_def min_def)
  qed
  have "(2 :: nat) ^ (attempt - 1) \<le> 2 ^ attempt" by (intro power_increasing) simp_all
  from min.mono [OF order_refl [of 60] this] show ?thesis unfolding cap by simp
qed

lemma reconnect_unlimited:
  "snd (reconnect_loop None a outcomes) = None"
  by (induction outcomes arbitrary: a) (simp_all add: Let_def split_beta)

lemma reconnect_delays:
  assumes "a + length outcomes \<le> m" and "m < u32_max"
  shows "reconnect_loop (Some m) a (outcomes @ rest) =
    (map backoff_delay [a + 1..<a + length outcomes + 1] @ fst (reconnect_loop (Some m) (a + length outcomes) rest),
     snd (reconnect_loop (Some m) (a + length outcomes) rest))"
  using assms
proof (induction outcomes arbitrary: a)
  case (Cons x outcomes)
  then have "next_attempt a = a + 1" by (simp add: next_attempt_def)
  moreover have "[a + 1..<a + length (x # outcomes) + 1] = (a + 1) # [a + 2..<a + length (x # outcomes) + 1]"
    by (simp add: upt_conv_Cons del: upt_Suc)
  ultimately show ?case
    using Cons.IH [of "a + 1"] Cons.prems by (simp add: Let_def split_beta del: upt_Suc)
qed simp

lemma reconnect_limit:
  assumes "m < u32_max" and "m < length outcomes"
  shows "reconnect_loop (Some m) 0 outcomes = (map backoff_delay [1..<m + 1], Some (outcomes ! m))"
proof -
  have "outcomes = take m outcomes @ outcomes ! m # drop (Suc m) outcomes"
    using assms(2) by (rule id_take_nth_drop)
  moreover have "length (take m outcomes) = m" using assms(2) by simp
  moreover have "next_attempt m = m + 1" using assms(1) by (simp add: next_attempt_def)
  ultimately show ?thesis
    using reconnect_delays [of 0 "take m outcomes" m "outcomes ! m # drop (Suc m) outcomes"] assms(1)
    by (simp add: Let_def)
qed

text \<open>
  (Retries) With a limit of \<open>m\<close> retries the agent runs exactly \<open>m + 1\<close> sessions and ends with the
  outcome of the last one; without a limit it never ends.  The sessions are counted whatever their
  outcome, and the count is never reset: a tunnel that served for days and was closed in good
  order uses up a retry, and after the sixth reconnection every further one waits a minute.
\<close>

theorem retries_counted:
  assumes "m < u32_max" and "m < length outcomes"
  shows "reconnect_loop (Some m) 0 outcomes = (map backoff_delay [1..<m + 1], Some (outcomes ! m)) \<and>
    snd (reconnect_loop None 0 outcomes) = None \<and>
    (\<forall>k \<in> {7..m}. fst (reconnect_loop (Some m) 0 outcomes) ! (k - 1) = 60)"
proof -
  have "backoff_delay k = 60" if "7 \<le> k" for k
  proof -
    have "min (k - 1) 6 = 6" using that by simp
    then show ?thesis by (simp add: backoff_delay_def checked_shl_def)
  qed
  then show ?thesis by (auto simp: reconnect_limit [OF assms] reconnect_unlimited simp del: upt_Suc)
qed

theorem retries_counted_witness:
  "reconnect_loop (Some 2) 0 [None, None, Some ''refused'', None] = ([1, 2], Some (Some ''refused''))"
proof -
  have "[1..<2 + 1] = [1, 2 :: nat]" by (simp add: upt_rec)
  then show ?thesis
    using retries_counted [of 2 "[None, None, Some ''refused'', None]"]
    by (simp add: u32_max_def backoff_delay_def checked_shl_def)
qed

text \<open>
  C21: (A request and its reply through the tunnel) The agent forwards a request frame of the gateway with
  the same method, URL and body, without a masked header and with a user agent; and when its client
  answers, it sends exactly one text, which names the request and from which the gateway reads
  the status, the headers and the body of that answer.
\<close>

theorem tunnel_round_trip:
  assumes "pr_url req \<noteq> []" and "hl_method lib (pr_method req)"
    and "send (agent_sends lib req) w = (Inr (status, hs, body), w')" and "status < 65536"
    and "parse tx = Some (request_frame req)"
  shows "aq_method (agent_sends lib req) = pr_method req \<and> aq_url (agent_sends lib req) = pr_url req \<and>
    aq_body (agent_sends lib req) = (if pr_body req = Some [] then None else pr_body req) \<and>
    list_all (\<lambda>(k, v). k \<notin> set agent_masked) (aq_headers (agent_sends lib req)) \<and>
    (\<exists>v. map_of (aq_headers (agent_sends lib req)) ''user-agent'' = Some v) \<and>
    (\<exists>reply. serve_once lib parse send [(Text_frame tx, None)] w = (None, [Text_out reply], w') \<and>
       jget ''id'' reply = Some (JStr (pr_id req)) \<and>
       ps_status (reply_of reply) = status \<and> ps_body (reply_of reply) = body \<and>
       map_of (ps_headers (reply_of reply)) = map_option (hl_text lib) \<circ> map_of (rev hs))"
proof -
  let ?m = "obj_of (map (\<lambda>(k, v). (k, JStr (hl_text lib v))) hs)"
  define reply where "reply = JObj (obj_of [(''id'', JStr (pr_id req)), (''status'', JPos status),
       (''headers'', JObj ?m), (''body'', JStr body)])"
  have "request_frame req = JObj (frame_of req)" by (simp only: request_frame_def frame_of_def)
  then have "serve_once lib parse send [(Text_frame tx, None)] w = (None, [Text_out reply], w')"
    using answer_frame_request [of req lib send w status hs body w', OF assms(1-3)] assms(5)
    by (simp add: reply_def del: obj_insert.simps)
  moreover have "jget ''id'' reply = Some (JStr (pr_id req))" by (simp add: reply_def map_of_obj_of)
  moreover have "map_of (map (\<lambda>(k, v). (k, case as_str v of Some s \<Rightarrow> s | None \<Rightarrow> [])) ?m) k =
      map_option (hl_text lib) (map_of (rev hs) k)" for k
    by (simp add: map_of_map map_of_obj_of rev_map option.map_comp comp_def)
  ultimately show ?thesis
    using agent_sends_fields [of lib req] agent_sends_masked [of _ _ lib req] agent_sends_user_agent [of lib req]
    by (intro conjI exI [of _ reply]) (auto simp: reply_def reply_of_answer [OF assms(4)] list_all_iff fun_eq_iff)
qed

text \<open>A client that always answers 200, whose world counts the requests.\<close>

definition demo_lib :: http_lib where
  "demo_lib = \<lparr>hl_name = (\<lambda>n. if n = [] then None else Some (to_ascii_lowercase n)), hl_value = (\<lambda>v. True),
     hl_text = (\<lambda>v. v), hl_method = (\<lambda>m. m \<noteq> [])\<rparr>"

definition demo_send :: "nat send" where
  "demo_send r n = (Inr (200, [(''content-type'', ''text/plain'')], aq_url r), n + 1)"

theorem tunnel_round_trip_witness:
  "\<exists>reply. serve_once demo_lib (\<lambda>_. Some (request_frame demo_request)) demo_send [(Text_frame ''{}'', None)] 0 =
     (None, [Text_out reply], 1) \<and> ps_status (reply_of reply) = 200 \<and> ps_body (reply_of reply) = pr_url demo_request"
proof -
  have "demo_send (agent_sends demo_lib demo_request) 0 =
      (Inr (200, [(''content-type'', ''text/plain'')], pr_url demo_request), 1)"
    by (simp add: demo_send_def agent_sends_fields)
  moreover have "pr_url demo_request \<noteq> []" "hl_method demo_lib (pr_method demo_request)"
    by (simp_all add: demo_request_def demo_lib_def)
  ultimately show ?thesis
    using tunnel_round_trip [of demo_request demo_lib demo_send 0 200 "[(''content-type'', ''text/plain'')]"
        "pr_url demo_request" 1 "\<lambda>_. Some (request_frame demo_request)" "''{}''"]
    by (auto simp del: serve_once.simps)
qed

end
