(* ===== verification/Agent_Start.thy ===== *)
theory Agent_Start
  imports Agent
begin

text \<open>
  The start of the agent in \<open>fwllm-agent/src/main.rs\<close>: its arguments, the two TLS set-ups (the HTTP client for
  the upstream and the connector for the gateway), the handshake request, and \<open>main\<close> around the
  reconnect loop.  The certificate and TLS libraries are the record \<open>tls_lib\<close>, over certificates \<open>'c\<close> and
  presented chains \<open>'h\<close>.
\<close>

record args =
  ag_gateway_url :: string
  ag_token :: string
  ag_ca_cert :: "string option"
  ag_insecure :: bool
  ag_max_retries :: "nat option"

record ('c, 'h) tls_lib =
  tl_read :: "string \<Rightarrow> string + string"
  tl_from_pem :: "string \<Rightarrow> string + 'c list"
  tl_pem_certs :: "string \<Rightarrow> (string + 'c) list"
  tl_add_error :: "'c \<Rightarrow> string option"
  tl_webpki :: "'c list"
  tl_client_roots :: "'c list"
  tl_client_error :: "bool \<Rightarrow> 'c list \<Rightarrow> string option"
  tl_default_roots :: "'c list"
  tl_validates :: "'c list \<Rightarrow> 'h \<Rightarrow> bool"
  tl_upgrade :: "string \<Rightarrow> string + (string, string) hmap"
  tl_header_error :: "string \<Rightarrow> string option"

section \<open>The HTTP client for the upstream\<close>

record 'c http_client =
  hc_timeout_secs :: nat
  hc_accept_invalid :: bool
  hc_added_roots :: "'c list"

definition build_http_client :: "('c, 'h) tls_lib \<Rightarrow> args \<Rightarrow> string + 'c http_client" where
  "build_http_client lib a =
     (case (if ag_insecure a then Inr (True, [])
            else case ag_ca_cert a of
                None \<Rightarrow> Inr (False, [])
              | Some path \<Rightarrow>
                  (case tl_read lib path of Inl e \<Rightarrow> Inl e
                   | Inr pem \<Rightarrow> (case tl_from_pem lib pem of Inl e \<Rightarrow> Inl e | Inr cs \<Rightarrow> Inr (False, cs)))) of
        Inl e \<Rightarrow> Inl e
      | Inr (invalid, roots) \<Rightarrow>
          (case tl_client_error lib invalid roots of Some e \<Rightarrow> Inl e
           | None \<Rightarrow> Inr \<lparr>hc_timeout_secs = 120, hc_accept_invalid = invalid, hc_added_roots = roots\<rparr>))"

section \<open>The connector for the gateway\<close>

text \<open>\<open>No_verification\<close> is \<open>NoCertificateVerification\<close>, whose every method answers with an assertion.\<close>

datatype 'c verifier = No_verification | Root_store "'c list"

fun add_roots :: "('c, 'h) tls_lib \<Rightarrow> (string + 'c) list \<Rightarrow> 'c list \<Rightarrow> string + 'c list" where
  "add_roots lib [] roots = Inr roots"
| "add_roots lib (Inl e # certs) roots = Inl e"
| "add_roots lib (Inr c # certs) roots =
     (case tl_add_error lib c of Some e \<Rightarrow> Inl e | None \<Rightarrow> add_roots lib certs (roots @ [c]))"

definition ws_config :: "('c, 'h) tls_lib \<Rightarrow> args \<Rightarrow> string + 'c verifier option" where
  "ws_config lib a =
     (if ag_insecure a then Inr (Some No_verification)
      else case ag_ca_cert a of
          None \<Rightarrow> Inr None
        | Some path \<Rightarrow>
            (case tl_read lib path of Inl e \<Rightarrow> Inl e
             | Inr pem \<Rightarrow>
                 (case add_roots lib (tl_pem_certs lib pem) [] of Inl e \<Rightarrow> Inl e
                  | Inr roots \<Rightarrow> Inr (Some (Root_store (roots @ tl_webpki lib))))))"

text \<open>Whether the agent goes on with a peer that presents a chain.\<close>

definition verify_server_cert :: "('c, 'h) tls_lib \<Rightarrow> 'c verifier option \<Rightarrow> 'h \<Rightarrow> bool" where
  "verify_server_cert lib v chain =
     (case v of Some No_verification \<Rightarrow> True
      | Some (Root_store roots) \<Rightarrow> tl_validates lib roots chain
      | None \<Rightarrow> tl_validates lib (tl_default_roots lib) chain)"

definition upstream_accepted :: "('c, 'h) tls_lib \<Rightarrow> 'c http_client \<Rightarrow> 'h \<Rightarrow> bool" where
  "upstream_accepted lib hc chain =
     (hc_accept_invalid hc \<or> tl_validates lib (tl_client_roots lib @ hc_added_roots hc) chain)"

section \<open>The handshake and \<open>main\<close>\<close>

definition handshake_request :: "('c, 'h) tls_lib \<Rightarrow> string \<Rightarrow> string \<Rightarrow> string + (string, string) hmap" where
  "handshake_request lib url token =
     (case tl_upgrade lib url of Inl e \<Rightarrow> Inl e
      | Inr headers \<Rightarrow>
          (let v = ''Bearer '' @ token in
           case tl_header_error lib v of Some e \<Rightarrow> Inl e | None \<Rightarrow> Inr (hput ''authorization'' v headers)))"

text \<open>\<open>Ended\<close> is an error before the first session; the loop works on the outcomes of the sessions.\<close>

datatype agent_run = Ended string | Looped "nat list" "string option option"

definition agent_main :: "('c, 'h) tls_lib \<Rightarrow> args \<Rightarrow> string option list \<Rightarrow> agent_run" where
  "agent_main lib a outcomes =
     (case build_http_client lib a of Inl e \<Rightarrow> Ended e | Inr hc \<Rightarrow>
     (case ws_config lib a of Inl e \<Rightarrow> Ended e | Inr connector \<Rightarrow>
     (case handshake_request lib (ag_gateway_url a) (ag_token a) of Inl e \<Rightarrow> Ended e | Inr request \<Rightarrow>
     (case reconnect_loop (ag_max_retries a) 0 outcomes of (delays, result) \<Rightarrow> Looped delays result))))"

section \<open>Lemmas\<close>

lemma add_roots_Inr:
  "add_roots lib certs roots = Inr roots' \<longleftrightarrow>
     (\<exists>cs. certs = map Inr cs \<and> (\<forall>c \<in> set cs. tl_add_error lib c = None) \<and> roots' = roots @ cs)"
proof (induction lib certs roots rule: add_roots.induct)
  case (3 lib c certs roots)
  show ?case
  proof (cases "tl_add_error lib c")
    case None
    with 3 show ?thesis by (auto simp: Cons_eq_map_conv)
  next
    case (Some e)
    then show ?thesis by (auto simp: Cons_eq_map_conv)
  qed
qed auto

lemma Looped_iff:
  "agent_main lib a outcomes = Looped delays result \<longleftrightarrow>
     (\<exists>hc connector request. build_http_client lib a = Inr hc \<and> ws_config lib a = Inr connector \<and>
        handshake_request lib (ag_gateway_url a) (ag_token a) = Inr request) \<and>
     reconnect_loop (ag_max_retries a) 0 outcomes = (delays, result)"
  by (auto simp: agent_main_def split: sum.split prod.split)

lemma handshake_request_Inr:
  "handshake_request lib url token = Inr request \<longleftrightarrow>
     (\<exists>headers. tl_upgrade lib url = Inr headers \<and> tl_header_error lib (''Bearer '' @ token) = None \<and>
        request = hput ''authorization'' (''Bearer '' @ token) headers)"
  by (auto simp: handshake_request_def Let_def split: sum.split option.split)

text \<open>With a CA file that is used, every certificate of it is a root for the gateway.\<close>

lemma ws_config_ca:
  assumes "\<not> ag_insecure a" and "ag_ca_cert a = Some path" and "ws_config lib a = Inr v"
  shows "\<exists>pem cs. tl_read lib path = Inr pem \<and> tl_pem_certs lib pem = map Inr cs \<and> v = Some (Root_store (cs @ tl_webpki lib))"
  using assms by (auto simp: ws_config_def add_roots_Inr split: sum.splits)

lemma build_http_client_Inr:
  "build_http_client lib a = Inr hc \<Longrightarrow> hc_timeout_secs hc = 120 \<and> hc_accept_invalid hc = ag_insecure a"
  by (auto simp: build_http_client_def split: if_splits option.splits sum.splits)

section \<open>Properties\<close>

text \<open>
  (Whom the agent trusts) An agent that runs sessions without \<open>--insecure\<close> goes on with a gateway or an
  upstream only when the chain it presents validates against a root store: for the gateway the
  default one, or with a CA file exactly the certificates of the file and the built-in roots.  With
  \<open>--insecure\<close> it goes on with everyone, on both links, and the CA file is not even read.
\<close>

theorem agent_trust:
  assumes "agent_main lib a outcomes = Looped delays result"
  shows "\<exists>hc v request. build_http_client lib a = Inr hc \<and> ws_config lib a = Inr v \<and>
    handshake_request lib (ag_gateway_url a) (ag_token a) = Inr request \<and>
    hget request ''authorization'' = Some (''Bearer '' @ ag_token a) \<and>
    (if ag_insecure a
     then (\<forall>chain. verify_server_cert lib v chain \<and> upstream_accepted lib hc chain) \<and>
       agent_main (lib\<lparr>tl_read := (\<lambda>p. Inl ''unreadable'')\<rparr>) a outcomes = Looped delays result
     else (ag_ca_cert a = None \<longrightarrow> (\<forall>chain. verify_server_cert lib v chain = tl_validates lib (tl_default_roots lib) chain)) \<and>
       (\<forall>chain. upstream_accepted lib hc chain \<longrightarrow> tl_validates lib (tl_client_roots lib @ hc_added_roots hc) chain) \<and>
       (\<forall>path. ag_ca_cert a = Some path \<longrightarrow>
          (\<exists>pem cs. tl_read lib path = Inr pem \<and> tl_pem_certs lib pem = map Inr cs \<and>
             (\<forall>chain. verify_server_cert lib v chain = tl_validates lib (cs @ tl_webpki lib) chain))))"
proof -
  obtain hc v request where r: "build_http_client lib a = Inr hc" "ws_config lib a = Inr v"
    "handshake_request lib (ag_gateway_url a) (ag_token a) = Inr request"
    and loop: "reconnect_loop (ag_max_retries a) 0 outcomes = (delays, result)"
    using assms unfolding Looped_iff by blast
  have auth: "hget request ''authorization'' = Some (''Bearer '' @ ag_token a)"
    using r(3) by (auto simp: handshake_request_Inr)
  show ?thesis
  proof (cases "ag_insecure a")
    case True
    have "build_http_client (lib\<lparr>tl_read := (\<lambda>p. Inl ''unreadable'')\<rparr>) a = build_http_client lib a"
      "ws_config (lib\<lparr>tl_read := (\<lambda>p. Inl ''unreadable'')\<rparr>) a = ws_config lib a"
      "handshake_request (lib\<lparr>tl_read := (\<lambda>p. Inl ''unreadable'')\<rparr>) u t = handshake_request lib u t" for u t
      using True by (simp_all add: build_http_client_def ws_config_def handshake_request_def split: sum.split)
    then have "agent_main (lib\<lparr>tl_read := (\<lambda>p. Inl ''unreadable'')\<rparr>) a outcomes = Looped delays result"
      using r loop by (simp add: agent_main_def)
    moreover have "verify_server_cert lib v chain \<and> upstream_accepted lib hc chain" for chain
      using True r(2) build_http_client_Inr [OF r(1)] by (auto simp: ws_config_def verify_server_cert_def upstream_accepted_def)
    ultimately show ?thesis using True r auth by auto
  next
    case False
    then have "ag_ca_cert a = None \<Longrightarrow> verify_server_cert lib v chain = tl_validates lib (tl_default_roots lib) chain" for chain
      using r(2) by (auto simp: ws_config_def verify_server_cert_def)
    moreover have "upstream_accepted lib hc chain \<Longrightarrow> tl_validates lib (tl_client_roots lib @ hc_added_roots hc) chain" for chain
      using False build_http_client_Inr [OF r(1)] by (simp add: upstream_accepted_def)
    moreover have "\<exists>pem cs. tl_read lib path = Inr pem \<and> tl_pem_certs lib pem = map Inr cs \<and>
        (\<forall>chain. verify_server_cert lib v chain = tl_validates lib (cs @ tl_webpki lib) chain)"
      if "ag_ca_cert a = Some path" for path
      using ws_config_ca [OF False that r(2)] by (auto simp: verify_server_cert_def)
    ultimately show ?thesis using False r auth by auto
  qed
qed

definition demo_tls :: "(string, string) tls_lib" where
  "demo_tls = \<lparr>tl_read = (\<lambda>p. Inr ''pem''), tl_from_pem = (\<lambda>pem. Inr [''ca'']), tl_pem_certs = (\<lambda>pem. [Inr ''ca'']),
     tl_add_error = (\<lambda>c. None), tl_webpki = [''webpki''], tl_client_roots = [''system''], tl_client_error = (\<lambda>i rs. None),
     tl_default_roots = [''system''], tl_validates = (\<lambda>roots chain. chain \<in> set roots),
     tl_upgrade = (\<lambda>url. Inr [(''upgrade'', ''websocket'')]), tl_header_error = (\<lambda>v. None)\<rparr>"

definition demo_args :: args where
  "demo_args = \<lparr>ag_gateway_url = ''wss://gw/ingress'', ag_token = ''t'', ag_ca_cert = Some ''ca.crt'', ag_insecure = False,
     ag_max_retries = Some 0\<rparr>"

theorem agent_trust_witness:
  "\<exists>v. ws_config demo_tls demo_args = Inr v \<and> verify_server_cert demo_tls v ''ca'' \<and> \<not> verify_server_cert demo_tls v ''system''"
proof -
  have "agent_main demo_tls demo_args [None] = Looped [] (Some None)"
    by (simp add: agent_main_def build_http_client_def ws_config_def handshake_request_def demo_tls_def demo_args_def
        next_attempt_def u32_max_def)
  from agent_trust [OF this] show ?thesis
    by (auto simp: demo_args_def demo_tls_def)
qed

end
