(* ===== verification/Spec2Isabelle.thy ===== *)
theory Spec2Isabelle
  imports Redis_Store Classified_Chat Metrics Entry Agent_Start
begin

text \<open>
  Firewall LLM, the Rust workspace under \<open>src/rust\<close>: a gateway between clients of the OpenAI chat interface and
  providers, and the agent that serves a provider behind a NAT through a tunnel.

  How the parts interact.  A chat request is authenticated, routed by the policy engine, validated,
  turned into a payload, inspected (injection signatures and classifier, then masking of personal
  data), admitted by the metering store, and sent to a provider, directly or through the tunnel of an agent.
  The answer is restored (masked values come back), metered, counted, and audited; a stream does the
  same chunk by chunk, with one settlement and one audit row whatever ends it.  An attack that
  the inspectors publish reaches the policy engine, which may close the gateway to its source.

  Theories, in the order of their imports, and the files they model.

  \<^item> \<open>Fw_Prelude\<close>: 64-bit integers, UTF-8 strings as bytes, association lists for maps, decimal and hexadecimal text; the shared lemmas and simplification rules.
  \<^item> \<open>F64\<close>, \<open>Json\<close>, \<open>Calendar\<close>: binary64 with its rounding; \<open>serde_json::Value\<close>; \<open>day_string\<close> (\<open>metering.rs\<close>, \<open>router.rs\<close>) and \<open>iso_now\<close> (\<open>audit.rs\<close>).
  \<^item> \<open>Config\<close>: \<open>fwllm-core/src/config.rs\<close>, its records, defaults, environment overrides, thresholds.
  \<^item> \<open>Router\<close>: \<open>router.rs\<close>, the policy engine (\<open>resolve\<close>, \<open>on_attack_detected\<close>, \<open>validate_routing\<close>).
  \<^item> \<open>Metering_Store\<close>, \<open>Metering\<close>, \<open>Metering_Ledger\<close>, \<open>Redis_Store\<close>: \<open>metering.rs\<close>.  The trait \<open>MeteringStore\<close> is the record \<open>store_ops\<close>, instantiated by \<open>in_memory\<close> and by \<open>redis_store\<close> with its two Lua scripts; the ledger is the abstract specification (a list of open budgets) that admissions and settlements refine.
  \<^item> \<open>Token_Text\<close>, \<open>Dlp\<close>, \<open>Dlp_Stream\<close>: \<open>inspectors/dlp.rs\<close>, the tokens \<open>[TYPE_id]\<close>, \<open>sanitize\<close>, \<open>deanonymize\<close>, and the streaming restore with its held-back tail.
  \<^item> \<open>Injection\<close>, \<open>Classifier\<close>, \<open>Classified_Chat\<close>: \<open>inspectors/injection.rs\<close>; \<open>inspectors/ml.rs\<close> with its \<open>f32\<close> softmax; the loaded classifier inside the gateway.
  \<^item> \<open>Chain\<close>: \<open>inspectors/chain.rs\<close>.
  \<^item> \<open>Api\<close>, \<open>Audit_Log\<close>, \<open>Audit_Store\<close>: \<open>error.rs\<close> and the token guards of \<open>lib.rs\<close>; \<open>audit.rs\<close> as a list of records with its endpoint, and below it the table, its migration, and the workers that share the file.
  \<^item> \<open>Ingress\<close>, \<open>Tunnel\<close>: \<open>ingress.rs\<close> and the socket handler of \<open>lib.rs\<close>; the interleavings of calls, frames and disconnects of any number of agents are a step relation with its invariant.
  \<^item> \<open>Chat_Request\<close>, \<open>Gateway\<close>: the handler \<open>chat_completions\<close> of \<open>lib.rs\<close>, split where it waits for the provider into \<open>chat_begin\<close> and \<open>chat_finish\<close>.
  \<^item> \<open>Metrics\<close>: \<open>metrics.rs\<close>.
  \<^item> \<open>Streaming\<close>, \<open>Gateway_Traffic\<close>: \<open>stream_response\<close> and \<open>StreamAccountant\<close> as a machine that is polled, dropped and followed by its drop task; any interleaving of requests, streams and attacks.
  \<^item> \<open>Providers\<close>, \<open>App_State\<close>, \<open>Entry\<close>: \<open>providers.rs\<close>; \<open>state.rs\<close>; \<open>main.rs\<close> with the routers of \<open>lib.rs\<close>.
  \<^item> \<open>Agent\<close>, \<open>Agent_Start\<close>: \<open>fwllm-agent/src/main.rs\<close>.

  What the lemmas show.

  \<^item> Requests: no provider call without every gate, which refusals are audited, one row and one pair of usage numbers for each answer, in the row, the store, the router and the metrics.
  \<^item> Metering: the in-memory store charges exactly what it admits; the gateway refines the ledger, which bounds every quota; the Redis scripts give the in-memory answers, reasons of denials included, on exact numbers; where the code departs from its comments (wrap-around of the reserve, midnight, late settlements) the departure is a theorem.
  \<^item> Masking: \<open>sanitize\<close> is the left-to-right replacement of the accepted spans, restoring is its inverse, and restoring a stream is restoring its text, however it is cut.
  \<^item> Streams and tunnels: invariants by rule induction over every interleaving, exactly-once accounting, answers that reach their own call, and bounds after which a stream has ended.
  \<^item> Classifier: exactly when a prediction panics, and that such a request ends without an answer or a row.
  \<^item> Audit file: it stays well typed under any interleaving of workers; a search of the table is a search of the records.
  \<^item> Start-up: exactly which configurations start, what a started gateway listens on and serves, which certificate a started agent trusts.

  How state and effects are modelled.  Each handler is a function from its inputs and the state to
  its answer and the new state; a point where the code awaits something that others can see between
  is a boundary between two steps.  Errors are \<open>Inl\<close>, panics are \<open>None\<close>, an \<open>Inl\<close> of their own, or, where they
  end a chat request, the outcome \<open>Crashed\<close> with the state the request left, as each theory says.  Integers have the width of the code: \<open>i64\<close> sums wrap as in a release build.
  Random words, clock readings and the answers of the outside are arguments.

  Bounds and fuel.  No operation runs on fuel except \<open>trim\<close> and the search for a fresh token: the first
  gets the length of its text, more than it can use; the second gets the list of random draws, and
  \<open>sanitize_returns\<close> says how many different draws are enough.  Refinement by Redis is for numbers below
  \<open>2 ^ 53\<close>, which a Lua number holds exactly.

  Parameters, each with its documented law as a named predicate where a theorem needs one: the
  regular expression engine, YAML and JSON text, address and URL parsing, the HTTP client, the Redis
  server (\<open>redis_server\<close>), the Prometheus registry (\<open>prometheus_ok\<close>), the dispatch of axum (\<open>axum_ok\<close>), the
  tokenizer, the ONNX session and \<open>exp\<close> (\<open>exp_law\<close>), the TLS and certificate libraries.

  Not modelled: the Python branch, the web pages, tests and deployment files, which are other programs; the
  installation of the crypto provider and of the tracing subscriber; the text that Prometheus
  renders; the expiry of Redis keys as time passes, beyond a server state that no longer holds one;
  \<open>Duration\<close> readings of the metrics, which are an argument; the code that runs only under \<open>cfg(test)\<close>.
\<close>

end
